(* ===== verification/Horus_Prelude.thy ===== *)
theory Horus_Prelude
  imports "HOL-Library.Word"
begin

text \<open>
  Shared vocabulary of the Horus development: the machine widths the kernel
  uses, the capability constants of \<^verbatim>\<open>src/include/kernel.h\<close> and
  \<^verbatim>\<open>rust/src/capability.rs\<close>, the error numbers of the system-call layer,
  checked and saturating arithmetic, and the generic lemmas on rights masks,
  folds and bounded counters that every component uses.  The collections
  declared here carry the component proofs:

    \<^item> \<open>cap_eqs\<close> unfolds the capability constructors and predicates,
    \<^item> \<open>mask_simps\<close> normalises inclusion of rights masks,
    \<^item> \<open>kern_defs\<close> unfolds the small helpers of the C sources.
\<close>

unbundle bit_operations_syntax

named_theorems cap_eqs "capability constructors and predicates"
named_theorems mask_simps "inclusion of rights masks"
named_theorems kern_defs "small helpers of the C sources"

section \<open>Machine widths\<close>

type_synonym u8 = "8 word"
type_synonym u32 = "32 word"
type_synonym u64 = "64 word"

lemma unat_lt_2p: "unat (w :: 'a::len word) < 2 ^ LENGTH('a)"
  by (rule unsigned_less)

text \<open>\<open>u64::checked_add\<close> and \<open>u32::saturating_add\<close>.\<close>

definition checked_add64 :: "u64 \<Rightarrow> u64 \<Rightarrow> u64 option" where
  "checked_add64 a b = (if unat a + unat b < 2 ^ 64 then Some (a + b) else None)"

definition saturating_add32 :: "u32 \<Rightarrow> u32 \<Rightarrow> u32" where
  "saturating_add32 a b = (if unat a + unat b < 2 ^ 32 then a + b else 0xFFFFFFFF)"

lemma checked_add64_Some:
  assumes "checked_add64 a b = Some c"
  shows "unat c = unat a + unat b"
  using assms by (auto simp: checked_add64_def unat_word_ariths split: if_splits)

lemma unat_saturating_add32:
  "unat (saturating_add32 a b) = min (2 ^ 32 - 1) (unat a + unat b)"
  by (auto simp: saturating_add32_def unat_word_ariths min_def)

lemma unat_ucast_64_32: "unat (ucast (x :: u64) :: u32) = unat x mod 2 ^ 32"
  by (simp add: unsigned_ucast_eq take_bit_eq_mod)

lemma unat_ucast_32_64 [simp]: "unat (ucast (x :: u32) :: u64) = unat x"
proof -
  have "unat x < 2 ^ 64" using unat_lt_2p[of x] by simp
  then show ?thesis by (simp add: unsigned_ucast_eq take_bit_eq_mod)
qed

lemma ucast_32_64_32 [simp]: "ucast (ucast (x :: u32) :: u64) = x"
proof (rule word_unat_eq_iff[THEN iffD2])
  have "unat x < 2 ^ 32" using unat_lt_2p[of x] by simp
  then show "unat (ucast (ucast x :: u64) :: u32) = unat x" by (simp add: unat_ucast_64_32)
qed

lemma ucast_32_64_less [simp]: "(ucast (x :: u32) :: u64) < ucast y \<longleftrightarrow> x < y"
  by (simp add: word_less_nat_alt)

lemma ucast_64_32_64:
  assumes "(x :: u64) < ucast (y :: u32)" shows "ucast (ucast x :: u32) = x"
proof (rule word_unat_eq_iff[THEN iffD2])
  have "unat x < 2 ^ 32"
    using assms unat_lt_2p[of y] by (simp add: word_less_nat_alt)
  then show "unat (ucast (ucast x :: u32) :: u64) = unat x" by (simp add: unat_ucast_64_32)
qed

section \<open>Constants\<close>

abbreviation (input) CNODE_SIZE :: nat where "CNODE_SIZE \<equiv> 256"
abbreviation (input) KERNEL_RESERVED_CAPS :: nat where "KERNEL_RESERVED_CAPS \<equiv> 4"
abbreviation (input) MAX_TASKS :: nat where "MAX_TASKS \<equiv> 256"
abbreviation (input) MAX_CAPS_PER_TASK :: nat where "MAX_CAPS_PER_TASK \<equiv> 128"
abbreviation (input) MIN_DERIVED_SERIAL :: u64 where "MIN_DERIVED_SERIAL \<equiv> 0x100000000"

abbreviation (input) CAP_NULL :: u32 where "CAP_NULL \<equiv> 0"
abbreviation (input) CAP_TCB :: u32 where "CAP_TCB \<equiv> 1"
abbreviation (input) CAP_NOTIFICATION :: u32 where "CAP_NOTIFICATION \<equiv> 2"
abbreviation (input) CAP_ENDPOINT :: u32 where "CAP_ENDPOINT \<equiv> 3"
abbreviation (input) CAP_FRAME :: u32 where "CAP_FRAME \<equiv> 4"
abbreviation (input) CAP_REVOCATION :: u32 where "CAP_REVOCATION \<equiv> 10"
abbreviation (input) CAP_PIPE :: u32 where "CAP_PIPE \<equiv> 13"
abbreviation (input) CAP_UNTYPED :: u32 where "CAP_UNTYPED \<equiv> 16"
abbreviation (input) CAP_REPLY :: u32 where "CAP_REPLY \<equiv> 17"
abbreviation (input) CAP_SCHED_CONTEXT :: u32 where "CAP_SCHED_CONTEXT \<equiv> 20"
abbreviation (input) CAP_ANYTYPE :: u32 where "CAP_ANYTYPE \<equiv> 0xFFFFFFFF"
abbreviation (input) CAP_MARK_NEW :: u32 where "CAP_MARK_NEW \<equiv> 0xFFFFFFFF"
abbreviation (input) CAP_MARK_DONE :: u32 where "CAP_MARK_DONE \<equiv> 0xFFFFFFFE"

abbreviation (input) CAP_RIGHT_READ :: u32 where "CAP_RIGHT_READ \<equiv> 1"
abbreviation (input) CAP_RIGHT_WRITE :: u32 where "CAP_RIGHT_WRITE \<equiv> 2"
abbreviation (input) CAP_RIGHT_EXEC :: u32 where "CAP_RIGHT_EXEC \<equiv> 4"
abbreviation (input) CAP_RIGHT_GRANT :: u32 where "CAP_RIGHT_GRANT \<equiv> 8"
abbreviation (input) CAP_RIGHT_MINT :: u32 where "CAP_RIGHT_MINT \<equiv> 16"
abbreviation (input) CAP_RIGHT_REVOKE :: u32 where "CAP_RIGHT_REVOKE \<equiv> 32"
abbreviation (input) CAP_RIGHT_ALL :: u32 where "CAP_RIGHT_ALL \<equiv> 0xFFFFFFFF"

section \<open>Rights masks\<close>

definition mask_le :: "'a::len word \<Rightarrow> 'a word \<Rightarrow> bool" where
  "mask_le r s \<longleftrightarrow> r AND s = r"

lemma mask_le_bit: "mask_le r s \<longleftrightarrow> (\<forall>i. bit r i \<longrightarrow> bit s i)"
  by (auto simp: mask_le_def bit_eq_iff bit_and_iff dest: bit_imp_le_length)

lemma mask_le_refl [simp, mask_simps]: "mask_le r r"
  by (simp add: mask_le_bit)

lemma mask_le_trans [trans]: "mask_le r s \<Longrightarrow> mask_le s t \<Longrightarrow> mask_le r t"
  by (simp add: mask_le_bit)

lemma mask_le_and [simp, mask_simps]: "mask_le (r AND s) r" "mask_le (r AND s) s"
  by (auto simp: mask_le_bit bit_and_iff)

lemma mask_le_and3 [simp, mask_simps]: "mask_le (r AND s AND t) s"
  by (auto simp: mask_le_bit bit_and_iff)

lemma mask_le_0 [simp, mask_simps]: "mask_le 0 s"
  by (simp add: mask_le_def)

lemma mask_le_antisym: "mask_le r s \<Longrightarrow> mask_le s r \<Longrightarrow> r = s"
  by (metis mask_le_def and.commute)

text \<open>Holding a set of required bits carries over to any larger mask.\<close>

lemma mask_le_required:
  "mask_le r s \<Longrightarrow> r AND req = req \<Longrightarrow> s AND req = req"
  by (metis mask_le_def and.assoc and.commute)

section \<open>Folds\<close>

lemma fold_inv:
  assumes "I s" and "\<And>x s. x \<in> set xs \<Longrightarrow> I s \<Longrightarrow> I (f x s)"
  shows "I (fold f xs s)"
  using assms by (induction xs arbitrary: s) auto

lemma fold_mono_rel:
  assumes "\<And>s. R s s" and "\<And>s t u. R s t \<Longrightarrow> R t u \<Longrightarrow> R s u"
    and "\<And>x s. x \<in> set xs \<Longrightarrow> R s (f x s)"
  shows "R s (fold f xs s)"
  using assms(3) by (induction xs arbitrary: s) (auto intro: assms(1,2))

section \<open>The first index a loop stops at\<close>

primrec find_idx :: "('a \<Rightarrow> bool) \<Rightarrow> 'a list \<Rightarrow> nat option" where
  "find_idx P [] = None"
| "find_idx P (x # xs) = (if P x then Some 0 else map_option Suc (find_idx P xs))"

lemma find_idx_Some:
  "find_idx P xs = Some i \<Longrightarrow> i < length xs \<and> P (xs ! i) \<and> (\<forall>j<i. \<not> P (xs ! j))"
proof (induction xs arbitrary: i)
  case (Cons x xs)
  then show ?case by (auto simp: nth_Cons' less_Suc_eq_0_disj split: if_splits option.splits)
qed simp

lemma find_idx_None: "find_idx P xs = None \<longleftrightarrow> (\<forall>x\<in>set xs. \<not> P x)"
  by (induction xs) auto

end
