(* ===== verification/Cap_Core.thy ===== *)
theory Cap_Core
  imports Horus_Prelude
begin

text \<open>
  The capability algebra of \<^verbatim>\<open>rust/src/capability.rs\<close>: the capability record,
  the lookups every authority check goes through, the serial counter, and the
  operations that derive one capability from another (mint, transfer, grant,
  token mint, reply mint).  A capability space is named by a reference
  (\<open>cref\<close>), a null pointer is \<open>None\<close>, and the memory of all capability spaces is
  one function from addresses (space, slot) to capabilities, so two arguments
  that alias the same slot really do alias in the model.  Slot numbers and
  sizes are only compared and used as indices and are \<open>nat\<close>; every field of a
  capability keeps its width.  The counter behind a \<open>*mut u64\<close> is
  \<open>u64 option\<close>, \<open>None\<close> for a null pointer.

  The lemmas show that a lookup never returns a capability without the type and
  the rights it was asked for, that every derivation narrows rights and records
  its parent, and that the serial counter never hands out a serial twice.
\<close>

section \<open>Capabilities and their memory\<close>

record capability =
  c_typ :: u32
  c_rights :: u32
  c_object :: u64
  c_badge :: u64
  c_serial :: u64
  c_token :: u64

datatype cref = RootC | TaskC nat

datatype caddr = Slot (space_of: cref) (index_of: nat)
type_synonym capmem = "caddr \<Rightarrow> capability"

definition null_cap :: capability where
  "null_cap = \<lparr> c_typ = CAP_NULL, c_rights = 0, c_object = 0, c_badge = 0,
                c_serial = 0, c_token = 0 \<rparr>"

definition copyable_from_ring3 :: "u32 \<Rightarrow> bool" where
  "copyable_from_ring3 typ \<longleftrightarrow> typ \<noteq> CAP_PIPE"

definition TOKEN_STRIPPED_RIGHTS :: u32 where
  "TOKEN_STRIPPED_RIGHTS = CAP_RIGHT_READ"

definition serial_is_primordial :: "u64 \<Rightarrow> bool" where
  "serial_is_primordial s \<longleftrightarrow> s AND 0xFFFFFFFFFFFF0000 = 0xC0DE0000"

section \<open>Lookups\<close>

definition rust_cap_lookup :: "capmem \<Rightarrow> cref option \<Rightarrow> nat \<Rightarrow> nat \<Rightarrow> u32 \<Rightarrow> caddr option" where
  "rust_cap_lookup m cspace cspace_size slot required_rights =
    (case cspace of
       None \<Rightarrow> None
     | Some r \<Rightarrow>
         if slot \<ge> cspace_size \<or> slot \<ge> CNODE_SIZE then None
         else let cap = m (Slot r slot) in
           if c_typ cap = CAP_NULL then None
           else if c_rights cap AND required_rights \<noteq> required_rights then None
           else if c_serial cap = 0 then None
           else Some (Slot r slot))"

definition rust_cap_lookup_typed ::
  "capmem \<Rightarrow> cref option \<Rightarrow> nat \<Rightarrow> nat \<Rightarrow> u32 \<Rightarrow> u32 \<Rightarrow> caddr option" where
  "rust_cap_lookup_typed m cspace cspace_size slot expected_type required_rights =
    (case rust_cap_lookup m cspace cspace_size slot required_rights of
       None \<Rightarrow> None
     | Some p \<Rightarrow>
         if expected_type \<noteq> CAP_ANYTYPE \<and> c_typ (m p) \<noteq> expected_type then None
         else Some p)"

text \<open>\<open>None\<close> is the return value -1; \<open>Some i\<close> is 0 with \<open>i\<close> stored through
  \<open>out_index\<close>.\<close>

definition rust_ipc_object_from_slot ::
  "capmem \<Rightarrow> cref option \<Rightarrow> nat \<Rightarrow> nat \<Rightarrow> u32 \<Rightarrow> u32 \<Rightarrow> u32 \<Rightarrow> u32 option" where
  "rust_ipc_object_from_slot m cspace cspace_size slot expected_type need_rights index_max =
    (case rust_cap_lookup_typed m cspace cspace_size slot expected_type need_rights of
       None \<Rightarrow> None
     | Some p \<Rightarrow>
         let obj = c_object (m p) in
         if obj \<ge> ucast index_max then None else Some (ucast obj))"

section \<open>Serials\<close>

definition assign_fresh_serial :: "u64 option \<Rightarrow> u64 \<times> u64 option" where
  "assign_fresh_serial next_serial =
    (case next_serial of
       None \<Rightarrow> (0, None)
     | Some cur \<Rightarrow>
         let base = (if cur < MIN_DERIVED_SERIAL then MIN_DERIVED_SERIAL else cur) in
         case checked_add64 base 1 of
           Some fresh \<Rightarrow> (fresh, Some fresh)
         | None \<Rightarrow> (0, Some cur))"

definition rust_cap_alloc_serial :: "u64 option \<Rightarrow> u64 \<times> u64 option" where
  "rust_cap_alloc_serial next_serial = assign_fresh_serial next_serial"

section \<open>Derivations\<close>

text \<open>The two ways a derived capability is built: a plain derivation copies
  the token, a token derivation sets it and strips the receive right.\<close>

definition derived_cap :: "capability \<Rightarrow> u32 \<Rightarrow> u64 \<Rightarrow> capability" where
  "derived_cap src new_rights fresh =
    \<lparr> c_typ = c_typ src, c_rights = new_rights AND c_rights src, c_object = c_object src,
      c_badge = c_serial src, c_serial = fresh, c_token = c_token src \<rparr>"

definition token_cap :: "u64 \<Rightarrow> capability \<Rightarrow> u32 \<Rightarrow> u64 \<Rightarrow> capability" where
  "token_cap token src new_rights fresh =
    \<lparr> c_typ = CAP_ENDPOINT,
      c_rights = new_rights AND c_rights src AND NOT TOKEN_STRIPPED_RIGHTS,
      c_object = c_object src, c_badge = c_serial src, c_serial = fresh, c_token = token \<rparr>"

type_synonym cap_result = "bool \<times> capmem \<times> u64 option"

definition rust_cap_mint ::
  "capmem \<Rightarrow> cref option \<Rightarrow> nat \<Rightarrow> nat \<Rightarrow> nat \<Rightarrow> u32 \<Rightarrow> u64 option \<Rightarrow> cap_result" where
  "rust_cap_mint m cspace cspace_size dest_slot src_slot new_rights next_serial =
    (case cspace of
       None \<Rightarrow> (False, m, next_serial)
     | Some r \<Rightarrow>
         if dest_slot \<ge> cspace_size \<or> dest_slot \<ge> CNODE_SIZE then (False, m, next_serial)
         else if src_slot \<ge> cspace_size \<or> src_slot \<ge> CNODE_SIZE then (False, m, next_serial)
         else if dest_slot < KERNEL_RESERVED_CAPS then (False, m, next_serial)
         else let src = m (Slot r src_slot) in
           if c_typ src = CAP_NULL then (False, m, next_serial)
           else if c_serial src = 0 then (False, m, next_serial)
           else if \<not> copyable_from_ring3 (c_typ src) then (False, m, next_serial)
           else let (fresh, next_serial') = assign_fresh_serial next_serial in
             if fresh = 0 then (False, m, next_serial')
             else (True, m(Slot r dest_slot := derived_cap src new_rights fresh), next_serial'))"

definition rust_cap_transfer ::
  "capmem \<Rightarrow> cref option \<Rightarrow> nat \<Rightarrow> nat \<Rightarrow> nat \<Rightarrow> u64 option \<Rightarrow> cap_result" where
  "rust_cap_transfer m cspace cspace_size dest_slot src_slot next_serial =
    rust_cap_mint m cspace cspace_size dest_slot src_slot 0xFFFFFFFF next_serial"

definition rust_cap_grant_into ::
  "capmem \<Rightarrow> caddr option \<Rightarrow> cref option \<Rightarrow> nat \<Rightarrow> nat \<Rightarrow> u32 \<Rightarrow> u64 option \<Rightarrow> cap_result" where
  "rust_cap_grant_into m src dest_cspace dest_cspace_size dest_slot new_rights next_serial =
    (case (src, dest_cspace) of
       (Some sa, Some r) \<Rightarrow>
         if dest_slot \<ge> dest_cspace_size \<or> dest_slot \<ge> CNODE_SIZE then (False, m, next_serial)
         else let s = m sa in
           if c_typ s = CAP_NULL \<or> c_serial s = 0 then (False, m, next_serial)
           else let (fresh, next_serial') = assign_fresh_serial next_serial in
             if fresh = 0 then (False, m, next_serial')
             else (True, m(Slot r dest_slot := derived_cap s new_rights fresh), next_serial')
     | _ \<Rightarrow> (False, m, next_serial))"

definition rust_cap_grant_from_user ::
  "capmem \<Rightarrow> caddr option \<Rightarrow> cref option \<Rightarrow> nat \<Rightarrow> nat \<Rightarrow> u32 \<Rightarrow> u64 option \<Rightarrow> cap_result" where
  "rust_cap_grant_from_user m src dest_cspace dest_cspace_size dest_slot new_rights next_serial =
    (case src of
       None \<Rightarrow> (False, m, next_serial)
     | Some sa \<Rightarrow>
         if \<not> copyable_from_ring3 (c_typ (m sa)) then (False, m, next_serial)
         else rust_cap_grant_into m src dest_cspace dest_cspace_size dest_slot new_rights next_serial)"

definition rust_cap_mint_token ::
  "capmem \<Rightarrow> cref option \<Rightarrow> nat \<Rightarrow> nat \<Rightarrow> nat \<Rightarrow> u32 \<Rightarrow> u64 \<Rightarrow> u64 option \<Rightarrow> cap_result" where
  "rust_cap_mint_token m cspace cspace_size dest_slot src_slot new_rights token next_serial =
    (case cspace of
       None \<Rightarrow> (False, m, next_serial)
     | Some r \<Rightarrow>
         if token = 0 then (False, m, next_serial)
         else if dest_slot \<ge> cspace_size \<or> dest_slot \<ge> CNODE_SIZE
                 \<or> dest_slot < KERNEL_RESERVED_CAPS then (False, m, next_serial)
         else if src_slot \<ge> cspace_size \<or> src_slot \<ge> CNODE_SIZE
                 \<or> src_slot = dest_slot then (False, m, next_serial)
         else let src = m (Slot r src_slot) in
           if c_typ src \<noteq> CAP_ENDPOINT \<or> c_serial src = 0 then (False, m, next_serial)
           else if c_rights src AND CAP_RIGHT_MINT = 0 \<or> c_token src \<noteq> 0 then (False, m, next_serial)
           else let (fresh, next_serial') = assign_fresh_serial next_serial in
             if fresh = 0 then (False, m, next_serial')
             else (True, m(Slot r dest_slot := token_cap token src new_rights fresh), next_serial'))"

definition rust_cap_reply_mint ::
  "capmem \<Rightarrow> caddr option \<Rightarrow> cref option \<Rightarrow> nat \<Rightarrow> nat \<Rightarrow> u32 \<Rightarrow> u64 \<Rightarrow> u64 option \<Rightarrow> cap_result" where
  "rust_cap_reply_mint m src dest_cspace dest_cspace_size dest_slot new_rights token next_serial =
    (case (src, dest_cspace) of
       (Some sa, Some r) \<Rightarrow>
         if token = 0 then (False, m, next_serial)
         else if dest_slot \<ge> dest_cspace_size \<or> dest_slot \<ge> CNODE_SIZE
                 \<or> dest_slot < KERNEL_RESERVED_CAPS then (False, m, next_serial)
         else let s = m sa in
           if c_typ s \<noteq> CAP_ENDPOINT \<or> c_serial s = 0 then (False, m, next_serial)
           else if c_typ (m (Slot r dest_slot)) \<noteq> CAP_NULL then (False, m, next_serial)
           else let (fresh, next_serial') = assign_fresh_serial next_serial in
             if fresh = 0 then (False, m, next_serial')
             else (True, m(Slot r dest_slot := token_cap token s new_rights fresh), next_serial')
     | _ \<Rightarrow> (False, m, next_serial))"

section \<open>Lookup: what a returned address promises\<close>

definition live :: "capability \<Rightarrow> bool" where
  "live c \<longleftrightarrow> c_typ c \<noteq> CAP_NULL \<and> c_serial c \<noteq> 0"

lemma live_null [simp]: "\<not> live null_cap"
  by (simp add: live_def null_cap_def)

lemma null_cap_sel [simp, cap_eqs]:
  "c_typ null_cap = 0" "c_rights null_cap = 0" "c_object null_cap = 0"
  "c_badge null_cap = 0" "c_serial null_cap = 0" "c_token null_cap = 0"
  by (simp_all add: null_cap_def)

lemma rust_cap_lookup_Some_iff:
  "rust_cap_lookup m cs sz slot req = Some p \<longleftrightarrow>
    (\<exists>r. cs = Some r \<and> p = Slot r slot \<and> slot < sz \<and> slot < CNODE_SIZE \<and> live (m p)
       \<and> c_rights (m p) AND req = req)"
  by (auto simp: rust_cap_lookup_def live_def Let_def split: option.splits)

lemma rust_cap_lookup_typed_Some_iff:
  "rust_cap_lookup_typed m cs sz slot ty req = Some p \<longleftrightarrow>
    (\<exists>r. cs = Some r \<and> p = Slot r slot \<and> slot < sz \<and> slot < CNODE_SIZE \<and> live (m p)
       \<and> c_rights (m p) AND req = req \<and> (ty = CAP_ANYTYPE \<or> c_typ (m p) = ty))"
  by (auto simp: rust_cap_lookup_typed_def rust_cap_lookup_def live_def Let_def split: option.splits)

section \<open>Serials: never zero by success, never repeated\<close>

text \<open>The largest serial the counter can have issued so far.\<close>

definition issued :: "u64 option \<Rightarrow> nat" where
  "issued ns = (case ns of None \<Rightarrow> unat MIN_DERIVED_SERIAL
                | Some n \<Rightarrow> max (unat MIN_DERIVED_SERIAL) (unat n))"

lemma assign_fresh_serial_ok:
  assumes "assign_fresh_serial ns = (f, ns')" "f \<noteq> 0"
  shows "ns' = Some f" "unat f = Suc (issued ns)" "issued ns' = unat f" "issued ns < unat f"
proof -
  show "ns' = Some f"
    using assms by (auto simp: assign_fresh_serial_def Let_def split: option.splits)
  show u: "unat f = Suc (issued ns)"
    using assms
    by (auto simp: assign_fresh_serial_def issued_def Let_def word_less_nat_alt max_def
             dest!: checked_add64_Some split: option.splits if_splits)
  then show "issued ns < unat f" by simp
  show "issued ns' = unat f"
    using u \<open>ns' = Some f\<close> by (auto simp: issued_def split: option.splits)
qed

lemma assign_fresh_serial_fail:
  "assign_fresh_serial ns = (0, ns') \<Longrightarrow> ns' = ns"
  by (auto simp: assign_fresh_serial_def Let_def checked_add64_def split: option.splits if_splits)
     (auto simp: unat_word_ariths word_less_nat_alt  dest!: arg_cong[where f=unat])

section \<open>Derivations: a contract and what follows from it\<close>

text \<open>What the kernel promises of any way to build a capability from another
  one: never more rights than the source had or than were asked for, the same
  object, and the source's serial as its badge.\<close>

locale derivation =
  fixes derive :: "capability \<Rightarrow> u32 \<Rightarrow> u64 \<Rightarrow> capability"
    and admissible :: "capability \<Rightarrow> bool"
  assumes narrows: "mask_le (c_rights (derive s r f)) (c_rights s)"
    and asked: "mask_le (c_rights (derive s r f)) r"
    and same_typ: "admissible s \<Longrightarrow> c_typ (derive s r f) = c_typ s"
    and same_object: "c_object (derive s r f) = c_object s"
    and parent_badge: "c_badge (derive s r f) = c_serial s"
    and own_serial: "c_serial (derive s r f) = f"
begin

text \<open>A chain of derivations, each link given by the rights asked for and the
  serial issued.\<close>

primrec chain :: "capability \<Rightarrow> (u32 \<times> u64) list \<Rightarrow> capability" where
  "chain s [] = s"
| "chain s (x # xs) = chain (derive s (fst x) (snd x)) xs"

lemma chain_narrows: "mask_le (c_rights (chain s xs)) (c_rights s)"
  by (induction xs arbitrary: s) (auto intro: mask_le_trans narrows)

lemma chain_asked: "x \<in> set xs \<Longrightarrow> mask_le (c_rights (chain s xs)) (fst x)"
  by (induction xs arbitrary: s) (auto intro: mask_le_trans chain_narrows asked)

lemma chain_object: "c_object (chain s xs) = c_object s"
  by (induction xs arbitrary: s) (simp_all add: same_object)

lemma derive_live: "admissible s \<Longrightarrow> c_typ s \<noteq> 0 \<Longrightarrow> f \<noteq> 0 \<Longrightarrow> live (derive s r f)"
  by (simp add: live_def same_typ own_serial)

end

interpretation plain: derivation derived_cap "\<lambda>_. True"
  by unfold_locales (simp_all add: derived_cap_def)

interpretation tokened: derivation "token_cap t" "\<lambda>s. c_typ s = CAP_ENDPOINT" for t
  by unfold_locales (auto simp: token_cap_def mask_le_bit bit_and_iff)

lemmas derived_cap_sel [simp, cap_eqs] =
  plain.same_typ[OF TrueI] plain.same_object plain.parent_badge plain.own_serial

lemma derived_cap_more [simp, cap_eqs]:
  "c_rights (derived_cap s r f) = r AND c_rights s" "c_token (derived_cap s r f) = c_token s"
  by (simp_all add: derived_cap_def)

lemma token_cap_sel [simp, cap_eqs]:
  "c_typ (token_cap t s r f) = CAP_ENDPOINT" "c_object (token_cap t s r f) = c_object s"
  "c_badge (token_cap t s r f) = c_serial s" "c_serial (token_cap t s r f) = f"
  "c_token (token_cap t s r f) = t"
  by (simp_all add: token_cap_def)

lemma token_cap_no_read [simp]: "c_rights (token_cap t s r f) AND CAP_RIGHT_READ = 0"
  by (rule bit_eqI) (auto simp: token_cap_def TOKEN_STRIPPED_RIGHTS_def bit_simps)

section \<open>Exact success conditions of the derivations\<close>

lemma rust_cap_mint_True_iff:
  "rust_cap_mint m cs sz d s nr ns = (True, m', ns') \<longleftrightarrow>
    (\<exists>r f. cs = Some r \<and> d < sz \<and> d < CNODE_SIZE \<and> s < sz \<and> s < CNODE_SIZE
      \<and> KERNEL_RESERVED_CAPS \<le> d \<and> live (m (Slot r s)) \<and> c_typ (m (Slot r s)) \<noteq> CAP_PIPE
      \<and> assign_fresh_serial ns = (f, ns') \<and> f \<noteq> 0
      \<and> m' = m(Slot r d := derived_cap (m (Slot r s)) nr f))"
  by (auto simp: rust_cap_mint_def live_def copyable_from_ring3_def Let_def
           split: option.splits prod.splits)

lemma rust_cap_mint_False:
  "rust_cap_mint m cs sz d s nr ns = (False, m', ns') \<Longrightarrow> m' = m \<and> ns' = ns"
  by (auto simp: rust_cap_mint_def Let_def dest: assign_fresh_serial_fail
           split: option.splits prod.splits if_splits)

lemma rust_cap_grant_into_True_iff:
  "rust_cap_grant_into m src cs sz d nr ns = (True, m', ns') \<longleftrightarrow>
    (\<exists>r a f. cs = Some r \<and> src = Some a \<and> d < sz \<and> d < CNODE_SIZE \<and> live (m a)
      \<and> assign_fresh_serial ns = (f, ns') \<and> f \<noteq> 0
      \<and> m' = m(Slot r d := derived_cap (m a) nr f))"
  by (auto simp: rust_cap_grant_into_def live_def Let_def split: option.splits prod.splits)

lemma rust_cap_grant_into_False:
  "rust_cap_grant_into m src cs sz d nr ns = (False, m', ns') \<Longrightarrow> m' = m \<and> ns' = ns"
  by (auto simp: rust_cap_grant_into_def Let_def dest: assign_fresh_serial_fail
           split: option.splits prod.splits if_splits)

lemma rust_cap_grant_from_user_True_iff:
  "rust_cap_grant_from_user m src cs sz d nr ns = (True, m', ns') \<longleftrightarrow>
    (\<exists>a. src = Some a \<and> c_typ (m a) \<noteq> CAP_PIPE
       \<and> rust_cap_grant_into m src cs sz d nr ns = (True, m', ns'))"
  by (auto simp: rust_cap_grant_from_user_def copyable_from_ring3_def split: option.splits)

lemma rust_cap_grant_from_user_False:
  "rust_cap_grant_from_user m src cs sz d nr ns = (False, m', ns') \<Longrightarrow> m' = m \<and> ns' = ns"
  by (auto simp: rust_cap_grant_from_user_def dest: rust_cap_grant_into_False
           split: option.splits if_splits)

lemma rust_cap_mint_token_True_iff:
  "rust_cap_mint_token m cs sz d s nr t ns = (True, m', ns') \<longleftrightarrow>
    (\<exists>r f. cs = Some r \<and> t \<noteq> 0 \<and> d < sz \<and> d < CNODE_SIZE \<and> KERNEL_RESERVED_CAPS \<le> d
      \<and> s < sz \<and> s < CNODE_SIZE \<and> s \<noteq> d
      \<and> c_typ (m (Slot r s)) = CAP_ENDPOINT \<and> c_serial (m (Slot r s)) \<noteq> 0
      \<and> c_rights (m (Slot r s)) AND CAP_RIGHT_MINT \<noteq> 0 \<and> c_token (m (Slot r s)) = 0
      \<and> assign_fresh_serial ns = (f, ns') \<and> f \<noteq> 0
      \<and> m' = m(Slot r d := token_cap t (m (Slot r s)) nr f))"
  by (auto simp: rust_cap_mint_token_def Let_def split: option.splits prod.splits)

lemma rust_cap_mint_token_False:
  "rust_cap_mint_token m cs sz d s nr t ns = (False, m', ns') \<Longrightarrow> m' = m \<and> ns' = ns"
  by (auto simp: rust_cap_mint_token_def Let_def dest: assign_fresh_serial_fail
           split: option.splits prod.splits if_splits)

lemma rust_cap_reply_mint_True_iff:
  "rust_cap_reply_mint m src cs sz d nr t ns = (True, m', ns') \<longleftrightarrow>
    (\<exists>r a f. cs = Some r \<and> src = Some a \<and> t \<noteq> 0 \<and> d < sz \<and> d < CNODE_SIZE
      \<and> KERNEL_RESERVED_CAPS \<le> d \<and> c_typ (m a) = CAP_ENDPOINT \<and> c_serial (m a) \<noteq> 0
      \<and> c_typ (m (Slot r d)) = CAP_NULL \<and> assign_fresh_serial ns = (f, ns') \<and> f \<noteq> 0
      \<and> m' = m(Slot r d := token_cap t (m a) nr f))"
  by (auto simp: rust_cap_reply_mint_def Let_def split: option.splits prod.splits)

lemma rust_cap_reply_mint_False:
  "rust_cap_reply_mint m src cs sz d nr t ns = (False, m', ns') \<Longrightarrow> m' = m \<and> ns' = ns"
  by (auto simp: rust_cap_reply_mint_def Let_def dest: assign_fresh_serial_fail
           split: option.splits prod.splits if_splits)

section \<open>The lineage invariant\<close>

text \<open>What every capability operation keeps of the memory of all capability
  spaces: no slot holds one of the two types the revocation sweep marks with,
  every live serial was issued and is greater than its parent's, no two slots
  share a serial, and rights never grow along a derivation edge.\<close>

definition lineage_inv :: "capmem \<Rightarrow> u64 option \<Rightarrow> bool" where
  "lineage_inv m ns \<longleftrightarrow>
    (\<forall>a. c_typ (m a) \<noteq> CAP_MARK_NEW \<and> c_typ (m a) \<noteq> CAP_MARK_DONE) \<and>
    (\<forall>a. live (m a) \<longrightarrow> unat (c_serial (m a)) \<le> issued ns \<and> c_badge (m a) < c_serial (m a)) \<and>
    (\<forall>a b. live (m a) \<longrightarrow> live (m b) \<longrightarrow> c_serial (m a) = c_serial (m b) \<longrightarrow> a = b) \<and>
    (\<forall>a b. live (m a) \<longrightarrow> live (m b) \<longrightarrow> c_badge (m b) = c_serial (m a)
        \<longrightarrow> mask_le (c_rights (m b)) (c_rights (m a)))"

lemma lineage_invD:
  assumes "lineage_inv m ns"
  shows "c_typ (m a) \<noteq> CAP_MARK_NEW" "c_typ (m a) \<noteq> CAP_MARK_DONE"
    and "live (m a) \<Longrightarrow> unat (c_serial (m a)) \<le> issued ns"
    and "live (m a) \<Longrightarrow> c_badge (m a) < c_serial (m a)"
    and "live (m a) \<Longrightarrow> live (m b) \<Longrightarrow> c_serial (m a) = c_serial (m b) \<Longrightarrow> a = b"
    and "live (m a) \<Longrightarrow> live (m b) \<Longrightarrow> c_badge (m b) = c_serial (m a)
          \<Longrightarrow> mask_le (c_rights (m b)) (c_rights (m a))"
  using assms unfolding lineage_inv_def by blast+

lemma lineage_invI:
  assumes "\<And>a. c_typ (m a) \<noteq> CAP_MARK_NEW" "\<And>a. c_typ (m a) \<noteq> CAP_MARK_DONE"
    and "\<And>a. live (m a) \<Longrightarrow> unat (c_serial (m a)) \<le> issued ns"
    and "\<And>a. live (m a) \<Longrightarrow> c_badge (m a) < c_serial (m a)"
    and "\<And>a b. live (m a) \<Longrightarrow> live (m b) \<Longrightarrow> c_serial (m a) = c_serial (m b) \<Longrightarrow> a = b"
    and "\<And>a b. live (m a) \<Longrightarrow> live (m b) \<Longrightarrow> c_badge (m b) = c_serial (m a)
          \<Longrightarrow> mask_le (c_rights (m b)) (c_rights (m a))"
  shows "lineage_inv m ns"
  using assms unfolding lineage_inv_def by blast

lemma lineage_inv_issued_mono:
  "lineage_inv m ns \<Longrightarrow> issued ns \<le> issued ns' \<Longrightarrow> lineage_inv m ns'"
  unfolding lineage_inv_def by (meson le_trans)

text \<open>Installing a capability under a fresh serial, as a root (badge 0) or as a child:
  its rights must not exceed those of the capability its badge names, if any.\<close>

lemma lineage_inv_place:
  assumes inv: "lineage_inv m ns" and fresh: "assign_fresh_serial ns = (f, ns')" "f \<noteq> 0"
    and ser: "c_serial c = f" and ty: "c_typ c \<noteq> CAP_MARK_NEW" "c_typ c \<noteq> CAP_MARK_DONE"
    and badge: "c_badge c < f"
    and par: "\<And>a. live (m a) \<Longrightarrow> c_badge c = c_serial (m a) \<Longrightarrow> mask_le (c_rights c) (c_rights (m a))"
  shows "lineage_inv (m(d := c)) ns'"
proof -
  note D = lineage_invD[OF inv] and F = assign_fresh_serial_ok[OF fresh]
  have old: "unat (c_serial (m a)) < unat f" if "live (m a)" for a
    using D(3)[OF that] F(4) by simp
  have noparent: "c_badge (m b) \<noteq> f" if "live (m b)" for b
    using D(4)[OF that] old[OF that] by (auto simp: word_less_nat_alt)
  show ?thesis
  proof (rule lineage_invI)
    fix a assume "live ((m(d := c)) a)"
    then show "unat (c_serial ((m(d := c)) a)) \<le> issued ns'"
      using ser F(3) old[of a] by (cases "a = d") simp_all
  next
    fix a b
    assume l: "live ((m(d := c)) a)" "live ((m(d := c)) b)"
      and e: "c_serial ((m(d := c)) a) = c_serial ((m(d := c)) b)"
    then show "a = b"
      using ser D(5)[of a b] old[of a] old[of b] by (cases "a = d"; cases "b = d") auto
  next
    fix a b
    assume l: "live ((m(d := c)) a)" "live ((m(d := c)) b)"
      and e: "c_badge ((m(d := c)) b) = c_serial ((m(d := c)) a)"
    then show "mask_le (c_rights ((m(d := c)) b)) (c_rights ((m(d := c)) a))"
      using ser badge noparent[of b] D(6)[of a b] par[of a] by (cases "a = d"; cases "b = d") auto
  next
    fix a
    show "c_typ ((m(d := c)) a) \<noteq> CAP_MARK_NEW" "c_typ ((m(d := c)) a) \<noteq> CAP_MARK_DONE"
      using ty D(1,2)[of a] by simp_all
    show "live ((m(d := c)) a) \<Longrightarrow> c_badge ((m(d := c)) a) < c_serial ((m(d := c)) a)"
      using ser badge D(4)[of a] by (cases "a = d") simp_all
  qed
qed

lemma lineage_inv_install:
  assumes inv: "lineage_inv m ns" and fresh: "assign_fresh_serial ns = (f, ns')" "f \<noteq> 0"
    and ser: "c_serial c = f" and ty: "c_typ c \<noteq> CAP_MARK_NEW" "c_typ c \<noteq> CAP_MARK_DONE"
    and par: "c_badge c = 0 \<or> (\<exists>a. live (m a) \<and> c_badge c = c_serial (m a)
                \<and> mask_le (c_rights c) (c_rights (m a)))"
  shows "lineage_inv (m(d := c)) ns'"
proof (rule lineage_inv_place[OF inv fresh ser ty])
  note D = lineage_invD[OF inv] and F = assign_fresh_serial_ok[OF fresh]
  have "unat (c_serial (m a)) < unat f" if "live (m a)" for a using D(3)[OF that] F(4) by simp
  thus "c_badge c < f" using par F(4) by (auto simp: word_less_nat_alt)
  fix a assume a: "live (m a)" "c_badge c = c_serial (m a)"
  then obtain p where "live (m p)" "c_serial (m p) = c_serial (m a)" "mask_le (c_rights c) (c_rights (m p))"
    using par by (auto simp: live_def)
  thus "mask_le (c_rights c) (c_rights (m a))" using D(5)[of p a] a(1) by simp
qed

text \<open>Emptying any set of slots.\<close>

lemma lineage_inv_nullify:
  assumes "lineage_inv m ns" "\<And>a. m' a = m a \<or> m' a = null_cap"
  shows "lineage_inv m' ns"
proof (rule lineage_invI)
  note D = lineage_invD[OF assms(1)]
  have same: "m' a = m a" if "live (m' a)" for a using assms(2)[of a] that by auto
  show "c_typ (m' a) \<noteq> CAP_MARK_NEW" for a using assms(2)[of a] D(1) by auto
  show "c_typ (m' a) \<noteq> CAP_MARK_DONE" for a using assms(2)[of a] D(2) by auto
  fix a b
  show "unat (c_serial (m' a)) \<le> issued ns" "c_badge (m' a) < c_serial (m' a)" if "live (m' a)"
    using same that D(3,4) by metis+
  assume "live (m' a)" "live (m' b)"
  then show "c_serial (m' a) = c_serial (m' b) \<Longrightarrow> a = b"
    and "c_badge (m' b) = c_serial (m' a) \<Longrightarrow> mask_le (c_rights (m' b)) (c_rights (m' a))"
    using same D(5,6) by metis+
qed

lemma lineage_inv_derived:
  assumes "lineage_inv m ns" "assign_fresh_serial ns = (f, ns')" "f \<noteq> 0" "live (m a)"
  shows "lineage_inv (m(d := derived_cap (m a) nr f)) ns'"
proof -
  have "c_typ (m a) \<noteq> CAP_MARK_NEW" "c_typ (m a) \<noteq> CAP_MARK_DONE"
    using lineage_invD(1,2)[OF assms(1)] by auto
  then show ?thesis
    using assms by (intro lineage_inv_install[OF assms(1-3)]) (auto intro: plain.narrows)
qed

lemma lineage_inv_tokened:
  assumes "lineage_inv m ns" "assign_fresh_serial ns = (f, ns')" "f \<noteq> 0" "live (m a)"
  shows "lineage_inv (m(d := token_cap t (m a) nr f)) ns'"
  using assms by (intro lineage_inv_install[OF assms(1-3)]) (auto intro: tokened.narrows)

lemma live_endpointI: "c_typ c = CAP_ENDPOINT \<Longrightarrow> c_serial c \<noteq> 0 \<Longrightarrow> live c"
  by (simp add: live_def)

lemma rust_cap_mint_lineage:
  "lineage_inv m ns \<Longrightarrow> rust_cap_mint m cs sz d s nr ns = (ok, m', ns') \<Longrightarrow> lineage_inv m' ns'"
  by (cases ok) (auto simp: rust_cap_mint_True_iff intro: lineage_inv_derived
      dest!: rust_cap_mint_False)

lemma rust_cap_grant_into_lineage:
  "lineage_inv m ns \<Longrightarrow> rust_cap_grant_into m src cs sz d nr ns = (ok, m', ns')
    \<Longrightarrow> lineage_inv m' ns'"
  by (cases ok) (auto simp: rust_cap_grant_into_True_iff intro: lineage_inv_derived
      dest!: rust_cap_grant_into_False)

lemma rust_cap_grant_from_user_lineage:
  "lineage_inv m ns \<Longrightarrow> rust_cap_grant_from_user m src cs sz d nr ns = (ok, m', ns')
    \<Longrightarrow> lineage_inv m' ns'"
  by (cases ok) (auto simp: rust_cap_grant_from_user_True_iff intro: rust_cap_grant_into_lineage
      dest!: rust_cap_grant_from_user_False)

lemma rust_cap_mint_token_lineage:
  "lineage_inv m ns \<Longrightarrow> rust_cap_mint_token m cs sz d s nr t ns = (ok, m', ns')
    \<Longrightarrow> lineage_inv m' ns'"
  by (cases ok) (auto simp: rust_cap_mint_token_True_iff intro: lineage_inv_tokened live_endpointI
      dest!: rust_cap_mint_token_False)

lemma rust_cap_reply_mint_lineage:
  "lineage_inv m ns \<Longrightarrow> rust_cap_reply_mint m src cs sz d nr t ns = (ok, m', ns')
    \<Longrightarrow> lineage_inv m' ns'"
  by (cases ok) (auto simp: rust_cap_reply_mint_True_iff intro: lineage_inv_tokened live_endpointI
      dest!: rust_cap_reply_mint_False)

lemmas derivation_lineage =
  rust_cap_mint_lineage rust_cap_grant_into_lineage rust_cap_grant_from_user_lineage
  rust_cap_mint_token_lineage rust_cap_reply_mint_lineage

section \<open>Properties\<close>

text \<open>The kernel object a slot names is exactly what the capability in it
  says: the resolver succeeds if and only if the slot holds a live capability of
  the expected type with every required right, and the index it returns is that
  capability's whole 64-bit object, below the bound, never a truncation.\<close>

theorem ipc_object_from_slot_exact:
  "rust_ipc_object_from_slot m cs sz slot ty need imax = Some i \<longleftrightarrow>
    (\<exists>r. cs = Some r \<and> slot < sz \<and> slot < CNODE_SIZE \<and> live (m (Slot r slot))
       \<and> c_rights (m (Slot r slot)) AND need = need
       \<and> (ty = CAP_ANYTYPE \<or> c_typ (m (Slot r slot)) = ty)
       \<and> c_object (m (Slot r slot)) = ucast i \<and> i < imax)"
proof -
  have "rust_ipc_object_from_slot m cs sz slot ty need imax = Some i \<longleftrightarrow>
    (\<exists>p. rust_cap_lookup_typed m cs sz slot ty need = Some p
       \<and> c_object (m p) < ucast imax \<and> ucast (c_object (m p)) = i)"
    by (auto simp: rust_ipc_object_from_slot_def Let_def not_le split: option.splits)
  also have "\<dots> \<longleftrightarrow> (\<exists>p. rust_cap_lookup_typed m cs sz slot ty need = Some p
       \<and> c_object (m p) = ucast i \<and> i < imax)"
    using ucast_64_32_64[of _ imax] by (metis ucast_32_64_32 ucast_32_64_less)
  finally show ?thesis
    by (auto simp: rust_cap_lookup_typed_Some_iff)
qed

text \<open>A small concrete memory for the witnesses: slot 5 of task 1 holds an
  untokened endpoint with the rights READ, WRITE and MINT, slot 6 a pipe end.\<close>

definition sample_mem :: capmem where
  "sample_mem = (\<lambda>_. null_cap)
    (Slot (TaskC 1) 5 := \<lparr> c_typ = CAP_ENDPOINT, c_rights = 0x13, c_object = 7, c_badge = 0,
        c_serial = 0xC0DE0005, c_token = 0 \<rparr>,
     Slot (TaskC 1) 6 := \<lparr> c_typ = CAP_PIPE, c_rights = 1, c_object = 0x100000002, c_badge = 0,
        c_serial = 0x100000001, c_token = 0 \<rparr>)"

text \<open>C30. No derivation widens authority.  Whichever of the five operations
  succeeds (mint, grant between spaces, grant on behalf of ring 3, token mint,
  reply mint), it writes the destination slot and nothing else; the new
  capability names the source's type and object, holds no right the source did
  not hold and none that was not asked for, records the source's serial as its
  badge, and carries a serial greater than every serial issued before.\<close>

theorem derivations_never_widen:
  assumes "cs = Some r \<and> src = Slot r s \<and> rust_cap_mint m cs sz d s nr ns = (True, m', ns')
         \<or> rust_cap_grant_into m (Some src) cs sz d nr ns = (True, m', ns')
         \<or> rust_cap_grant_from_user m (Some src) cs sz d nr ns = (True, m', ns')
         \<or> cs = Some r \<and> src = Slot r s
             \<and> rust_cap_mint_token m cs sz d s nr t ns = (True, m', ns')
         \<or> rust_cap_reply_mint m (Some src) cs sz d nr t ns = (True, m', ns')"
  shows "\<exists>q c. cs = Some q \<and> m' = m(Slot q d := c) \<and> live (m src) \<and> live c
      \<and> c_typ c = c_typ (m src) \<and> c_object c = c_object (m src)
      \<and> mask_le (c_rights c) (c_rights (m src)) \<and> mask_le (c_rights c) nr
      \<and> c_badge c = c_serial (m src)
      \<and> issued ns < unat (c_serial c) \<and> ns' = Some (c_serial c)"
proof -
  from assms obtain q f c where q: "cs = Some q" "m' = m(Slot q d := c)" "live (m src)"
    and f: "assign_fresh_serial ns = (f, ns')" "f \<noteq> 0"
    and c: "c = derived_cap (m src) nr f \<or> c_typ (m src) = CAP_ENDPOINT \<and> c = token_cap t (m src) nr f"
    by (elim disjE)
       (auto simp: rust_cap_mint_True_iff rust_cap_grant_into_True_iff
          rust_cap_grant_from_user_True_iff rust_cap_mint_token_True_iff
          rust_cap_reply_mint_True_iff intro: live_endpointI)
  have "live c" "c_typ c = c_typ (m src)" "c_object c = c_object (m src)"
    "mask_le (c_rights c) (c_rights (m src))" "mask_le (c_rights c) nr"
    "c_badge c = c_serial (m src)" "c_serial c = f"
    using c q(3) f(2) by (auto simp: live_def tokened.narrows tokened.asked)
  then show ?thesis using q assign_fresh_serial_ok[OF f] by auto
qed

theorem derivations_never_widen_witness:
  "\<exists>c. live c \<and> mask_le (c_rights c) 0x13 \<and> c_badge c = 0xC0DE0005
     \<and> sample_mem(Slot (TaskC 2) 9 := c)
       = fst (snd (rust_cap_grant_into sample_mem (Some (Slot (TaskC 1) 5)) (Some (TaskC 2))
                     256 9 0xFF (Some 0x100000001)))"
proof -
  obtain m' ns' where r: "rust_cap_grant_into sample_mem (Some (Slot (TaskC 1) 5)) (Some (TaskC 2))
      256 9 0xFF (Some 0x100000001) = (True, m', ns')"
    by (simp add: rust_cap_grant_into_def assign_fresh_serial_def checked_add64_def sample_mem_def Let_def)
  show ?thesis
    using derivations_never_widen[OF disjI2[OF disjI1[OF r]]] r
    by (auto simp: sample_mem_def)
qed

text \<open>C31. A token is an identity a client cannot give itself: only a token mint
  and a reply mint set one, both only from a live endpoint capability, the
  former only from one that holds MINT and carries no token itself; the tokened
  capability has exactly the token given, which is not zero, and never the
  right to receive on the endpoint.\<close>

theorem token_mint_rules:
  assumes "src = Slot r s \<and> rust_cap_mint_token m (Some r) sz d s nr t ns = (True, m', ns')
             \<and> mint
         \<or> rust_cap_reply_mint m (Some src) (Some r) sz d nr t ns = (True, m', ns') \<and> \<not> mint"
  shows "c_typ (m src) = CAP_ENDPOINT \<and> live (m src) \<and> t \<noteq> 0
       \<and> c_token (m' (Slot r d)) = t \<and> c_rights (m' (Slot r d)) AND CAP_RIGHT_READ = 0
       \<and> (if mint then c_token (m src) = 0 \<and> c_rights (m src) AND CAP_RIGHT_MINT \<noteq> 0
          else c_typ (m (Slot r d)) = CAP_NULL)"
  using assms
  by (elim disjE)
     (auto simp: rust_cap_mint_token_True_iff rust_cap_reply_mint_True_iff intro: live_endpointI)

theorem token_mint_rules_witness:
  "\<exists>m' ns'. rust_cap_mint_token sample_mem (Some (TaskC 1)) 256 9 5 0xFF 42 (Some 0)
       = (True, m', ns')
     \<and> c_token (m' (Slot (TaskC 1) 9)) = 42 \<and> c_rights (m' (Slot (TaskC 1) 9)) AND CAP_RIGHT_READ = 0"
proof -
  obtain m' ns' where r: "rust_cap_mint_token sample_mem (Some (TaskC 1)) 256 9 5 0xFF 42 (Some 0)
       = (True, m', ns')"
    by (simp add: rust_cap_mint_token_def assign_fresh_serial_def checked_add64_def sample_mem_def
        Let_def)
  show ?thesis
    using token_mint_rules[where mint = True, OF disjI1[OF conjI[OF refl conjI[OF r TrueI]]]] r
    by auto
qed

text \<open>A pipe end is never copied by an operation ring 3 can ask for: mint,
  transfer, token mint and grant all refuse a slot that holds one and leave
  every capability and the serial counter as they were.\<close>

theorem pipe_ends_not_copied:
  assumes "c_typ (m (Slot r s)) = CAP_PIPE"
  shows "rust_cap_mint m (Some r) sz d s nr ns = (False, m, ns)
       \<and> rust_cap_transfer m (Some r) sz d s ns = (False, m, ns)
       \<and> rust_cap_mint_token m (Some r) sz d s nr t ns = (False, m, ns)
       \<and> rust_cap_grant_from_user m (Some (Slot r s)) cs dsz d nr ns = (False, m, ns)"
  using assms
  by (auto simp: rust_cap_mint_def rust_cap_transfer_def rust_cap_mint_token_def
      rust_cap_grant_from_user_def copyable_from_ring3_def Let_def)

theorem pipe_ends_not_copied_witness:
  "c_typ (sample_mem (Slot (TaskC 1) 6)) = CAP_PIPE
   \<and> rust_cap_mint sample_mem (Some (TaskC 1)) 256 9 6 0xFF (Some 0) = (False, sample_mem, Some 0)"
  using pipe_ends_not_copied[of sample_mem "TaskC 1" 6 256 9 "0xFF" "Some 0"]
  by (simp add: sample_mem_def)

end
