(* ===== verification/Cap_Revoke.thy ===== *)
theory Cap_Revoke
  imports Cap_Core
begin

text \<open>
  Revocation, from \<^verbatim>\<open>rust/src/capability.rs\<close>: the sweep that marks and
  removes a capability with everything derived from it, in one space
  (\<open>rust_cap_revoke\<close>) or in all of them (\<open>rust_cap_revoke_global\<close>), and the tally
  of pipe ends it removes.  The marking loop of \<open>revoke_subtree\<close> is a recursion
  whose termination is proved: every round that makes progress promotes at least
  one slot to DONE and none ever leaves it.

  The main results: the sweep empties exactly the target and its descendants,
  at any depth and in every space it is given, and nothing else; it keeps the
  lineage invariant; and the tally counts every pipe end it removed once.

  A null \<open>spaces\<close> pointer is the empty list (both do nothing); the counter behind
  \<open>caps_in_use\<close> is named by the task it belongs to.
\<close>

section \<open>Descriptors, counters and the pipe tally\<close>

record cspace_desc =
  d_caps :: "cref option"
  d_size :: nat
  d_inuse :: "nat option"

abbreviation (input) PIPE_TALLY_CELLS :: nat where "PIPE_TALLY_CELLS \<equiv> 3"
abbreviation (input) PIPE_TALLY_GEN_MIXED :: u32 where "PIPE_TALLY_GEN_MIXED \<equiv> 0xFFFFFFFF"

type_synonym pipe_tally = "u32 list option"

definition pipe_obj_idx :: "u64 \<Rightarrow> nat" where
  "pipe_obj_idx obj = unat (obj AND 0xFFFFFFFF)"

definition pipe_obj_gen :: "u64 \<Rightarrow> u32" where
  "pipe_obj_gen obj = ucast (drop_bit 32 obj)"

definition tally_writer :: "capability \<Rightarrow> nat" where
  "tally_writer c = (if c_rights c AND CAP_RIGHT_WRITE \<noteq> 0 then 1 else 0)"

definition tally_note :: "pipe_tally \<Rightarrow> capability \<Rightarrow> pipe_tally" where
  "tally_note t c =
    (if c_typ c \<noteq> CAP_PIPE then t
     else case t of
       None \<Rightarrow> None
     | Some cells \<Rightarrow>
         let pipes = length cells div PIPE_TALLY_CELLS;
             index = pipe_obj_idx (c_object c);
             generation = pipe_obj_gen (c_object c)
         in if index \<ge> pipes then t
            else let base = index * PIPE_TALLY_CELLS;
                     w = base + tally_writer c;
                     cells1 = cells[w := saturating_add32 (cells ! w) 1];
                     seen = cells1 ! (base + 2)
                 in Some (if seen = 0 then cells1[base + 2 := generation]
                          else if seen \<noteq> generation then cells1[base + 2 := PIPE_TALLY_GEN_MIXED]
                          else cells1))"

definition desc_limit :: "cspace_desc \<Rightarrow> nat" where
  "desc_limit d = (if d_size d > CNODE_SIZE then CNODE_SIZE else d_size d)"

text \<open>The slots of a descriptor, and of all of them, in the order the nested
  loops visit them; in the second form with the counter each belongs to.\<close>

definition desc_slots :: "cspace_desc \<Rightarrow> caddr list" where
  "desc_slots d = (case d_caps d of None \<Rightarrow> [] | Some r \<Rightarrow> map (Slot r) [0..<desc_limit d])"

definition space_slots :: "cspace_desc list \<Rightarrow> caddr list" where
  "space_slots spaces = concat (map desc_slots spaces)"

definition space_slot_refs :: "cspace_desc list \<Rightarrow> (caddr \<times> nat option) list" where
  "space_slot_refs spaces = concat (map (\<lambda>d. map (\<lambda>a. (a, d_inuse d)) (desc_slots d)) spaces)"

section \<open>Marking\<close>

type_synonym mark_state = "capmem \<times> pipe_tally"

definition is_marked :: "capability \<Rightarrow> bool" where
  "is_marked c \<longleftrightarrow> c_typ c = CAP_MARK_NEW \<or> c_typ c = CAP_MARK_DONE"

definition mark_slot :: "u64 \<Rightarrow> caddr \<Rightarrow> mark_state \<Rightarrow> mark_state" where
  "mark_slot parent_serial a st =
    (let (m, t) = st; c = m a in
     if c_typ c = CAP_NULL \<or> c_typ c = CAP_MARK_NEW \<or> c_typ c = CAP_MARK_DONE then st
     else if c_serial c = 0 \<or> c_badge c = 0 then st
     else if c_badge c = parent_serial
       then (m(a := c\<lparr> c_typ := CAP_MARK_NEW \<rparr>), tally_note t c)
     else st)"

definition mark_children_of :: "cspace_desc list \<Rightarrow> u64 \<Rightarrow> mark_state \<Rightarrow> mark_state" where
  "mark_children_of spaces parent_serial st =
    (if parent_serial = 0 then st
     else fold (mark_slot parent_serial) (space_slots spaces) st)"

text \<open>One slot of the expansion loop, and one round of it.\<close>

definition expand_slot :: "cspace_desc list \<Rightarrow> caddr \<Rightarrow> bool \<times> mark_state \<Rightarrow> bool \<times> mark_state" where
  "expand_slot spaces a pst =
    (let (progress, m, t) = pst; c = m a in
     if c_typ c \<noteq> CAP_MARK_NEW then pst
     else let st = (m(a := c\<lparr> c_typ := CAP_MARK_DONE \<rparr>), t) in
       (True, if c_serial c \<noteq> 0 then mark_children_of spaces (c_serial c) st else st))"

definition expand_round :: "cspace_desc list \<Rightarrow> mark_state \<Rightarrow> bool \<times> mark_state" where
  "expand_round spaces st = fold (expand_slot spaces) (space_slots spaces) (False, st)"

definition undone :: "cspace_desc list \<Rightarrow> capmem \<Rightarrow> caddr set" where
  "undone spaces m = {a \<in> set (space_slots spaces). c_typ (m a) \<noteq> CAP_MARK_DONE}"

lemma finite_undone [simp]: "finite (undone spaces m)"
  by (simp add: undone_def)

text \<open>Marking never takes a slot out of the state DONE.\<close>

lemma mark_slot_other: "b \<noteq> a \<Longrightarrow> fst (mark_slot p a st) b = fst st b"
  by (cases st) (simp add: mark_slot_def Let_def)

lemma mark_slot_done:
  "c_typ (fst st b) = CAP_MARK_DONE \<Longrightarrow> fst (mark_slot p a st) b = fst st b"
  by (cases "b = a"; cases st) (auto simp: mark_slot_def Let_def)

lemma mark_children_done:
  assumes "c_typ (fst st b) = CAP_MARK_DONE"
  shows "fst (mark_children_of spaces p st) b = fst st b"
proof -
  have "fst (fold (mark_slot p) xs st) b = fst st b" for xs
    using assms by (induction xs arbitrary: st) (auto simp: mark_slot_done)
  then show ?thesis by (simp add: mark_children_of_def)
qed

lemma expand_slot_done:
  assumes "expand_slot spaces a (q, m, t) = (q', m', t')" "c_typ (m b) = CAP_MARK_DONE"
  shows "c_typ (m' b) = CAP_MARK_DONE"
proof (cases "c_typ (m a) = CAP_MARK_NEW")
  case True
  let ?st = "(m(a := (m a)\<lparr> c_typ := CAP_MARK_DONE \<rparr>), t)"
  have b: "c_typ (fst ?st b) = CAP_MARK_DONE" using assms(2) by simp
  have "m' = fst (if c_serial (m a) \<noteq> 0 then mark_children_of spaces (c_serial (m a)) ?st else ?st)"
    using assms(1) True by (auto simp: expand_slot_def Let_def split: if_splits)
  then show ?thesis using b mark_children_done[OF b] by (simp split: if_splits)
qed (use assms in \<open>auto simp: expand_slot_def\<close>)

lemma expand_slot_progress:
  assumes "expand_slot spaces a (q, m, t) = (q', m', t')"
  shows "q' \<longleftrightarrow> q \<or> c_typ (m a) = CAP_MARK_NEW"
    and "c_typ (m a) = CAP_MARK_NEW \<Longrightarrow> c_typ (m' a) = CAP_MARK_DONE"
    and "c_typ (m a) \<noteq> CAP_MARK_NEW \<Longrightarrow> m' = m"
proof -
  let ?st = "(m(a := (m a)\<lparr> c_typ := CAP_MARK_DONE \<rparr>), t)"
  show "q' \<longleftrightarrow> q \<or> c_typ (m a) = CAP_MARK_NEW" "c_typ (m a) \<noteq> CAP_MARK_NEW \<Longrightarrow> m' = m"
    using assms by (auto simp: expand_slot_def Let_def split: if_splits)
  assume new: "c_typ (m a) = CAP_MARK_NEW"
  have "m' = fst (if c_serial (m a) \<noteq> 0 then mark_children_of spaces (c_serial (m a)) ?st else ?st)"
    using assms new by (auto simp: expand_slot_def Let_def split: if_splits)
  then show "c_typ (m' a) = CAP_MARK_DONE"
    using mark_children_done[of ?st a] by (simp split: if_splits)
qed

lemma expand_fold_undone:
  assumes "fold (expand_slot spaces) xs (q, m, t) = (q', m', t')" "set xs \<subseteq> set (space_slots spaces)"
  shows "undone spaces m' \<subseteq> undone spaces m \<and>
         (q' \<longrightarrow> \<not> q \<longrightarrow> undone spaces m' \<noteq> undone spaces m)"
  using assms
proof (induction xs arbitrary: q m t)
  case (Cons a xs)
  obtain q1 m1 t1 where e: "expand_slot spaces a (q, m, t) = (q1, m1, t1)"
    by (metis prod_cases3)
  have IH: "undone spaces m' \<subseteq> undone spaces m1"
    "q' \<longrightarrow> \<not> q1 \<longrightarrow> undone spaces m' \<noteq> undone spaces m1"
    using Cons.IH[of q1 m1 t1] Cons.prems e by auto
  have sub: "undone spaces m1 \<subseteq> undone spaces m"
    using expand_slot_done[OF e] by (auto simp: undone_def)
  show ?case
  proof (cases "c_typ (m a) = CAP_MARK_NEW")
    case True
    then have "a \<in> undone spaces m" "a \<notin> undone spaces m1"
      using expand_slot_progress(2)[OF e] Cons.prems(2) by (auto simp: undone_def)
    then show ?thesis using IH sub by blast
  next
    case False
    then show ?thesis using IH sub expand_slot_progress(1,3)[OF e] by auto
  qed
qed auto

lemma expand_round_less:
  assumes "expand_round spaces st = (True, st')"
  shows "card (undone spaces (fst st')) < card (undone spaces (fst st))"
  using expand_fold_undone[of spaces "space_slots spaces" False "fst st" "snd st" True "fst st'" "snd st'"]
    assms by (intro psubset_card_mono) (auto simp: expand_round_def)

text \<open>The marking loop of \<open>revoke_subtree\<close>.\<close>

function expand_loop :: "cspace_desc list \<Rightarrow> mark_state \<Rightarrow> mark_state" where
  "expand_loop spaces st =
    (case expand_round spaces st of
       (True, st') \<Rightarrow> expand_loop spaces st'
     | (False, st') \<Rightarrow> st')"
  by pat_completeness auto
termination
  by (relation "measure (\<lambda>(spaces, st). card (undone spaces (fst st)))")
     (auto dest!: expand_round_less[OF sym])

declare expand_loop.simps [simp del]

section \<open>Sweeping\<close>

record rev_state =
  rv_mem :: capmem
  rv_inuse :: "nat \<Rightarrow> nat"
  rv_tally :: pipe_tally

definition dec_inuse :: "nat option \<Rightarrow> (nat \<Rightarrow> nat) \<Rightarrow> nat \<Rightarrow> nat" where
  "dec_inuse ref n = (case ref of None \<Rightarrow> n
     | Some t \<Rightarrow> if n t > 0 then n(t := n t - 1) else n)"

definition sweep_hit :: "u64 \<Rightarrow> u64 \<Rightarrow> capability \<Rightarrow> bool" where
  "sweep_hit root_serial root_object c \<longleftrightarrow>
     is_marked c \<or> (root_serial \<noteq> 0 \<and> c_serial c = root_serial)
     \<or> (root_serial = 0 \<and> root_object \<noteq> 0 \<and> c_object c = root_object)"

definition sweep_slot :: "u64 \<Rightarrow> u64 \<Rightarrow> caddr \<times> nat option \<Rightarrow> rev_state \<Rightarrow> rev_state" where
  "sweep_slot root_serial root_object x st =
    (let c = rv_mem st (fst x) in
     if c_typ c = CAP_NULL then st
     else if sweep_hit root_serial root_object c
       then \<lparr> rv_mem = (rv_mem st)(fst x := null_cap),
              rv_inuse = dec_inuse (snd x) (rv_inuse st),
              rv_tally = tally_note (rv_tally st) c \<rparr>
     else st)"

definition revoke_subtree :: "cspace_desc list \<Rightarrow> u64 \<Rightarrow> u64 \<Rightarrow> rev_state \<Rightarrow> rev_state" where
  "revoke_subtree spaces root_serial root_object st =
    (let (m, t) =
       (if root_serial \<noteq> 0
        then expand_loop spaces (mark_children_of spaces root_serial (rv_mem st, rv_tally st))
        else (rv_mem st, rv_tally st))
     in fold (sweep_slot root_serial root_object) (space_slot_refs spaces)
          (st\<lparr> rv_mem := m, rv_tally := t \<rparr>))"

definition is_primordial_root :: "capmem \<Rightarrow> cref \<Rightarrow> nat \<Rightarrow> bool" where
  "is_primordial_root m r slot \<longleftrightarrow>
     slot < KERNEL_RESERVED_CAPS \<and> serial_is_primordial (c_serial (m (Slot r slot)))"

definition rust_cap_revoke :: "cref option \<Rightarrow> nat \<Rightarrow> nat \<Rightarrow> rev_state \<Rightarrow> bool \<times> rev_state" where
  "rust_cap_revoke cspace cspace_size slot st =
    (case cspace of
       None \<Rightarrow> (False, st)
     | Some r \<Rightarrow>
         if slot \<ge> cspace_size \<or> slot \<ge> CNODE_SIZE then (False, st)
         else if is_primordial_root (rv_mem st) r slot then (False, st)
         else let target = rv_mem st (Slot r slot) in
           if c_typ target = CAP_NULL then (True, st)
           else let st1 = st\<lparr> rv_mem := (rv_mem st)(Slot r slot := null_cap),
                              rv_tally := tally_note (rv_tally st) target \<rparr>;
                    desc = \<lparr> d_caps = Some r, d_size = cspace_size, d_inuse = None \<rparr>
                in (True, revoke_subtree [desc] (c_serial target) (c_object target) st1))"

definition rust_cap_revoke_global ::
  "cref option \<Rightarrow> nat \<Rightarrow> nat \<Rightarrow> nat option \<Rightarrow> cspace_desc list \<Rightarrow> rev_state \<Rightarrow> bool \<times> rev_state" where
  "rust_cap_revoke_global target_cspace target_cspace_size target_slot target_caps_in_use spaces st =
    (case target_cspace of
       None \<Rightarrow> (False, st)
     | Some r \<Rightarrow>
         if target_slot \<ge> target_cspace_size \<or> target_slot \<ge> CNODE_SIZE then (False, st)
         else if is_primordial_root (rv_mem st) r target_slot then (False, st)
         else let target = rv_mem st (Slot r target_slot) in
           if c_typ target = CAP_NULL then (True, st)
           else let st1 = \<lparr> rv_mem = (rv_mem st)(Slot r target_slot := null_cap),
                            rv_inuse = dec_inuse target_caps_in_use (rv_inuse st),
                            rv_tally = tally_note (rv_tally st) target \<rparr>
                in (True, revoke_subtree spaces (c_serial target) (c_object target) st1))"

section \<open>What marking computes\<close>

text \<open>The specification: the capabilities derived, at any depth, from the
  capability with serial \<open>root\<close>, among the slots \<open>A\<close>.\<close>

definition child_of :: "capmem \<Rightarrow> u64 \<Rightarrow> caddr \<Rightarrow> bool" where
  "child_of m p a \<longleftrightarrow> live (m a) \<and> c_badge (m a) \<noteq> 0 \<and> c_badge (m a) = p"

inductive descends :: "capmem \<Rightarrow> caddr set \<Rightarrow> u64 \<Rightarrow> caddr \<Rightarrow> bool"
  for m :: capmem and A :: "caddr set" and root :: u64 where
  direct: "a \<in> A \<Longrightarrow> child_of m root a \<Longrightarrow> descends m A root a"
| further: "descends m A root b \<Longrightarrow> a \<in> A \<Longrightarrow> child_of m (c_serial (m b)) a \<Longrightarrow> descends m A root a"

lemma descends_live: "descends m A root a \<Longrightarrow> a \<in> A \<and> live (m a)"
  by (induction rule: descends.induct) (auto simp: child_of_def)

text \<open>A marked memory: the original one with some descendants retyped.\<close>

definition marks_ok :: "capmem \<Rightarrow> caddr set \<Rightarrow> u64 \<Rightarrow> capmem \<Rightarrow> bool" where
  "marks_ok m0 A root m \<longleftrightarrow>
    (\<forall>a. m a = m0 a \<or> descends m0 A root a
        \<and> (m a = (m0 a)\<lparr> c_typ := CAP_MARK_NEW \<rparr> \<or> m a = (m0 a)\<lparr> c_typ := CAP_MARK_DONE \<rparr>))"

definition no_marks :: "capmem \<Rightarrow> bool" where
  "no_marks m \<longleftrightarrow> (\<forall>a. \<not> is_marked (m a))"

lemma marks_okD:
  assumes "marks_ok m0 A root m"
  shows "c_serial (m a) = c_serial (m0 a)" "c_badge (m a) = c_badge (m0 a)"
    and "m a = m0 a \<or> is_marked (m a)"
    and "no_marks m0 \<Longrightarrow> is_marked (m a) \<Longrightarrow> descends m0 A root a"
proof -
  have "m a = m0 a \<or> descends m0 A root a
        \<and> (m a = (m0 a)\<lparr> c_typ := CAP_MARK_NEW \<rparr> \<or> m a = (m0 a)\<lparr> c_typ := CAP_MARK_DONE \<rparr>)"
    using assms by (simp add: marks_ok_def)
  then show "c_serial (m a) = c_serial (m0 a)" "c_badge (m a) = c_badge (m0 a)"
    "m a = m0 a \<or> is_marked (m a)"
    "no_marks m0 \<Longrightarrow> is_marked (m a) \<Longrightarrow> descends m0 A root a"
    by (auto simp: is_marked_def no_marks_def)
qed

text \<open>Marking as one update of the whole memory.\<close>

definition mark_mem :: "caddr set \<Rightarrow> u64 \<Rightarrow> capmem \<Rightarrow> capmem" where
  "mark_mem A p m = (\<lambda>a. if a \<in> A \<and> \<not> is_marked (m a) \<and> child_of m p a
                         then (m a)\<lparr> c_typ := CAP_MARK_NEW \<rparr> else m a)"

lemma is_marked_upd [simp]:
  "is_marked (c\<lparr> c_typ := CAP_MARK_NEW \<rparr>)" "is_marked (c\<lparr> c_typ := CAP_MARK_DONE \<rparr>)"
  "\<not> is_marked null_cap"
  by (simp_all add: is_marked_def)

lemma mark_slot_eq:
  "mark_slot p a (m, t) =
    (if \<not> is_marked (m a) \<and> child_of m p a
     then (m(a := (m a)\<lparr> c_typ := CAP_MARK_NEW \<rparr>), tally_note t (m a)) else (m, t))"
  by (auto simp: mark_slot_def is_marked_def child_of_def live_def Let_def)

lemma mark_mem_insert:
  "mark_mem (insert a A) p m = mark_mem A p (fst (mark_slot p a (m, t)))"
  by (rule ext) (auto simp: mark_mem_def mark_slot_eq child_of_def live_def)

lemma mark_mem_empty [simp]: "mark_mem {} p m = m"
  by (simp add: mark_mem_def)

lemma fold_mark_mem: "fst (fold (mark_slot p) xs st) = mark_mem (set xs) p (fst st)"
proof (induction xs arbitrary: st)
  case (Cons a xs)
  then show ?case using mark_mem_insert[of a "set xs" p "fst st" "snd st"] by simp
qed simp

lemma mark_children_mem:
  "fst (mark_children_of spaces p st) = mark_mem (set (space_slots spaces)) p (fst st)"
  by (auto simp: mark_children_of_def fold_mark_mem mark_mem_def child_of_def)

lemma expand_slot_mem:
  "fst (snd (expand_slot spaces a (q, m, t))) =
    (if c_typ (m a) = CAP_MARK_NEW
     then mark_mem (set (space_slots spaces)) (c_serial (m a)) (m(a := (m a)\<lparr> c_typ := CAP_MARK_DONE \<rparr>))
     else m)"
  by (auto simp: expand_slot_def Let_def mark_children_mem)
     (auto simp: mark_mem_def child_of_def)

lemma mark_mem_marked: "is_marked (m a) \<Longrightarrow> mark_mem A p m a = m a"
  by (simp add: mark_mem_def)

lemma mark_mem_mono: "is_marked (m a) \<Longrightarrow> is_marked (mark_mem A p m a)"
  by (simp add: mark_mem_def)

lemma marks_ok_mark_mem:
  assumes ok: "marks_ok m0 A root m"
    and p: "\<And>a. a \<in> A \<Longrightarrow> child_of m0 p a \<Longrightarrow> descends m0 A root a"
  shows "marks_ok m0 A root (mark_mem A p m)"
    and "a \<in> A \<Longrightarrow> child_of m0 p a \<Longrightarrow> is_marked (mark_mem A p m a)"
proof -
  have unm: "m a = m0 a" if "\<not> is_marked (m a)" for a
    using marks_okD(3)[OF ok, of a] that by simp
  show "marks_ok m0 A root (mark_mem A p m)"
    unfolding marks_ok_def
  proof
    fix a
    show "mark_mem A p m a = m0 a \<or> descends m0 A root a \<and>
        (mark_mem A p m a = (m0 a)\<lparr> c_typ := CAP_MARK_NEW \<rparr>
         \<or> mark_mem A p m a = (m0 a)\<lparr> c_typ := CAP_MARK_DONE \<rparr>)"
    proof (cases "a \<in> A \<and> \<not> is_marked (m a) \<and> child_of m p a")
      case True
      then have "child_of m0 p a" using unm[of a] by (auto simp: child_of_def)
      then show ?thesis using True p[of a] unm[of a] by (simp add: mark_mem_def)
    next
      case False
      then have "mark_mem A p m a = m a" by (auto simp: mark_mem_def)
      then show ?thesis using ok by (simp add: marks_ok_def)
    qed
  qed
  assume a: "a \<in> A" "child_of m0 p a"
  show "is_marked (mark_mem A p m a)"
  proof (cases "is_marked (m a)")
    case False
    then have "child_of m p a" using a(2) unm[of a] by (auto simp: child_of_def)
    then show ?thesis using a(1) False by (simp add: mark_mem_def)
  qed (rule mark_mem_mono)
qed

section \<open>The marking loop marks exactly the descendants\<close>

definition expand_inv :: "capmem \<Rightarrow> caddr set \<Rightarrow> u64 \<Rightarrow> capmem \<Rightarrow> bool" where
  "expand_inv m0 A root m \<longleftrightarrow> marks_ok m0 A root m
     \<and> (\<forall>a\<in>A. child_of m0 root a \<longrightarrow> is_marked (m a))
     \<and> (\<forall>b. c_typ (m b) = CAP_MARK_DONE \<longrightarrow>
          (\<forall>a\<in>A. child_of m0 (c_serial (m0 b)) a \<longrightarrow> is_marked (m a)))"

lemma expand_inv_slot:
  assumes inv: "expand_inv m0 A root m" and nm: "no_marks m0" and A: "A = set (space_slots spaces)"
  shows "expand_inv m0 A root (fst (snd (expand_slot spaces a (q, m, t))))"
proof (cases "c_typ (m a) = CAP_MARK_NEW")
  case True
  let ?m1 = "m(a := (m a)\<lparr> c_typ := CAP_MARK_DONE \<rparr>)"
  let ?m2 = "mark_mem A (c_serial (m a)) ?m1"
  have ok: "marks_ok m0 A root m" using inv by (simp add: expand_inv_def)
  have d: "descends m0 A root a"
    using marks_okD(4)[OF ok nm, of a] True by (simp add: is_marked_def)
  have ser: "c_serial (m a) = c_serial (m0 a)" using marks_okD(1)[OF ok] by simp
  have "m a = m0 a \<or> m a = (m0 a)\<lparr> c_typ := CAP_MARK_NEW \<rparr> \<or> m a = (m0 a)\<lparr> c_typ := CAP_MARK_DONE \<rparr>"
    using ok by (auto simp: marks_ok_def)
  then have ok1: "marks_ok m0 A root ?m1" using ok d by (auto simp: marks_ok_def)
  have kids: "\<And>b. b \<in> A \<Longrightarrow> child_of m0 (c_serial (m a)) b \<Longrightarrow> descends m0 A root b"
    using d descends.further ser by simp
  have M1: "marks_ok m0 A root ?m2" by (rule marks_ok_mark_mem(1)[OF ok1]) (rule kids)
  have M2: "is_marked (?m2 b)" if "b \<in> A" "child_of m0 (c_serial (m a)) b" for b
    by (rule marks_ok_mark_mem(2)[OF ok1 kids that])
  have mono: "is_marked (m b) \<Longrightarrow> is_marked (?m2 b)" for b
    by (rule mark_mem_mono) simp
  have dn: "c_typ (?m2 b) = CAP_MARK_DONE \<Longrightarrow> b = a \<or> c_typ (m b) = CAP_MARK_DONE" for b
    by (auto simp: mark_mem_def split: if_splits)
  have "expand_inv m0 A root ?m2"
    unfolding expand_inv_def
  proof (intro conjI ballI allI impI)
    show "marks_ok m0 A root ?m2" by (rule M1)
    fix b assume b: "b \<in> A"
    show "is_marked (?m2 b)" if "child_of m0 root b"
      using inv b that mono by (simp add: expand_inv_def)
    fix c assume c: "c_typ (?m2 c) = CAP_MARK_DONE" "child_of m0 (c_serial (m0 c)) b"
    from dn[OF c(1)] show "is_marked (?m2 b)"
    proof
      assume "c = a"
      then show ?thesis using c(2) M2[OF b] ser by simp
    next
      assume "c_typ (m c) = CAP_MARK_DONE"
      then have "is_marked (m b)" using inv b c(2) unfolding expand_inv_def by blast
      then show ?thesis by (rule mono)
    qed
  qed
  then show ?thesis using True A by (simp add: expand_slot_mem)
qed (use inv in \<open>simp add: expand_slot_mem\<close>)

lemma expand_inv_fold:
  assumes "expand_inv m0 A root m" "no_marks m0" "A = set (space_slots spaces)"
  shows "expand_inv m0 A root (fst (snd (fold (expand_slot spaces) xs (q, m, t))))"
  using assms(1)
proof (induction xs arbitrary: q m t)
  case (Cons a xs)
  obtain q1 m1 t1 where e: "expand_slot spaces a (q, m, t) = (q1, m1, t1)"
    by (metis prod_cases3)
  then show ?case
    using Cons.IH expand_inv_slot[OF Cons.prems assms(2,3), of a q t] by simp
qed simp

lemma expand_fold_False:
  assumes "fold (expand_slot spaces) xs (q, m, t) = (False, m', t')"
  shows "m' = m \<and> t' = t \<and> (\<forall>a\<in>set xs. c_typ (m a) \<noteq> CAP_MARK_NEW)"
  using assms
proof (induction xs arbitrary: q m t)
  case (Cons a xs)
  obtain q1 m1 t1 where e: "expand_slot spaces a (q, m, t) = (q1, m1, t1)"
    by (metis prod_cases3)
  have IH: "m' = m1 \<and> t' = t1 \<and> (\<forall>a\<in>set xs. c_typ (m1 a) \<noteq> CAP_MARK_NEW)"
    using Cons e by simp
  have stay: "q1 \<Longrightarrow> fst (fold (expand_slot spaces) ys (q1, st))" for ys st
  proof (induction ys arbitrary: q1 st)
    case (Cons b ys)
    obtain q2 st2 where e2: "expand_slot spaces b (q1, st) = (q2, st2)" by (metis surj_pair)
    then have "q2" using Cons.prems expand_slot_progress(1)[of spaces b q1 "fst st" "snd st" q2 "fst st2" "snd st2"]
      by simp
    then show ?case using Cons.IH e2 by simp
  qed simp
  have "\<not> q1" using stay[of xs "(m1, t1)"] Cons.prems e by auto
  then have "c_typ (m a) \<noteq> CAP_MARK_NEW" using expand_slot_progress(1)[OF e] by simp
  then show ?case using IH e by (auto simp: expand_slot_def)
qed simp

lemma expand_loop_inv:
  assumes nm: "no_marks m0"
  shows "expand_inv m0 (set (space_slots spaces)) root (fst st) \<Longrightarrow>
    expand_inv m0 (set (space_slots spaces)) root (fst (expand_loop spaces st))
    \<and> (\<forall>a\<in>set (space_slots spaces). c_typ (fst (expand_loop spaces st) a) \<noteq> CAP_MARK_NEW)"
proof (induction spaces st rule: expand_loop.induct)
  case (1 spaces st)
  obtain m t where st: "st = (m, t)" by (metis surj_pair)
  obtain q m' t' where r: "expand_round spaces st = (q, m', t')" by (metis prod_cases3)
  have f: "fold (expand_slot spaces) (space_slots spaces) (False, m, t) = (q, m', t')"
    using r st by (simp add: expand_round_def)
  have inv': "expand_inv m0 (set (space_slots spaces)) root m'"
    using expand_inv_fold[OF _ nm refl, of spaces root m "space_slots spaces" False t] 1(2) st f
    by simp
  show ?case
  proof (cases q)
    case True
    then show ?thesis using 1(1)[OF r[symmetric]] r inv' by (simp add: expand_loop.simps[of spaces st])
  next
    case False
    then show ?thesis using r inv' expand_fold_False[of spaces "space_slots spaces" False m t m' t'] f
      by (simp add: expand_loop.simps[of spaces st])
  qed
qed

text \<open>When the loop ends, exactly the descendants of the root are marked.\<close>

lemma expand_loop_marks:
  fixes root :: u64 and t :: pipe_tally and a :: caddr
  assumes nm: "no_marks m0" and A: "A = set (space_slots spaces)"
  defines "m \<equiv> fst (expand_loop spaces (mark_children_of spaces root (m0, t)))"
  shows "marks_ok m0 A root m" "is_marked (m a) \<longleftrightarrow> descends m0 A root a"
proof -
  let ?m1 = "fst (mark_children_of spaces root (m0, t))"
  have m1: "?m1 = mark_mem A root m0" using A by (simp add: mark_children_mem)
  have "marks_ok m0 A root m0" by (simp add: marks_ok_def)
  from marks_ok_mark_mem[OF this descends.direct]
  have "expand_inv m0 A root ?m1"
    using nm unfolding m1 expand_inv_def
    by (auto simp: mark_mem_def no_marks_def is_marked_def)
  from expand_loop_inv[OF nm this[unfolded A]]
  have inv: "expand_inv m0 A root m" and nonew: "\<forall>a\<in>A. c_typ (m a) \<noteq> CAP_MARK_NEW"
    by (simp_all add: m_def A)
  then show ok: "marks_ok m0 A root m" by (simp add: expand_inv_def)
  show "is_marked (m a) \<longleftrightarrow> descends m0 A root a"
  proof
    assume "descends m0 A root a"
    then show "is_marked (m a)"
    proof (induction rule: descends.induct)
      case (direct a)
      then show ?case using inv by (simp add: expand_inv_def)
    next
      case (further b a)
      have "c_typ (m b) = CAP_MARK_DONE"
        using further descends_live[OF further(1)] nonew by (auto simp: is_marked_def)
      then show ?case using inv further unfolding expand_inv_def by blast
    qed
  qed (rule marks_okD(4)[OF ok nm])
qed

section \<open>What the sweep removes\<close>

lemma space_slot_refs_fst: "map fst (space_slot_refs spaces) = space_slots spaces"
  by (induction spaces) (simp_all add: space_slot_refs_def space_slots_def comp_def)

lemma set_space_slot_refs: "fst ` set (space_slot_refs spaces) = set (space_slots spaces)"
  by (metis list.set_map space_slot_refs_fst)

definition swept :: "u64 \<Rightarrow> u64 \<Rightarrow> capability \<Rightarrow> bool" where
  "swept rs ro c \<longleftrightarrow> c_typ c \<noteq> CAP_NULL \<and> sweep_hit rs ro c"

lemma swept_null [simp]: "\<not> swept rs ro null_cap"
  by (simp add: swept_def)

lemma sweep_slot_eq:
  "sweep_slot rs ro x st =
    (if swept rs ro (rv_mem st (fst x))
     then \<lparr> rv_mem = (rv_mem st)(fst x := null_cap), rv_inuse = dec_inuse (snd x) (rv_inuse st),
            rv_tally = tally_note (rv_tally st) (rv_mem st (fst x)) \<rparr>
     else st)"
  by (simp add: sweep_slot_def swept_def Let_def)

lemma sweep_mem:
  "rv_mem (fold (sweep_slot rs ro) xs st) a =
    (if a \<in> fst ` set xs \<and> swept rs ro (rv_mem st a) then null_cap else rv_mem st a)"
  by (induction xs arbitrary: st) (auto simp: sweep_slot_eq)

lemma dec_inuse_eq: "dec_inuse ref n t = (if ref = Some t then n t - 1 else n t)"
  by (auto simp: dec_inuse_def split: option.splits)

lemma sweep_inuse:
  assumes "distinct (map fst xs)"
  shows "rv_inuse (fold (sweep_slot rs ro) xs st) t =
    rv_inuse st t - length (filter (\<lambda>x. snd x = Some t \<and> swept rs ro (rv_mem st (fst x))) xs)"
  using assms
proof (induction xs arbitrary: st)
  case (Cons x xs)
  have "filter (\<lambda>y. snd y = Some t \<and> swept rs ro (rv_mem (sweep_slot rs ro x st) (fst y))) xs
      = filter (\<lambda>y. snd y = Some t \<and> swept rs ro (rv_mem st (fst y))) xs"
    using Cons.prems by (intro filter_cong) (auto simp: sweep_slot_eq image_iff)
  then show ?case using Cons by (auto simp: sweep_slot_eq dec_inuse_eq)
qed simp

section \<open>The tally counts what is removed, once each\<close>

definition noted :: "pipe_tally \<Rightarrow> capability list \<Rightarrow> pipe_tally" where
  "noted t cs = fold (\<lambda>c t. tally_note t c) cs t"

lemma noted_simps [simp]:
  "noted t [] = t" "noted t (c # cs) = noted (tally_note t c) cs"
  "noted t (cs @ ds) = noted (noted t cs) ds"
  by (simp_all add: noted_def)

lemma tally_note_other [simp]: "c_typ c \<noteq> CAP_PIPE \<Longrightarrow> tally_note t c = t"
  by (simp add: tally_note_def)

lemma tally_note_marked: "is_marked c \<Longrightarrow> tally_note t c = t"
  by (rule tally_note_other) (auto simp: is_marked_def)

definition mark_tally_inv :: "capmem \<Rightarrow> pipe_tally \<Rightarrow> mark_state \<Rightarrow> bool" where
  "mark_tally_inv m0 t0 st \<longleftrightarrow> (\<forall>a. \<not> is_marked (fst st a) \<longrightarrow> fst st a = m0 a) \<and>
    (\<exists>xs. distinct xs \<and> set xs = {a. is_marked (fst st a)} \<and> snd st = noted t0 (map m0 xs))"

lemma mark_tally_inv_slot:
  assumes "mark_tally_inv m0 t0 st"
  shows "mark_tally_inv m0 t0 (mark_slot p a st)"
proof -
  obtain m t where st: "st = (m, t)" by (metis surj_pair)
  show ?thesis
  proof (cases "\<not> is_marked (m a) \<and> child_of m p a")
    case True
    obtain xs where xs: "distinct xs" "set xs = {a. is_marked (m a)}" "t = noted t0 (map m0 xs)"
      using assms st by (auto simp: mark_tally_inv_def)
    have "m a = m0 a" using assms st True by (auto simp: mark_tally_inv_def)
    then show ?thesis
      using True assms xs st unfolding mark_tally_inv_def mark_slot_eq
      by (auto simp: mark_slot_eq intro!: exI[of _ "xs @ [a]"])
  qed (use assms st in \<open>auto simp: mark_slot_eq\<close>)
qed

lemma mark_tally_inv_children:
  "mark_tally_inv m0 t0 st \<Longrightarrow> mark_tally_inv m0 t0 (mark_children_of spaces p st)"
  unfolding mark_children_of_def
  by (auto intro!: fold_inv[where I = "mark_tally_inv m0 t0"] mark_tally_inv_slot)

lemma mark_tally_inv_expand_slot:
  assumes "mark_tally_inv m0 t0 (snd pst)"
  shows "mark_tally_inv m0 t0 (snd (expand_slot spaces a pst))"
proof -
  obtain q m t where pst: "pst = (q, m, t)" by (metis prod_cases3)
  show ?thesis
  proof (cases "c_typ (m a) = CAP_MARK_NEW")
    case True
    have "{b. is_marked ((m(a := (m a)\<lparr> c_typ := CAP_MARK_DONE \<rparr>)) b)} = {b. is_marked (m b)}"
      using True by (auto simp: is_marked_def)
    then have "mark_tally_inv m0 t0 (m(a := (m a)\<lparr> c_typ := CAP_MARK_DONE \<rparr>), t)"
      using assms pst unfolding mark_tally_inv_def by (simp split: if_splits)
    then show ?thesis
      using True pst by (auto simp: expand_slot_def Let_def intro: mark_tally_inv_children)
  qed (use assms pst in \<open>auto simp: expand_slot_def\<close>)
qed

lemma mark_tally_inv_loop:
  "mark_tally_inv m0 t0 st \<Longrightarrow> mark_tally_inv m0 t0 (expand_loop spaces st)"
proof (induction spaces st rule: expand_loop.induct)
  case (1 spaces st)
  obtain q st' where r: "expand_round spaces st = (q, st')" by (metis surj_pair)
  have "mark_tally_inv m0 t0 (snd (expand_round spaces st))"
    unfolding expand_round_def
    by (rule fold_inv[where I = "\<lambda>x. mark_tally_inv m0 t0 (snd x)"])
       (use 1(2) mark_tally_inv_expand_slot in auto)
  then show ?case using 1(1)[OF r[symmetric]] r by (cases q) (auto simp: expand_loop.simps[of spaces st])
qed

lemma sweep_tally:
  "\<exists>ys. distinct ys \<and> set ys = {a \<in> fst ` set xs. swept rs ro (rv_mem st a)}
     \<and> rv_tally (fold (sweep_slot rs ro) xs st) = noted (rv_tally st) (map (rv_mem st) ys)"
proof (induction xs arbitrary: st)
  case (Cons x xs)
  obtain ys where ys: "distinct ys"
    "set ys = {a \<in> fst ` set xs. swept rs ro (rv_mem (sweep_slot rs ro x st) a)}"
    "rv_tally (fold (sweep_slot rs ro) xs (sweep_slot rs ro x st)) =
       noted (rv_tally (sweep_slot rs ro x st)) (map (rv_mem (sweep_slot rs ro x st)) ys)"
    using Cons.IH by blast
  show ?case
  proof (cases "swept rs ro (rv_mem st (fst x))")
    case True
    have same: "map (rv_mem (sweep_slot rs ro x st)) ys = map (rv_mem st) ys" and "fst x \<notin> set ys"
      using ys(2) True by (auto simp: sweep_slot_eq[of rs ro x st])
    then show ?thesis
      using ys True by (intro exI[of _ "fst x # ys"]) (auto simp: sweep_slot_eq[of rs ro x st])
  next
    case False
    then have "sweep_slot rs ro x st = st" by (simp add: sweep_slot_eq[of rs ro x st])
    then show ?thesis using ys False by auto
  qed
qed simp

lemma noted_unmarked:
  "noted t (map m ys) = noted t (map m (filter (\<lambda>a. \<not> is_marked (m a)) ys))"
  by (induction ys arbitrary: t) (auto simp: tally_note_marked)

lemma noted_map_cong: "(\<And>a. a \<in> set ys \<Longrightarrow> m a = m' a) \<Longrightarrow> noted t (map m ys) = noted t (map m' ys)"
  by (metis map_cong)

section \<open>The sweep is exact\<close>

definition revoked_set :: "capmem \<Rightarrow> caddr set \<Rightarrow> u64 \<Rightarrow> caddr set" where
  "revoked_set m A rs = {a \<in> A. descends m A rs a \<or> c_typ (m a) \<noteq> CAP_NULL \<and> c_serial (m a) = rs}"

lemma revoke_subtree_exact:
  assumes nm: "no_marks (rv_mem st)" and rs: "rs \<noteq> 0" and A: "A = set (space_slots spaces)"
  shows "rv_mem (revoke_subtree spaces rs ro st) a =
           (if a \<in> revoked_set (rv_mem st) A rs then null_cap else rv_mem st a)"
    and "\<exists>ys. distinct ys \<and> set ys = revoked_set (rv_mem st) A rs \<and>
           rv_tally (revoke_subtree spaces rs ro st) = noted (rv_tally st) (map (rv_mem st) ys)"
    and "distinct (space_slots spaces) \<Longrightarrow> rv_inuse (revoke_subtree spaces rs ro st) u = rv_inuse st u
           - length (filter (\<lambda>x. snd x = Some u \<and> fst x \<in> revoked_set (rv_mem st) A rs) (space_slot_refs spaces))"
proof -
  let ?m0 = "rv_mem st"
  obtain m t where e: "expand_loop spaces (mark_children_of spaces rs (?m0, rv_tally st)) = (m, t)"
    by (metis surj_pair)
  let ?st1 = "st\<lparr> rv_mem := m, rv_tally := t \<rparr>"
  have r: "revoke_subtree spaces rs ro st = fold (sweep_slot rs ro) (space_slot_refs spaces) ?st1"
    using rs e by (simp add: revoke_subtree_def)
  note M = expand_loop_marks[OF nm A, of rs "rv_tally st", unfolded e fst_conv]
  have un: "m b = ?m0 b" if "\<not> is_marked (m b)" for b using marks_okD(3)[OF M(1)] that by blast
  have ser: "c_serial (m b) = c_serial (?m0 b)" for b using marks_okD(1)[OF M(1)] .
  have sw: "swept rs ro (m b) \<longleftrightarrow> is_marked (m b) \<or> c_typ (?m0 b) \<noteq> 0 \<and> c_serial (?m0 b) = rs" for b
  proof (cases "is_marked (m b)")
    case True
    then show ?thesis by (auto simp: swept_def sweep_hit_def is_marked_def)
  next
    case False
    then show ?thesis using rs un[OF False] by (simp add: swept_def sweep_hit_def)
  qed
  have R: "revoked_set ?m0 A rs = {b \<in> A. swept rs ro (m b)}"
    using sw M(2) by (auto simp: revoked_set_def)
  have keep: "m b = ?m0 b" if "b \<notin> revoked_set ?m0 A rs" for b
    using that un[of b] M(2)[of b] descends_live[of ?m0 A rs b] unfolding revoked_set_def by blast
  show "rv_mem (revoke_subtree spaces rs ro st) a =
           (if a \<in> revoked_set ?m0 A rs then null_cap else ?m0 a)"
    using R keep[of a] A by (auto simp: r sweep_mem set_space_slot_refs)
  show "rv_inuse (revoke_subtree spaces rs ro st) u = rv_inuse st u
      - length (filter (\<lambda>x. snd x = Some u \<and> fst x \<in> revoked_set ?m0 A rs) (space_slot_refs spaces))" if d: "distinct (space_slots spaces)"
  proof -
    have "filter (\<lambda>x. snd x = Some u \<and> swept rs ro (m (fst x))) (space_slot_refs spaces)
        = filter (\<lambda>x. snd x = Some u \<and> fst x \<in> revoked_set ?m0 A rs) (space_slot_refs spaces)"
      using R A by (intro filter_cong) (auto simp flip: set_space_slot_refs)
    thus ?thesis using sweep_inuse[of "space_slot_refs spaces" rs ro ?st1 u] d by (simp add: r space_slot_refs_fst)
  qed
  have "mark_tally_inv ?m0 (rv_tally st) (?m0, rv_tally st)"
    using nm by (auto simp: mark_tally_inv_def no_marks_def)
  then have "mark_tally_inv ?m0 (rv_tally st) (m, t)"
    using mark_tally_inv_loop[OF mark_tally_inv_children] e by metis
  then obtain xs where xs: "distinct xs" "set xs = {b. is_marked (m b)}"
    "t = noted (rv_tally st) (map ?m0 xs)" by (auto simp: mark_tally_inv_def)
  obtain ys where ys: "distinct ys" "set ys = {b \<in> A. swept rs ro (m b)}"
    "rv_tally (revoke_subtree spaces rs ro st) = noted t (map m ys)"
    using sweep_tally[of "space_slot_refs spaces" rs ro ?st1] A
    by (auto simp: r set_space_slot_refs)
  let ?zs = "filter (\<lambda>b. \<not> is_marked (m b)) ys"
  have "rv_tally (revoke_subtree spaces rs ro st) = noted t (map ?m0 ?zs)"
    using ys(3) noted_unmarked[of t m ys] noted_map_cong[of ?zs m ?m0 t] un by simp
  then have "rv_tally (revoke_subtree spaces rs ro st) = noted (rv_tally st) (map ?m0 (xs @ ?zs))"
    using xs(3) by simp
  moreover have "set (xs @ ?zs) = revoked_set ?m0 A rs"
    using xs(2) ys(2) R sw M(2) descends_live[of ?m0 A rs] by auto
  moreover have "distinct (xs @ ?zs)" using xs ys by auto
  ultimately show "\<exists>ys. distinct ys \<and> set ys = revoked_set ?m0 A rs \<and>
           rv_tally (revoke_subtree spaces rs ro st) = noted (rv_tally st) (map ?m0 ys)"
    by metis
qed

text \<open>Under the lineage invariant the target is no descendant of itself, no
  other slot shares its serial, and emptying it first changes nothing about who
  descends from it.\<close>

lemma descends_greater:
  assumes "lineage_inv m ns" "descends m A rs a" shows "rs < c_serial (m a)"
  using assms(2)
proof (induction rule: descends.induct)
  case (direct a)
  then show ?case using lineage_invD(4)[OF assms(1), of a] by (auto simp: child_of_def)
next
  case (further b a)
  then show ?case using lineage_invD(4)[OF assms(1), of a] by (auto simp: child_of_def)
qed

lemma descends_without_target:
  assumes inv: "lineage_inv m ns" and t: "c_serial (m tgt) = rs"
  shows "descends (m(tgt := null_cap)) A rs a \<longleftrightarrow> descends m A rs a"
proof
  assume "descends (m(tgt := null_cap)) A rs a"
  then show "descends m A rs a"
  proof (induction rule: descends.induct)
    case (direct a)
    then show ?case by (auto simp: child_of_def intro: descends.direct split: if_splits)
  next
    case (further b a)
    have "b \<noteq> tgt" using descends_live[OF further(1)] by auto
    then show ?case using further by (auto simp: child_of_def intro: descends.further split: if_splits)
  qed
next
  have ne: "b \<noteq> tgt" if "descends m A rs b" for b
    using descends_greater[OF inv that] t by auto
  assume "descends m A rs a"
  then show "descends (m(tgt := null_cap)) A rs a"
  proof (induction rule: descends.induct)
    case (direct a)
    then show ?case using ne[OF descends.direct[OF direct]] by (auto simp: child_of_def intro!: descends.direct)
  next
    case (further b a)
    then show ?case using ne[OF further(1)] ne[OF descends.further[OF further(1-3)]]
      by (intro descends.further[OF further(4)]) (auto simp: child_of_def)
  qed
qed

lemma no_marks_lineage: "lineage_inv m ns \<Longrightarrow> no_marks (m(a := null_cap))"
  by (auto simp: no_marks_def is_marked_def dest: lineage_invD(1,2))

text \<open>The target with everything derived from it.\<close>

definition subtree :: "capmem \<Rightarrow> caddr set \<Rightarrow> caddr \<Rightarrow> caddr set" where
  "subtree m A tgt = insert tgt {a. descends m A (c_serial (m tgt)) a}"

lemma subtree_live: "live (m tgt) \<Longrightarrow> a \<in> subtree m A tgt \<Longrightarrow> live (m a)"
  by (auto simp: subtree_def dest: descends_live)

lemma revoked_set_subtree:
  assumes inv: "lineage_inv m ns" and tgt: "live (m tgt)"
  shows "insert tgt (revoked_set (m(tgt := null_cap)) A (c_serial (m tgt))) = subtree m A tgt"
proof -
  have "a = tgt" if "c_typ (m a) \<noteq> CAP_NULL" "c_serial (m a) = c_serial (m tgt)" for a
    using lineage_invD(5)[OF inv, of a tgt] that tgt by (auto simp: live_def)
  then show ?thesis
    using descends_without_target[OF inv refl, of tgt A] descends_live[of m A "c_serial (m tgt)"]
    by (auto simp: revoked_set_def subtree_def split: if_splits)
qed

lemma revoke_global_cases:
  assumes "rust_cap_revoke_global (Some r) sz slot ref spaces st = (True, st')"
    and "c_typ (rv_mem st (Slot r slot)) \<noteq> CAP_NULL"
  shows "st' = revoke_subtree spaces (c_serial (rv_mem st (Slot r slot)))
           (c_object (rv_mem st (Slot r slot)))
           \<lparr> rv_mem = (rv_mem st)(Slot r slot := null_cap), rv_inuse = dec_inuse ref (rv_inuse st),
             rv_tally = tally_note (rv_tally st) (rv_mem st (Slot r slot)) \<rparr>"
  using assms by (auto simp: rust_cap_revoke_global_def Let_def split: if_splits)

lemma revoke_global_spec:
  assumes inv: "lineage_inv (rv_mem st) ns"
    and ok: "rust_cap_revoke_global (Some r) sz slot ref spaces st = (True, st')"
    and tgt: "live (rv_mem st (Slot r slot))"
  defines "R \<equiv> subtree (rv_mem st) (set (space_slots spaces)) (Slot r slot)"
  shows "rv_mem st' a = (if a \<in> R then null_cap else rv_mem st a)"
    and "\<exists>ys. distinct ys \<and> set ys = R \<and> rv_tally st' = noted (rv_tally st) (map (rv_mem st) ys)"
    and "distinct (space_slots spaces) \<Longrightarrow> rv_inuse st' u = rv_inuse st u - (if ref = Some u then 1 else 0)
           - length (filter (\<lambda>x. snd x = Some u \<and> fst x \<in> R \<and> fst x \<noteq> Slot r slot) (space_slot_refs spaces))"
proof -
  let ?t = "Slot r slot" and ?m = "rv_mem st" and ?A = "set (space_slots spaces)"
  let ?st1 = "\<lparr> rv_mem = ?m(?t := null_cap), rv_inuse = dec_inuse ref (rv_inuse st),
             rv_tally = tally_note (rv_tally st) (?m ?t) \<rparr>"
  have ty: "c_typ (?m ?t) \<noteq> CAP_NULL" and rs: "c_serial (?m ?t) \<noteq> 0" using tgt by (simp_all add: live_def)
  note st' = revoke_global_cases[OF ok ty]
  have nm: "no_marks (rv_mem ?st1)" using no_marks_lineage[OF inv] by simp
  note E = revoke_subtree_exact[OF nm rs refl, of spaces]
  note S = revoked_set_subtree[OF inv tgt, of ?A]
  show "rv_mem st' a = (if a \<in> R then null_cap else ?m a)"
    using E(1)[of "c_object (?m ?t)" a] S st' by (auto simp: R_def)
  have "?t \<notin> revoked_set (rv_mem ?st1) ?A (c_serial (?m ?t))"
    using descends_live[of "rv_mem ?st1" ?A "c_serial (?m ?t)" ?t] by (auto simp: revoked_set_def)
  hence R': "revoked_set (rv_mem ?st1) ?A (c_serial (?m ?t)) = R - {?t}" using S unfolding R_def by auto
  show "rv_inuse st' u = rv_inuse st u - (if ref = Some u then 1 else 0)
      - length (filter (\<lambda>x. snd x = Some u \<and> fst x \<in> R \<and> fst x \<noteq> ?t) (space_slot_refs spaces))" if "distinct (space_slots spaces)"
    using E(3)[OF that, of "c_object (?m ?t)" u] unfolding st'[symmetric] R' by (simp add: dec_inuse_eq)
  obtain ys where ys: "distinct ys" "set ys = revoked_set (rv_mem ?st1) ?A (c_serial (?m ?t))"
    "rv_tally st' = noted (rv_tally ?st1) (map (rv_mem ?st1) ys)"
    using E(2)[of "c_object (?m ?t)"] st' by auto
  have nin: "?t \<notin> set ys" using ys(2) descends_live[of "rv_mem ?st1" ?A "c_serial (?m ?t)" ?t]
    by (auto simp: revoked_set_def)
  then have "map (rv_mem ?st1) ys = map ?m ys" by (intro map_cong) auto
  then show "\<exists>ys. distinct ys \<and> set ys = R \<and> rv_tally st' = noted (rv_tally st) (map ?m ys)"
    using ys nin S by (intro exI[of _ "?t # ys"]) (auto simp: R_def)
qed

lemma revoke_global_lineage:
  assumes "lineage_inv (rv_mem st) ns"
    and "rust_cap_revoke_global cs sz slot ref spaces st = (ok, st')"
    and "\<And>r. cs = Some r \<Longrightarrow> c_typ (rv_mem st (Slot r slot)) \<noteq> 0 \<Longrightarrow> c_serial (rv_mem st (Slot r slot)) \<noteq> 0"
  shows "lineage_inv (rv_mem st') ns"
proof (cases "ok \<and> (\<exists>r. cs = Some r \<and> c_typ (rv_mem st (Slot r slot)) \<noteq> 0)")
  case True
  then obtain r where r: "cs = Some r" "live (rv_mem st (Slot r slot))" and ok: ok
    using assms(3) by (auto simp: live_def)
  then have "rv_mem st' a = rv_mem st a \<or> rv_mem st' a = null_cap" for a
    using revoke_global_spec(1)[OF assms(1) _ r(2), of sz ref spaces st'] assms(2) by auto
  then show ?thesis using lineage_inv_nullify[OF assms(1)] by blast
next
  case False
  then have "st' = st" using assms(2)
    by (auto simp: rust_cap_revoke_global_def Let_def split: option.splits if_splits)
  then show ?thesis using assms(1) by simp
qed

section \<open>Counts in the tally\<close>

definition is_pipe_end :: "nat \<Rightarrow> nat \<Rightarrow> capability \<Rightarrow> bool" where
  "is_pipe_end i w c \<longleftrightarrow> c_typ c = CAP_PIPE \<and> pipe_obj_idx (c_object c) = i \<and> tally_writer c = w"

lemma tally_writer_less: "tally_writer c < 2"
  by (simp add: tally_writer_def)

lemma tally_note_Some:
  assumes "i < length cells div 3"
  shows "\<exists>cells'. tally_note (Some cells) c = Some cells' \<and> length cells' = length cells
     \<and> (\<forall>w<2. cells' ! (3 * i + w) = (if is_pipe_end i w c
            then saturating_add32 (cells ! (3 * i + w)) 1 else cells ! (3 * i + w)))
     \<and> cells' ! (3 * i + 2) = (if c_typ c = CAP_PIPE \<and> pipe_obj_idx (c_object c) = i
            then if cells ! (3 * i + 2) = 0 then pipe_obj_gen (c_object c)
                 else if cells ! (3 * i + 2) = pipe_obj_gen (c_object c) then cells ! (3 * i + 2)
                 else PIPE_TALLY_GEN_MIXED
            else cells ! (3 * i + 2))"
proof (cases "c_typ c = CAP_PIPE \<and> pipe_obj_idx (c_object c) < length cells div 3")
  case False
  then have "tally_note (Some cells) c = Some cells" by (auto simp: tally_note_def Let_def)
  moreover have "\<not> (c_typ c = CAP_PIPE \<and> pipe_obj_idx (c_object c) = i)" using False assms by blast
  moreover from this have "\<not> is_pipe_end i w c" for w by (auto simp: is_pipe_end_def)
  ultimately show ?thesis by auto
next
  case True
  define j where "j = pipe_obj_idx (c_object c)"
  have j: "j < length cells div 3" and jl: "3 * j + 2 < length cells"
    using True by (auto simp: j_def)
  have il: "3 * i + 2 < length cells" using assms by auto
  have w: "tally_writer c < 2" by (rule tally_writer_less)
  have ne: "3 * i + v \<noteq> 3 * j + u" if "i \<noteq> j" "u < 3" "v < 3" for u v
    using that by presburger
  show ?thesis
    using True w jl il ne[of 2] ne[of "tally_writer c"]
    by (auto simp: tally_note_def Let_def is_pipe_end_def j_def[symmetric] nth_list_update mult.commute)
qed

lemma noted_count:
  assumes "i < length cells div 3" "w < 2"
  shows "\<exists>cells'. noted (Some cells) cs = Some cells' \<and> length cells' = length cells
     \<and> unat (cells' ! (3 * i + w)) =
         min (2 ^ 32 - 1) (unat (cells ! (3 * i + w)) + length (filter (is_pipe_end i w) cs))"
  using assms
proof (induction cs arbitrary: cells)
  case Nil
  then show ?case using unat_lt_2p[of "cells ! (3 * i + w)"] by (simp add: min_def)
next
  case (Cons c cs)
  obtain d where d: "tally_note (Some cells) c = Some d" "length d = length cells"
    "d ! (3 * i + w) = (if is_pipe_end i w c then saturating_add32 (cells ! (3 * i + w)) 1
        else cells ! (3 * i + w))"
    using tally_note_Some[OF Cons.prems(1), of c] Cons.prems(2) by blast
  have "i < length d div 3" using Cons.prems d(2) by simp
  from Cons.IH[OF this Cons.prems(2)] d show ?case
    by (auto simp: unat_saturating_add32 min_def)
qed

lemma noted_gen:
  assumes "i < length cells div 3" "g \<noteq> 0" "cells ! (3 * i + 2) \<in> {0, g}"
    and "\<And>c. c \<in> set cs \<Longrightarrow> c_typ c = CAP_PIPE \<Longrightarrow> pipe_obj_idx (c_object c) = i
          \<Longrightarrow> pipe_obj_gen (c_object c) = g"
  shows "\<exists>cells'. noted (Some cells) cs = Some cells' \<and> length cells' = length cells
     \<and> cells' ! (3 * i + 2) = (if \<exists>c\<in>set cs. c_typ c = CAP_PIPE \<and> pipe_obj_idx (c_object c) = i
          then g else cells ! (3 * i + 2))"
  using assms
proof (induction cs arbitrary: cells)
  case Nil
  show ?case by simp
next
  case (Cons c cs)
  obtain d where d: "tally_note (Some cells) c = Some d" "length d = length cells"
    "d ! (3 * i + 2) = (if c_typ c = CAP_PIPE \<and> pipe_obj_idx (c_object c) = i
            then if cells ! (3 * i + 2) = 0 then pipe_obj_gen (c_object c)
                 else if cells ! (3 * i + 2) = pipe_obj_gen (c_object c) then cells ! (3 * i + 2)
                 else PIPE_TALLY_GEN_MIXED
            else cells ! (3 * i + 2))"
    using tally_note_Some[OF Cons.prems(1), of c] by (elim exE conjE) (rule that)
  have g: "d ! (3 * i + 2) = (if c_typ c = CAP_PIPE \<and> pipe_obj_idx (c_object c) = i then g
          else cells ! (3 * i + 2))"
  proof (cases "c_typ c = CAP_PIPE \<and> pipe_obj_idx (c_object c) = i")
    case True
    then have "pipe_obj_gen (c_object c) = g" using Cons.prems(4)[OF list.set_intros(1)] by blast
    then show ?thesis using d(3) Cons.prems(3) True by auto
  next
    case False
    then show ?thesis using d(3) by (simp only: if_False)
  qed
  then have "d ! (3 * i + 2) \<in> {0, g}" using Cons.prems(3) by simp
  moreover have "i < length d div 3" using Cons.prems(1) d(2) by simp
  ultimately obtain cells' where "noted (Some d) cs = Some cells'" "length cells' = length d"
    "cells' ! (3 * i + 2) = (if \<exists>c\<in>set cs. c_typ c = CAP_PIPE \<and> pipe_obj_idx (c_object c) = i
          then g else d ! (3 * i + 2))"
    using Cons.IH[OF _ Cons.prems(2) _ Cons.prems(4)[OF list.set_intros(2)]] by blast
  then show ?case using d(1,2) g by (auto split: if_splits)
qed

lemma length_filter_distinct:
  "distinct ys \<Longrightarrow> length (filter P (map m ys)) = card {a \<in> set ys. P (m a)}"
  by (simp add: filter_map comp_def distinct_card[symmetric])

lemma revoke_global_tally:
  assumes inv: "lineage_inv (rv_mem st) ns"
    and ok: "rust_cap_revoke_global (Some r) sz slot ref spaces st = (True, st')"
    and tgt: "live (rv_mem st (Slot r slot))"
    and t: "rv_tally st = Some cells" and i: "i < length cells div 3" and w: "w < 2"
  shows "\<exists>cells'. rv_tally st' = Some cells' \<and> length cells' = length cells
     \<and> unat (cells' ! (3 * i + w)) = min (2 ^ 32 - 1) (unat (cells ! (3 * i + w))
         + card {a \<in> subtree (rv_mem st) (set (space_slots spaces)) (Slot r slot).
                  is_pipe_end i w (rv_mem st a)})"
proof -
  obtain ys where ys: "distinct ys"
    "set ys = subtree (rv_mem st) (set (space_slots spaces)) (Slot r slot)"
    "rv_tally st' = noted (rv_tally st) (map (rv_mem st) ys)"
    using revoke_global_spec(2)[OF inv ok tgt] by blast
  show ?thesis
    using noted_count[OF i w, of "map (rv_mem st) ys"] ys(3) t
    unfolding length_filter_distinct[OF ys(1)] ys(2) by simp
qed

section \<open>Properties\<close>

text \<open>A small lineage for the witnesses: slot 5 of task 1 is a root, slot 6 of
  task 1 and slot 5 of task 2 are derived from it, slot 6 of task 2 is derived
  from the latter, and slot 7 of task 2 is an unrelated root of the same object.\<close>

definition sample_cap :: "u64 \<Rightarrow> u64 \<Rightarrow> capability" where
  "sample_cap b s = \<lparr> c_typ = CAP_PIPE, c_rights = 0x22, c_object = 0x100000001, c_badge = b,
                      c_serial = s, c_token = 0 \<rparr>"

definition sample_tree :: capmem where
  "sample_tree = (\<lambda>_. null_cap)
    (Slot (TaskC 1) 5 := sample_cap 0 0x100000001,
     Slot (TaskC 1) 6 := sample_cap 0x100000001 0x100000002,
     Slot (TaskC 2) 5 := sample_cap 0x100000001 0x100000003,
     Slot (TaskC 2) 6 := sample_cap 0x100000003 0x100000004,
     Slot (TaskC 2) 7 := sample_cap 0 0x100000005)"

definition sample_rev :: rev_state where
  "sample_rev = \<lparr> rv_mem = sample_tree, rv_inuse = (\<lambda>_. 9), rv_tally = Some (replicate 6 0) \<rparr>"

definition sample_spaces :: "cspace_desc list" where
  "sample_spaces = [\<lparr> d_caps = Some (TaskC 1), d_size = 8, d_inuse = Some 1 \<rparr>,
                    \<lparr> d_caps = Some (TaskC 2), d_size = 8, d_inuse = Some 2 \<rparr>]"

lemma sample_tree_cases:
  "sample_tree a = (if a = Slot (TaskC 1) 5 then sample_cap 0 0x100000001
     else if a = Slot (TaskC 1) 6 then sample_cap 0x100000001 0x100000002
     else if a = Slot (TaskC 2) 5 then sample_cap 0x100000001 0x100000003
     else if a = Slot (TaskC 2) 6 then sample_cap 0x100000003 0x100000004
     else if a = Slot (TaskC 2) 7 then sample_cap 0 0x100000005 else null_cap)"
  by (simp add: sample_tree_def)

lemma lineage_inv_empty: "lineage_inv (\<lambda>_. null_cap) ns"
  by (rule lineage_invI) auto

lemma sample_lineage: "lineage_inv sample_tree (Some 0x100000005)"
proof -
  have fresh: "assign_fresh_serial (Some (0x100000000 + n)) = (0x100000001 + n, Some (0x100000001 + n))"
    if "n < 8" for n
    using that unat_lt_2p[of n]
    by (auto simp: assign_fresh_serial_def checked_add64_def word_less_nat_alt unat_word_ariths)
  note root = lineage_inv_install[OF _ _ _ _ _ _ disjI1]
  note child = lineage_inv_install[OF _ _ _ _ _ _ disjI2]
  have 1: "lineage_inv ((\<lambda>_. null_cap)(Slot (TaskC 1) 5 := sample_cap 0 0x100000001)) (Some 0x100000001)"
    using fresh[of 0] by (intro root[OF lineage_inv_empty, of "Some 0x100000000"]) (auto simp: sample_cap_def)
  note 2 = child[OF 1, where f = "0x100000002" and ns' = "Some 0x100000002"
      and c = "sample_cap 0x100000001 0x100000002" and d = "Slot (TaskC 1) 6"]
  note 3 = child[OF 2, where f = "0x100000003" and ns' = "Some 0x100000003"
      and c = "sample_cap 0x100000001 0x100000003" and d = "Slot (TaskC 2) 5"]
  note 4 = child[OF 3, where f = "0x100000004" and ns' = "Some 0x100000004"
      and c = "sample_cap 0x100000003 0x100000004" and d = "Slot (TaskC 2) 6"]
  note 5 = root[OF 4, where f = "0x100000005" and ns' = "Some 0x100000005"
      and c = "sample_cap 0 0x100000005" and d = "Slot (TaskC 2) 7"]
  show ?thesis unfolding sample_tree_def
    using fresh[of 1] fresh[of 2] fresh[of 3] fresh[of 4]
    by (intro 5)
       (auto simp: sample_cap_def live_def intro: exI[of _ "Slot (TaskC 1) 5"] exI[of _ "Slot (TaskC 2) 5"])
qed

lemma sample_revoke_ok:
  "\<exists>st'. rust_cap_revoke_global (Some (TaskC 1)) 8 5 (Some 1) sample_spaces sample_rev = (True, st')"
  by (simp add: rust_cap_revoke_global_def is_primordial_root_def Let_def)

lemma sample_slots:
  "set (space_slots sample_spaces) = Slot (TaskC 1) ` {0..<8} \<union> Slot (TaskC 2) ` {0..<8}"
  by (simp add: space_slots_def sample_spaces_def desc_slots_def desc_limit_def)

lemma sample_descends: "descends sample_tree (set (space_slots sample_spaces)) 0x100000001 (Slot (TaskC 2) 6)"
proof (rule descends.further)
  show "descends sample_tree (set (space_slots sample_spaces)) 0x100000001 (Slot (TaskC 2) 5)"
    by (rule descends.direct)
       (auto simp: sample_slots child_of_def live_def sample_tree_cases sample_cap_def)
qed (auto simp: sample_slots child_of_def live_def sample_tree_cases sample_cap_def)

text \<open>C20. Revocation is exact.  A successful global revocation of a live
  capability empties the target and every capability derived from it, at any
  depth and in whichever of the given spaces it lies, and leaves every other
  slot of every space exactly as it was, including unrelated capabilities to the
  same object.  Where no slot is listed twice, the in-use count of each space
  falls by the number of its slots that were emptied, and not below 0.\<close>

theorem revoke_global_exact:
  assumes "lineage_inv (rv_mem st) ns"
    and "rust_cap_revoke_global (Some r) sz slot ref spaces st = (True, st')"
    and "live (rv_mem st (Slot r slot))"
  shows "rv_mem st' a =
      (if a = Slot r slot \<or> descends (rv_mem st) (set (space_slots spaces)) (c_serial (rv_mem st (Slot r slot))) a
       then null_cap else rv_mem st a)
    \<and> (distinct (space_slots spaces) \<longrightarrow> rv_inuse st' u = rv_inuse st u - (if ref = Some u then 1 else 0)
           - length (filter (\<lambda>x. snd x = Some u \<and> fst x \<noteq> Slot r slot
               \<and> descends (rv_mem st) (set (space_slots spaces)) (c_serial (rv_mem st (Slot r slot))) (fst x)) (space_slot_refs spaces)))"
proof -
  let ?D = "descends (rv_mem st) (set (space_slots spaces)) (c_serial (rv_mem st (Slot r slot)))"
  have f: "(\<lambda>x. snd x = Some u \<and> fst x \<in> subtree (rv_mem st) (set (space_slots spaces)) (Slot r slot) \<and> fst x \<noteq> Slot r slot)
      = (\<lambda>x. snd x = Some u \<and> fst x \<noteq> Slot r slot \<and> ?D (fst x))" by (auto simp: subtree_def fun_eq_iff)
  show ?thesis using revoke_global_spec(1)[OF assms, of a] revoke_global_spec(3)[OF assms, of u] unfolding f by (simp add: subtree_def)
qed

theorem revoke_global_exact_witness:
  "\<exists>st'. rust_cap_revoke_global (Some (TaskC 1)) 8 5 (Some 1) sample_spaces sample_rev = (True, st')
     \<and> rv_mem st' (Slot (TaskC 2) 6) = null_cap"
proof -
  obtain st' where ok: "rust_cap_revoke_global (Some (TaskC 1)) 8 5 (Some 1) sample_spaces sample_rev
      = (True, st')" using sample_revoke_ok by blast
  have l: "lineage_inv (rv_mem sample_rev) (Some 0x100000005)" "live (rv_mem sample_rev (Slot (TaskC 1) 5))"
    using sample_lineage by (simp_all add: sample_rev_def sample_tree_cases sample_cap_def live_def)
  have "c_serial (rv_mem sample_rev (Slot (TaskC 1) 5)) = 0x100000001"
    by (simp add: sample_rev_def sample_tree_cases sample_cap_def)
  then show ?thesis
    using revoke_global_exact[OF l(1) ok l(2), of "Slot (TaskC 2) 6"] sample_descends ok
    by (simp add: sample_rev_def)
qed

text \<open>C32. The revocation tally is exact.  Started from a zero tally, a global
  revocation leaves in the reader and the writer cell of every pipe the number
  of ends of that direction it removed (up to the 32-bit ceiling), each end
  counted once whether it was removed by the marking or by the final sweep.\<close>

theorem revoke_tally_exact:
  assumes "lineage_inv (rv_mem st) ns"
    and "rust_cap_revoke_global (Some r) sz slot ref spaces st = (True, st')"
    and "live (rv_mem st (Slot r slot))"
    and "rv_tally st = Some (replicate (3 * n) 0)" and "i < n" and "w < 2"
  shows "\<exists>cells. rv_tally st' = Some cells \<and> length cells = 3 * n
     \<and> unat (cells ! (3 * i + w)) = min (2 ^ 32 - 1)
         (card {a \<in> subtree (rv_mem st) (set (space_slots spaces)) (Slot r slot).
                  is_pipe_end i w (rv_mem st a)})"
  using revoke_global_tally[OF assms(1-4), of i w] assms(5,6) by simp

theorem revoke_tally_exact_witness:
  "\<exists>st' cells. rust_cap_revoke_global (Some (TaskC 1)) 8 5 (Some 1) sample_spaces sample_rev = (True, st')
     \<and> rv_tally st' = Some cells \<and> length cells = 6
     \<and> unat (cells ! 4) = min (2 ^ 32 - 1)
         (card {a \<in> subtree sample_tree (set (space_slots sample_spaces)) (Slot (TaskC 1) 5).
                  is_pipe_end 1 1 (sample_tree a)})"
proof -
  obtain st' where ok: "rust_cap_revoke_global (Some (TaskC 1)) 8 5 (Some 1) sample_spaces sample_rev
      = (True, st')" using sample_revoke_ok by blast
  have l: "lineage_inv (rv_mem sample_rev) (Some 0x100000005)" "live (rv_mem sample_rev (Slot (TaskC 1) 5))"
    "rv_tally sample_rev = Some (replicate (3 * 2) 0)"
    using sample_lineage by (simp_all add: sample_rev_def sample_tree_cases sample_cap_def live_def)
  show ?thesis
    using revoke_tally_exact[OF l(1) ok l(2,3), of 1 1] ok by (simp add: sample_rev_def)
qed

end
