(* ===== verification/Cap_Reparent.thy ===== *)
theory Cap_Reparent
  imports Cap_Revoke "HOL-Library.Multiset"
begin

text \<open>
  What a task's death does to the derivation graph, from
  \<open>rust_cap_reparent_dying\<close> in \<^verbatim>\<open>rust/src/capability.rs\<close>.  The capabilities of
  the dying space are collected into a scratch table, insertion-sorted by
  serial, and every surviving child of one of them is handed to the nearest
  ancestor outside the dying space, found by binary search.  The \<open>2 * n\<close> words of
  scratch are a list of \<open>n\<close> pairs (serial, badge).

  The lemmas show that the sort sorts, that the binary search finds exactly the
  entries of the table, that the chase ends with the nearest surviving ancestor
  (it never gives up under the lineage invariant), and that afterwards a
  revocation of any surviving capability still reaches everything it reached
  before.
\<close>

section \<open>The scratch table\<close>

type_synonym scratch = "(u64 \<times> u64) list"

definition collect_slot :: "nat \<Rightarrow> capmem \<Rightarrow> caddr \<Rightarrow> scratch \<Rightarrow> scratch" where
  "collect_slot cap_pairs m a sc =
    (if length sc \<ge> cap_pairs then sc
     else let c = m a in
       if c_typ c = CAP_NULL \<or> c_serial c = 0 then sc
       else sc @ [(c_serial c, c_badge c)])"

definition collect_dying :: "nat \<Rightarrow> capmem \<Rightarrow> cref \<Rightarrow> nat \<Rightarrow> scratch" where
  "collect_dying cap_pairs m r sz = fold (collect_slot cap_pairs m) (map (Slot r) [0..<sz]) []"

text \<open>The inner loop of the insertion sort: shift larger entries up from
  position \<open>j\<close>, then store the key.\<close>

fun sift :: "scratch \<Rightarrow> u64 \<times> u64 \<Rightarrow> nat \<Rightarrow> scratch" where
  "sift sc k 0 = sc[0 := k]"
| "sift sc k (Suc j) =
    (if fst (sc ! j) > fst k then sift (sc[Suc j := sc ! j]) k j else sc[Suc j := k])"

definition sort_scratch :: "scratch \<Rightarrow> scratch" where
  "sort_scratch sc = fold (\<lambda>i sc. sift sc (sc ! i) i) [1..<length sc] sc"

function find_scratch :: "scratch \<Rightarrow> u64 \<Rightarrow> nat \<Rightarrow> nat \<Rightarrow> nat option" where
  "find_scratch sc serial lo hi =
    (if lo < hi then
       let mid = lo + (hi - lo) div 2; v = fst (sc ! mid) in
       if v = serial then Some mid
       else if v < serial then find_scratch sc serial (mid + 1) hi
       else find_scratch sc serial lo mid
     else None)"
  by pat_completeness auto
termination by (relation "measure (\<lambda>(sc, serial, lo, hi). hi - lo)") auto

declare find_scratch.simps [simp del]

text \<open>The walk to the nearest ancestor outside the table: the parent reached and
  the number of steps taken.\<close>

function chase :: "scratch \<Rightarrow> u64 \<Rightarrow> nat \<Rightarrow> u64 \<times> nat" where
  "chase sc parent steps =
    (if parent \<noteq> 0 \<and> steps \<le> length sc then
       case find_scratch sc parent 0 (length sc) of
         Some x \<Rightarrow> chase sc (snd (sc ! x)) (steps + 1)
       | None \<Rightarrow> (parent, steps)
     else (parent, steps))"
  by pat_completeness auto
termination by (relation "measure (\<lambda>(sc, parent, steps). Suc (length sc) - steps)") auto

declare chase.simps [simp del]

definition reparent_slot :: "scratch \<Rightarrow> caddr \<Rightarrow> nat \<times> capmem \<Rightarrow> nat \<times> capmem" where
  "reparent_slot sc a st =
    (let (moved, m) = st; c = m a in
     if c_typ c = CAP_NULL \<or> c_badge c = 0 then st
     else case find_scratch sc (c_badge c) 0 (length sc) of
            None \<Rightarrow> st
          | Some idx \<Rightarrow>
              let (parent, steps) = chase sc (snd (sc ! idx)) 1 in
              if steps > length sc then st
              else (moved + 1, m(a := c\<lparr> c_badge := parent \<rparr>)))"

definition rust_cap_reparent_dying ::
  "cref option \<Rightarrow> nat \<Rightarrow> cspace_desc list \<Rightarrow> nat option \<Rightarrow> capmem \<Rightarrow> nat \<times> capmem" where
  "rust_cap_reparent_dying dying dying_size spaces scratch_len m =
    (case (dying, scratch_len) of
       (Some r, Some len) \<Rightarrow>
         let sz = (if dying_size > CNODE_SIZE then CNODE_SIZE else dying_size);
             sc = collect_dying (len div 2) m r sz
         in if length sc = 0 then (0, m)
            else fold (reparent_slot (sort_scratch sc))
                   (space_slots (filter (\<lambda>d. d_caps d \<noteq> Some r) spaces)) (0, m)
     | _ \<Rightarrow> (0, m))"

section \<open>The sort and the search\<close>

lemma length_sift [simp]: "length (sift sc k j) = length sc"
  by (induction sc k j rule: sift.induct) auto

lemma sift_beyond: "i > j \<Longrightarrow> sift sc k j ! i = sc ! i"
  by (induction sc k j rule: sift.induct) auto

lemma mset_sift:
  "j < length sc \<Longrightarrow> mset (sift sc k j) = add_mset k (mset sc - {# sc ! j #})"
proof (induction sc k j rule: sift.induct)
  case (2 sc k j)
  show ?case
  proof (cases "fst (sc ! j) > fst k")
    case True
    let ?sc = "sc[Suc j := sc ! j]"
    have "mset (sift ?sc k j) = add_mset k (mset ?sc - {# ?sc ! j #})"
      using 2 True by simp
    moreover have "mset ?sc = add_mset (sc ! j) (mset sc - {# sc ! Suc j #})"
      using 2(2) by (simp add: mset_update)
    ultimately show ?thesis using True by simp
  qed (use 2 in \<open>simp add: mset_update\<close>)
qed (simp add: mset_update)

lemma sift_sorted:
  assumes "j < length sc" "sorted (map fst (take j sc))"
  shows "sorted (map fst (take (Suc j) (sift sc k j)))
     \<and> (\<forall>x\<in>set (take (Suc j) (sift sc k j)). x = k \<or> x \<in> set (take j sc))"
  using assms
proof (induction sc k j rule: sift.induct)
  case (2 sc k j)
  have t: "take (Suc j) sc = take j sc @ [sc ! j]" using 2(2) by (simp add: take_Suc_conv_app_nth)
  have sj: "sorted (map fst (take j sc))" and le: "\<forall>x\<in>set (take j sc). fst x \<le> fst (sc ! j)"
    using 2(3) by (auto simp: t sorted_append)
  show ?case
  proof (cases "fst (sc ! j) > fst k")
    case True
    let ?sc = "sc[Suc j := sc ! j]"
    have IH: "sorted (map fst (take (Suc j) (sift ?sc k j)))"
      "\<forall>x\<in>set (take (Suc j) (sift ?sc k j)). x = k \<or> x \<in> set (take j sc)"
      using 2(1)[OF True] 2(2) sj by auto
    have "sift ?sc k j ! Suc j = sc ! j" using 2(2) by (simp add: sift_beyond)
    then have "take (Suc (Suc j)) (sift ?sc k j) = take (Suc j) (sift ?sc k j) @ [sc ! j]"
      using 2(2) by (subst take_Suc_conv_app_nth) auto
    then show ?thesis using IH le True t by (auto simp: sorted_append dest: less_imp_le)
  next
    case False
    have "take (Suc (Suc j)) (sc[Suc j := k]) = take (Suc j) sc @ [k]"
      using 2(2) by (subst take_Suc_conv_app_nth) auto
    then show ?thesis using 2(3) False le t by (auto simp: sorted_append not_less dest: order_trans)
  qed
qed (auto simp: take_Suc_conv_app_nth)

lemma sort_scratch_prefix:
  assumes "0 < n" "n \<le> length sc"
  shows "let s = fold (\<lambda>i sc. sift sc (sc ! i) i) [Suc 0..<n] sc in
     length s = length sc \<and> mset s = mset sc \<and> sorted (map fst (take n s))"
  using assms
proof (induction n)
  case (Suc n)
  show ?case
  proof (cases "n = 0")
    case False
    define s where "s = fold (\<lambda>i sc. sift sc (sc ! i) i) [Suc 0..<n] sc"
    have IH: "length s = length sc" "mset s = mset sc" "sorted (map fst (take n s))"
      using Suc False by (auto simp: s_def Let_def)
    have n: "n < length s" using IH(1) Suc.prems by simp
    have "mset (sift s (s ! n) n) = mset s" using mset_sift[OF n, of "s ! n"] n by simp
    moreover have "sorted (map fst (take (Suc n) (sift s (s ! n) n)))"
      using sift_sorted[OF n IH(3)] by blast
    ultimately show ?thesis using False IH by (simp add: s_def[symmetric] Let_def)
  next
    case True
    have "sorted (map fst (take 1 sc))" by (cases sc) auto
    then show ?thesis using True by simp
  qed
qed simp

lemma sort_scratch_sorted:
  "length (sort_scratch sc) = length sc" "mset (sort_scratch sc) = mset sc"
  "set (sort_scratch sc) = set sc" "sorted (map fst (sort_scratch sc))"
proof -
  have "length (sort_scratch sc) = length sc \<and> mset (sort_scratch sc) = mset sc
     \<and> sorted (map fst (sort_scratch sc))"
  proof (cases "sc = []")
    case False
    then show ?thesis using sort_scratch_prefix[of "length sc" sc]
      by (auto simp: sort_scratch_def Let_def)
  qed (simp add: sort_scratch_def)
  then show "length (sort_scratch sc) = length sc" "mset (sort_scratch sc) = mset sc"
    "sorted (map fst (sort_scratch sc))" "set (sort_scratch sc) = set sc"
    by (auto dest: mset_eq_setD)
qed

lemma find_scratch_Some:
  "find_scratch sc s lo hi = Some x \<Longrightarrow> lo \<le> x \<and> x < hi \<and> fst (sc ! x) = s"
proof (induction sc s lo hi rule: find_scratch.induct)
  case (1 sc s lo hi)
  show ?case
    using 1(3) 1(1)[OF _ refl refl] 1(2)[OF _ refl refl]
    by (subst (asm) find_scratch.simps) (fastforce simp: Let_def split: if_splits)
qed

lemma find_scratch_None:
  assumes "find_scratch sc s lo hi = None" "sorted (map fst sc)" "hi \<le> length sc"
  shows "\<forall>x. lo \<le> x \<and> x < hi \<longrightarrow> fst (sc ! x) \<noteq> s"
  using assms
proof (induction sc s lo hi rule: find_scratch.induct)
  case (1 sc s lo hi)
  define mid where "mid = lo + (hi - lo) div 2"
  have mono: "fst (sc ! x) \<le> fst (sc ! y)" if "x \<le> y" "y < length sc" for x y
    using 1(4) that by (auto simp: sorted_iff_nth_mono)
  show ?case
  proof (cases "lo < hi")
    case True
    have mid: "lo \<le> mid" "mid < hi" using True by (auto simp: mid_def)
    have ne: "fst (sc ! mid) \<noteq> s"
      using 1(3) True by (subst (asm) find_scratch.simps) (auto simp: Let_def mid_def)
    show ?thesis
    proof (cases "fst (sc ! mid) < s")
      case less: True
      have "find_scratch sc s (mid + 1) hi = None"
        using 1(3) True less ne by (subst (asm) find_scratch.simps) (auto simp: Let_def mid_def)
      then have IH: "\<forall>x. mid + 1 \<le> x \<and> x < hi \<longrightarrow> fst (sc ! x) \<noteq> s"
        using 1(1)[OF True mid_def refl ne less] 1(4,5) by blast
      show ?thesis
      proof (intro allI impI)
        fix x assume "lo \<le> x \<and> x < hi"
        then show "fst (sc ! x) \<noteq> s"
          using IH mono[of x mid] mid less 1(5) by (cases "x \<le> mid") auto
      qed
    next
      case geq: False
      have "find_scratch sc s lo mid = None"
        using 1(3) True geq ne by (subst (asm) find_scratch.simps) (auto simp: Let_def mid_def)
      then have IH: "\<forall>x. lo \<le> x \<and> x < mid \<longrightarrow> fst (sc ! x) \<noteq> s"
        using 1(2)[OF True mid_def refl ne geq] 1(4,5) mid by auto
      show ?thesis
      proof (intro allI impI)
        fix x assume "lo \<le> x \<and> x < hi"
        then show "fst (sc ! x) \<noteq> s"
          using IH mono[of mid x] mid geq ne 1(5) by (cases "x < mid") auto
      qed
    qed
  qed auto
qed

section \<open>The nearest surviving ancestor\<close>

text \<open>A table of the dying capabilities, as a relation between a serial and its
  badge; \<open>heir\<close> is the first serial on the way up that is not in it, or 0.\<close>

inductive heir :: "(u64 \<times> u64) set \<Rightarrow> u64 \<Rightarrow> u64 \<Rightarrow> bool" for D :: "(u64 \<times> u64) set" where
  out: "(\<forall>p. (b, p) \<notin> D) \<Longrightarrow> heir D b b"
| zero: "(b, 0) \<in> D \<Longrightarrow> heir D b 0"
| up: "(b, p) \<in> D \<Longrightarrow> p \<noteq> 0 \<Longrightarrow> heir D p h \<Longrightarrow> heir D b h"

inductive_cases heir_cases: "heir D b h"

definition table_ok :: "(u64 \<times> u64) set \<Rightarrow> bool" where
  "table_ok D \<longleftrightarrow> (\<forall>s p. (s, p) \<in> D \<longrightarrow> p < s) \<and> (\<forall>s p q. (s, p) \<in> D \<longrightarrow> (s, q) \<in> D \<longrightarrow> p = q)"

lemma table_okD: "table_ok D \<Longrightarrow> (s, p) \<in> D \<Longrightarrow> p < s"
  by (simp add: table_ok_def)

lemma table_ok_fun: "table_ok D \<Longrightarrow> (s, p) \<in> D \<Longrightarrow> (s, q) \<in> D \<Longrightarrow> p = q"
  unfolding table_ok_def by meson

lemma heir_out: "heir D b h \<Longrightarrow> (\<forall>p. (b, p) \<notin> D) \<Longrightarrow> h = b"
  by (erule heir_cases) blast+

lemma heir_in:
  assumes "heir D b h" "table_ok D" "(b, p) \<in> D"
  shows "p = 0 \<and> h = 0 \<or> p \<noteq> 0 \<and> heir D p h"
  using assms(1)
proof (rule heir_cases)
  assume "(b, 0) \<in> D" "h = 0"
  then show ?thesis using table_ok_fun[OF assms(2,3)] by blast
next
  fix q assume "(b, q) \<in> D" "q \<noteq> 0" "heir D q h"
  then show ?thesis using table_ok_fun[OF assms(2,3)] by blast
qed (use assms(3) in blast)

lemma heir_unique:
  assumes "heir D b h" "table_ok D"
  shows "heir D b h' \<Longrightarrow> h = h'"
  using assms(1)
proof (induction arbitrary: h' rule: heir.induct)
  case (out b)
  show ?case using heir_out[OF out(2,1)] by simp
next
  case (zero b)
  show ?case using heir_in[OF zero(2) assms(2) zero(1)] by simp
next
  case (up b p h)
  have "heir D p h'" using heir_in[OF up(5) assms(2) up(1)] up(2) by simp
  then show ?case by (rule up(4))
qed

text \<open>The chase through a sorted table returns the heir and never exhausts its
  step budget: the entries still below the current parent shrink at every step.\<close>

lemma chase_heir:
  "sorted (map fst sc) \<Longrightarrow> table_ok (set sc) \<Longrightarrow>
   steps + card {x. x < length sc \<and> fst (sc ! x) \<le> parent} \<le> length sc \<Longrightarrow>
   (parent = 0 \<and> h = 0 \<or> parent \<noteq> 0 \<and> heir (set sc) parent h) \<Longrightarrow>
   fst (chase sc parent steps) = h \<and> snd (chase sc parent steps) \<le> length sc"
proof (induction sc parent steps rule: chase.induct)
  case (1 sc parent steps)
  show ?case
  proof (cases "parent \<noteq> 0 \<and> steps \<le> length sc")
    case True
    then have hp: "heir (set sc) parent h" using 1(5) by auto
    show ?thesis
    proof (cases "find_scratch sc parent 0 (length sc)")
      case None
      then have "\<forall>p. (parent, p) \<notin> set sc"
        using find_scratch_None[OF None 1(2) le_refl] by (metis fst_conv in_set_conv_nth le0)
      then have "h = parent" using heir_out[OF hp] by blast
      then show ?thesis using True None by (simp add: chase.simps[of sc parent])
    next
      case (Some x)
      then have x: "x < length sc" "fst (sc ! x) = parent" using find_scratch_Some by auto
      define q where "q = snd (sc ! x)"
      have mem: "(parent, q) \<in> set sc" using x unfolding q_def by (metis nth_mem prod.collapse)
      then have less: "q < parent" using table_okD[OF 1(3)] by blast
      have "{y. y < length sc \<and> fst (sc ! y) \<le> q} \<subset> {y. y < length sc \<and> fst (sc ! y) \<le> parent}"
      proof (rule psubsetI)
        show "{y. y < length sc \<and> fst (sc ! y) \<le> q} \<subseteq> {y. y < length sc \<and> fst (sc ! y) \<le> parent}"
          using order_trans[OF _ less_imp_le[OF less]] by blast
        have "x \<in> {y. y < length sc \<and> fst (sc ! y) \<le> parent}"
          "x \<notin> {y. y < length sc \<and> fst (sc ! y) \<le> q}"
          using x less by (simp_all add: not_le)
        then show "{y. y < length sc \<and> fst (sc ! y) \<le> q} \<noteq> {y. y < length sc \<and> fst (sc ! y) \<le> parent}"
          by blast
      qed
      from psubset_card_mono[OF _ this]
      have a: "steps + 1 + card {y. y < length sc \<and> fst (sc ! y) \<le> q} \<le> length sc"
        using 1(4) by simp
      have b: "q = 0 \<and> h = 0 \<or> q \<noteq> 0 \<and> heir (set sc) q h"
        by (rule heir_in[OF hp 1(3) mem])
      have "chase sc parent steps = chase sc q (steps + 1)"
        using True Some by (simp add: chase.simps[of sc parent steps] q_def)
      then show ?thesis
        using 1(1)[OF True Some 1(2,3), folded q_def, OF a b] by (simp only:)
    qed
  next
    case False
    then have "chase sc parent steps = (parent, steps)" by (subst chase.simps) (simp only: if_False)
    then show ?thesis using 1(4,5) False by auto
  qed
qed

lemma heir_end: "heir D b h \<Longrightarrow> h = 0 \<or> (\<forall>p. (h, p) \<notin> D)"
  by (induction rule: heir.induct) auto

section \<open>One slot, and all of them\<close>

definition reparented :: "scratch \<Rightarrow> capability \<Rightarrow> capability" where
  "reparented sc c = snd (reparent_slot sc (Slot RootC 0) (0, \<lambda>_. c)) (Slot RootC 0)"

lemma reparent_slot_mem: "snd (reparent_slot sc a (k, m)) = m(a := reparented sc (m a))"
  by (auto simp: reparented_def reparent_slot_def Let_def split: option.splits prod.splits)

lemma reparented_only_badge:
  "c_typ (reparented sc c) = c_typ c" "c_rights (reparented sc c) = c_rights c"
  "c_object (reparented sc c) = c_object c" "c_serial (reparented sc c) = c_serial c"
  "c_token (reparented sc c) = c_token c" "live (reparented sc c) = live c"
  by (auto simp: reparented_def reparent_slot_def Let_def live_def split: option.splits prod.splits)

lemma reparented_null:
  "c_typ c = 0 \<or> c_badge c = 0 \<Longrightarrow> reparented sc c = c"
  by (auto simp: reparented_def reparent_slot_def Let_def)

lemma heir_exists: "table_ok D \<Longrightarrow> \<exists>h. heir D b h"
proof (induction "unat b" arbitrary: b rule: less_induct)
  case less
  show ?case
  proof (cases "\<exists>p. (b, p) \<in> D")
    case True
    then obtain p where p: "(b, p) \<in> D" by blast
    then have "unat p < unat b" using table_okD[OF less(2) p] by (simp add: word_less_nat_alt)
    then obtain h where "heir D p h" using less by blast
    then show ?thesis using p heir.zero[of b D] heir.up[OF p] by blast
  qed (use heir.out in blast)
qed

lemma table_entry_card:
  assumes "table_ok (set sc)" "x < length sc"
  shows "1 + card {y. y < length sc \<and> fst (sc ! y) \<le> snd (sc ! x)} \<le> length sc"
proof -
  have "snd (sc ! x) < fst (sc ! x)"
    using table_okD[OF assms(1), of "fst (sc ! x)" "snd (sc ! x)"] assms(2) by simp
  then have "{y. y < length sc \<and> fst (sc ! y) \<le> snd (sc ! x)} \<subseteq> {..<length sc} - {x}" by force
  from card_mono[OF _ this] show ?thesis using assms(2) by simp
qed

lemma reparented_heir:
  assumes sc: "sorted (map fst sc)" "table_ok (set sc)" and c: "c_typ c \<noteq> 0" "c_badge c \<noteq> 0"
  shows "heir (set sc) (c_badge c) (c_badge (reparented sc c))"
proof (cases "find_scratch sc (c_badge c) 0 (length sc)")
  case None
  then have "reparented sc c = c" by (simp add: reparented_def reparent_slot_def)
  moreover have "\<forall>p. (c_badge c, p) \<notin> set sc"
    using find_scratch_None[OF None sc(1) le_refl] by (metis fst_conv in_set_conv_nth le0)
  ultimately show ?thesis by (simp add: heir.out)
next
  case (Some x)
  then have x: "x < length sc" "fst (sc ! x) = c_badge c" using find_scratch_Some by auto
  obtain h where h: "heir (set sc) (c_badge c) h" using heir_exists[OF sc(2)] by blast
  have mem: "(c_badge c, snd (sc ! x)) \<in> set sc" using x by (metis nth_mem prod.collapse)
  have "fst (chase sc (snd (sc ! x)) 1) = h \<and> snd (chase sc (snd (sc ! x)) 1) \<le> length sc"
    by (rule chase_heir[OF sc table_entry_card[OF sc(2) x(1)] heir_in[OF h sc(2) mem]])
  then have "c_badge (reparented sc c) = h"
    using c Some by (auto simp: reparented_def reparent_slot_def Let_def split: prod.splits)
  then show ?thesis using h by simp
qed

lemma reparented_idem:
  assumes "sorted (map fst sc)" "table_ok (set sc)"
  shows "reparented sc (reparented sc c) = reparented sc c"
proof (cases "c_typ c = 0 \<or> c_badge (reparented sc c) = 0")
  case True
  then show ?thesis using reparented_null[of "reparented sc c" sc] reparented_only_badge(1)[of sc c] by simp
next
  case False
  then have "c_badge c \<noteq> 0" using reparented_null[of c sc] by fastforce
  with False have h: "heir (set sc) (c_badge c) (c_badge (reparented sc c))"
    using reparented_heir[OF assms] by blast
  then have "find_scratch sc (c_badge (reparented sc c)) 0 (length sc) = None"
    using heir_end[OF h] False find_scratch_Some[of sc "c_badge (reparented sc c)" 0 "length sc"]
    by (metis nth_mem option.exhaust prod.collapse)
  then show ?thesis using False reparented_only_badge(1)[of sc c]
    by (simp add: reparented_def[of sc "reparented sc c"] reparent_slot_def)
qed

lemma reparent_fold_mem:
  assumes "sorted (map fst sc)" "table_ok (set sc)"
  shows "snd (fold (reparent_slot sc) xs (k, m)) a =
    (if a \<in> set xs then reparented sc (m a) else m a)"
proof (induction xs arbitrary: k m)
  case (Cons b xs)
  obtain k' m' where e: "reparent_slot sc b (k, m) = (k', m')" by (metis surj_pair)
  then have "m' a = (if a = b then reparented sc (m b) else m a)"
    using reparent_slot_mem[of sc b k m] by simp
  then show ?case using Cons[of k' m'] e reparented_idem[OF assms] by auto
qed simp

lemma collect_fold:
  assumes "length acc + length xs \<le> cap_pairs"
  shows "fold (collect_slot cap_pairs m) xs acc =
    acc @ map (\<lambda>a. (c_serial (m a), c_badge (m a))) (filter (\<lambda>a. live (m a)) xs)"
  using assms
  by (induction xs arbitrary: acc) (auto simp: collect_slot_def live_def Let_def)

lemma set_collect_dying:
  assumes "sz \<le> cap_pairs"
  shows "set (collect_dying cap_pairs m r sz) =
    (\<lambda>a. (c_serial (m a), c_badge (m a))) ` {a. space_of a = r \<and> index_of a < sz \<and> live (m a)}"
proof -
  have "{a. space_of a = r \<and> index_of a < sz \<and> live (m a)} = {a \<in> Slot r ` {0..<sz}. live (m a)}"
    by (auto simp: image_iff) (metis atLeast0LessThan caddr.exhaust_sel lessThan_iff)
  then show ?thesis using assms by (simp add: collect_dying_def collect_fold)
qed

section \<open>What a death leaves of the graph\<close>

text \<open>The situation the kernel calls it in: the dying space is one of the
  spaces, described with one size, and the scratch has room for all of it.\<close>

definition dying_in :: "cref \<Rightarrow> nat \<Rightarrow> cspace_desc list \<Rightarrow> nat \<Rightarrow> bool" where
  "dying_in r dsz spaces len \<longleftrightarrow> (\<exists>d\<in>set spaces. d_caps d = Some r)
     \<and> (\<forall>d\<in>set spaces. d_caps d = Some r \<longrightarrow> d_size d = dsz) \<and> 2 * CNODE_SIZE \<le> len"

definition dying_table :: "capmem \<Rightarrow> caddr set \<Rightarrow> cref \<Rightarrow> (u64 \<times> u64) set" where
  "dying_table m A r = (\<lambda>a. (c_serial (m a), c_badge (m a))) ` {a \<in> A. space_of a = r \<and> live (m a)}"

lemma set_space_slots:
  "set (space_slots spaces) =
    {a. \<exists>d\<in>set spaces. d_caps d = Some (space_of a) \<and> index_of a < desc_limit d}"
proof -
  have "a \<in> set (desc_slots d) \<longleftrightarrow> d_caps d = Some (space_of a) \<and> index_of a < desc_limit d" for a d
    by (cases a) (auto simp: desc_slots_def split: option.splits)
  then show ?thesis by (auto simp: space_slots_def)
qed

lemma dying_in_slots:
  assumes "dying_in r dsz spaces len" "space_of a = r"
  shows "a \<in> set (space_slots spaces) \<longleftrightarrow> index_of a < (if dsz > CNODE_SIZE then CNODE_SIZE else dsz)"
  using assms by (fastforce simp: set_space_slots dying_in_def desc_limit_def)

lemma survivors_slots:
  "set (space_slots (filter (\<lambda>d. d_caps d \<noteq> Some r) spaces)) =
    {a \<in> set (space_slots spaces). space_of a \<noteq> r}"
  by (auto simp: set_space_slots)

lemma dying_table_ok: "lineage_inv m ns \<Longrightarrow> table_ok (dying_table m A r)"
  unfolding table_ok_def dying_table_def
  by (auto dest: lineage_invD(4)) (metis lineage_invD(5))

lemma reparent_dying_mem:
  assumes inv: "lineage_inv m ns" and dy: "dying_in r dsz spaces len"
  defines "A \<equiv> set (space_slots spaces)" and "D \<equiv> dying_table m (set (space_slots spaces)) r"
    and "m' \<equiv> snd (rust_cap_reparent_dying (Some r) dsz spaces (Some len) m)"
  shows "a \<notin> A \<or> space_of a = r \<Longrightarrow> m' a = m a"
    and "\<exists>b. m' a = (m a)\<lparr> c_badge := b \<rparr>"
    and "c_typ (m a) = 0 \<or> c_badge (m a) = 0 \<Longrightarrow> m' a = m a"
    and "a \<in> A \<Longrightarrow> space_of a \<noteq> r \<Longrightarrow> c_typ (m a) \<noteq> 0 \<Longrightarrow> c_badge (m a) \<noteq> 0
          \<Longrightarrow> heir D (c_badge (m a)) (c_badge (m' a))"
proof -
  let ?sz = "if dsz > CNODE_SIZE then CNODE_SIZE else dsz"
  let ?sc = "collect_dying (len div 2) m r ?sz"
  have sz: "?sz \<le> len div 2" using dy by (auto simp: dying_in_def)
  have D: "set ?sc = D"
  proof -
    have "{a. space_of a = r \<and> index_of a < ?sz \<and> live (m a)} = {a \<in> A. space_of a = r \<and> live (m a)}"
      using dying_in_slots[OF dy] by (auto simp: A_def)
    then show ?thesis using set_collect_dying[OF sz, of m r]
      by (simp only: D_def dying_table_def A_def)
  qed
  have ok: "table_ok D" unfolding D_def by (rule dying_table_ok[OF inv])
  have S: "sorted (map fst (sort_scratch ?sc))" "table_ok (set (sort_scratch ?sc))"
    using ok by (simp_all add: sort_scratch_sorted D)
  have upd: "reparented sc c = c\<lparr> c_badge := c_badge (reparented sc c) \<rparr>" for sc c
    using reparented_only_badge[of sc c] by simp
  have m': "m' a = (if a \<in> A \<and> space_of a \<noteq> r then reparented (sort_scratch ?sc) (m a) else m a)"
    if "?sc \<noteq> []" for a
    using that reparent_fold_mem[OF S, of _ 0 m a] survivors_slots[of r spaces]
    by (auto simp: m'_def rust_cap_reparent_dying_def Let_def A_def)
  have nil: "m' = m" if "?sc = []"
    using that by (simp add: m'_def rust_cap_reparent_dying_def Let_def)
  show "a \<notin> A \<or> space_of a = r \<Longrightarrow> m' a = m a"
    using m'[of a] nil by (cases "?sc = []") auto
  show "\<exists>b. m' a = (m a)\<lparr> c_badge := b \<rparr>"
    using m'[of a] nil upd[of "sort_scratch ?sc" "m a"] capability.surjective[of "m a"]
    by (cases "?sc = []") (auto intro: exI[of _ "c_badge (m a)"])
  show "c_typ (m a) = 0 \<or> c_badge (m a) = 0 \<Longrightarrow> m' a = m a"
    using m'[of a] nil reparented_null[of "m a"] by (cases "?sc = []") auto
  assume a: "a \<in> A" "space_of a \<noteq> r" "c_typ (m a) \<noteq> 0" "c_badge (m a) \<noteq> 0"
  show "heir D (c_badge (m a)) (c_badge (m' a))"
  proof (cases "?sc = []")
    case True
    then have "D = {}" using D by simp
    then show ?thesis using nil[OF True] by (simp add: heir.out)
  next
    case False
    then show ?thesis
      using reparented_heir[OF S a(3,4)] m'[OF False, of a] a by (simp add: sort_scratch_sorted D)
  qed
qed

lemma dying_tableE:
  assumes "(b, p) \<in> dying_table m A r"
  obtains x where "x \<in> A" "space_of x = r" "live (m x)" "c_serial (m x) = b" "c_badge (m x) = p"
  using assms by (auto simp: dying_table_def)

lemma heir_rights:
  assumes inv: "lineage_inv m ns"
  shows "heir (dying_table m A r) b h \<Longrightarrow> live (m a) \<Longrightarrow> c_badge (m a) = b \<Longrightarrow>
    live (m x) \<Longrightarrow> c_serial (m x) = h \<Longrightarrow> mask_le (c_rights (m a)) (c_rights (m x))"
proof (induction arbitrary: a rule: heir.induct)
  case (out b)
  then show ?case using lineage_invD(6)[OF inv, of x a] by simp
next
  case (zero b)
  then show ?case by (simp add: live_def)
next
  case (up b p h)
  obtain y where y: "live (m y)" "c_serial (m y) = b" "c_badge (m y) = p"
    using up(1) by (rule dying_tableE)
  have "mask_le (c_rights (m a)) (c_rights (m y))"
    using lineage_invD(6)[OF inv, of y a] up.prems y by simp
  also have "mask_le (c_rights (m y)) (c_rights (m x))" using up y by blast
  finally show ?case .
qed

lemma heir_le: "heir D b h \<Longrightarrow> table_ok D \<Longrightarrow> h \<le> b"
proof (induction rule: heir.induct)
  case (up b p h)
  then have "p < b" using table_okD by blast
  with up show ?case by (meson less_imp_le order_trans)
qed simp_all

lemma reparent_dying_lineage:
  assumes inv: "lineage_inv m ns" and dy: "dying_in r dsz spaces len"
  shows "lineage_inv (snd (rust_cap_reparent_dying (Some r) dsz spaces (Some len) m)) ns"
    (is "lineage_inv ?m' ns")
proof -
  note M = reparent_dying_mem[OF inv dy] and D = lineage_invD[OF inv]
  let ?D = "dying_table m (set (space_slots spaces)) r"
  have same: "c_typ (?m' a) = c_typ (m a)" "c_serial (?m' a) = c_serial (m a)"
    "c_rights (?m' a) = c_rights (m a)" "live (?m' a) = live (m a)" for a
    using M(2)[of a] by (auto simp: live_def)
  have badge: "c_badge (?m' a) = c_badge (m a) \<or> heir ?D (c_badge (m a)) (c_badge (?m' a))" for a
    using M(1)[of a] M(3)[of a] M(4)[of a] 
    by (cases "a \<in> set (space_slots spaces) \<and> space_of a \<noteq> r";
        cases "c_typ (m a) = 0 \<or> c_badge (m a) = 0") auto
  have le: "c_badge (?m' a) \<le> c_badge (m a)" for a
    using badge[of a] heir_le[OF _ dying_table_ok[OF inv]] by (elim disjE) simp_all
  show ?thesis
  proof (rule lineage_invI)
    fix a b
    show "live (?m' a) \<Longrightarrow> c_badge (?m' a) < c_serial (?m' a)"
      using le[of a] D(4)[of a] same[of a] by simp
    assume ab: "live (?m' a)" "live (?m' b)" "c_badge (?m' b) = c_serial (?m' a)"
    then have ab': "live (m a)" "live (m b)" using same by simp_all
    from badge[of b] have "mask_le (c_rights (m b)) (c_rights (m a))"
    proof
      assume "c_badge (?m' b) = c_badge (m b)"
      then show ?thesis using D(6)[OF ab'] ab(3) same(2)[of a] by simp
    next
      assume "heir ?D (c_badge (m b)) (c_badge (?m' b))"
      then show ?thesis using heir_rights[OF inv _ ab'(2) refl ab'(1)] ab(3) same(2)[of a] by simp
    qed
    then show "mask_le (c_rights (?m' b)) (c_rights (?m' a))" by (simp add: same)
  next
    fix a b assume "live (?m' a)" "live (?m' b)" "c_serial (?m' a) = c_serial (?m' b)"
    then show "a = b" using D(5)[of a b] same by simp
  qed (use same D(1,2,3) in simp_all)
qed

text \<open>Revocation after a death: the same surviving capabilities descend from any
  surviving serial as before.\<close>

lemma heir_descends:
  assumes "heir (dying_table m A r) b h" "h \<noteq> 0"
    and "h = rs \<or> (\<exists>x. descends m A rs x \<and> c_serial (m x) = h)"
  shows "a \<in> A \<Longrightarrow> live (m a) \<Longrightarrow> c_badge (m a) = b \<Longrightarrow> b \<noteq> 0 \<Longrightarrow> descends m A rs a"
  using assms
proof (induction arbitrary: a rule: heir.induct)
  case (out b)
  then show ?case by (auto simp: child_of_def intro: descends.intros)
next
  case (up b p h)
  obtain y where y: "y \<in> A" "live (m y)" "c_serial (m y) = b" "c_badge (m y) = p"
    using up(1) by (rule dying_tableE)
  then have "descends m A rs y" using up by blast
  then show ?case using up.prems y(3) by (auto simp: child_of_def intro: descends.further)
qed simp

definition death_mem :: "cref \<Rightarrow> nat \<Rightarrow> cspace_desc list \<Rightarrow> nat \<Rightarrow> capmem \<Rightarrow> capmem" where
  "death_mem r dsz spaces len m = snd (rust_cap_reparent_dying (Some r) dsz spaces (Some len) m)"

definition survivors :: "cref \<Rightarrow> cspace_desc list \<Rightarrow> caddr set" where
  "survivors r spaces = {a \<in> set (space_slots spaces). space_of a \<noteq> r}"

lemma death_mem_same:
  assumes "lineage_inv m ns" "dying_in r dsz spaces len"
  shows "c_serial (death_mem r dsz spaces len m b) = c_serial (m b)"
    "live (death_mem r dsz spaces len m b) = live (m b)"
    "c_badge (death_mem r dsz spaces len m b) \<noteq> 0 \<Longrightarrow> c_badge (m b) \<noteq> 0"
proof -
  obtain x where "death_mem r dsz spaces len m b = (m b)\<lparr> c_badge := x \<rparr>"
    using reparent_dying_mem(2)[OF assms] unfolding death_mem_def by blast
  then show "c_serial (death_mem r dsz spaces len m b) = c_serial (m b)"
    "live (death_mem r dsz spaces len m b) = live (m b)" by (simp_all add: live_def)
  show "c_badge (death_mem r dsz spaces len m b) \<noteq> 0 \<Longrightarrow> c_badge (m b) \<noteq> 0"
    using reparent_dying_mem(3)[OF assms, of b] unfolding death_mem_def by force
qed

text \<open>A child after the death was a descendant before it, through the dying
  capabilities its new badge skips.\<close>

lemma death_child_before:
  assumes inv: "lineage_inv m ns" and dy: "dying_in r dsz spaces len"
    and b: "b \<in> survivors r spaces" "child_of (death_mem r dsz spaces len m) p b"
    and p: "p = rs \<or> (\<exists>x. descends m (set (space_slots spaces)) rs x \<and> c_serial (m x) = p)"
  shows "descends m (set (space_slots spaces)) rs b"
proof -
  note same = death_mem_same[OF inv dy, of b]
  have l: "live (m b)" "c_badge (m b) \<noteq> 0" "p \<noteq> 0" "c_badge (death_mem r dsz spaces len m b) = p"
    using b(2) same by (auto simp: child_of_def)
  then have "heir (dying_table m (set (space_slots spaces)) r) (c_badge (m b)) p"
    using reparent_dying_mem(4)[OF inv dy, of b] b(1)
    by (auto simp: live_def death_mem_def survivors_def)
  from heir_descends[OF this l(3) p] show ?thesis using b(1) l by (auto simp: survivors_def)
qed

text \<open>\<open>reached\<close>: a serial that a revocation of \<open>rs\<close> comes to after the death.  For
  a dying capability it is its heir that is reached, for a survivor the
  capability itself.\<close>

definition reached :: "capmem \<Rightarrow> caddr set \<Rightarrow> u64 \<Rightarrow> u64 \<Rightarrow> bool" where
  "reached m' A' rs h \<longleftrightarrow> h \<noteq> 0 \<and> (h = rs \<or> (\<exists>x. descends m' A' rs x \<and> c_serial (m' x) = h))"

lemma reached_child: "reached m' A' rs h \<Longrightarrow> a \<in> A' \<Longrightarrow> child_of m' h a \<Longrightarrow> descends m' A' rs a"
  by (auto simp: reached_def intro: descends.intros)

definition after_death :: "capmem \<Rightarrow> cref \<Rightarrow> nat \<Rightarrow> cspace_desc list \<Rightarrow> nat \<Rightarrow> u64 \<Rightarrow> caddr \<Rightarrow> bool" where
  "after_death m r dsz spaces len rs b \<longleftrightarrow>
    (let m' = death_mem r dsz spaces len m; A' = survivors r spaces in
     if space_of b = r
     then \<exists>h. heir (dying_table m (set (space_slots spaces)) r) (c_serial (m b)) h \<and> reached m' A' rs h
     else descends m' A' rs b)"

lemma after_death_iff:
  "space_of b = r \<Longrightarrow> after_death m r dsz spaces len rs b \<longleftrightarrow>
    (\<exists>h. heir (dying_table m (set (space_slots spaces)) r) (c_serial (m b)) h
       \<and> reached (death_mem r dsz spaces len m) (survivors r spaces) rs h)"
  "space_of b \<noteq> r \<Longrightarrow> after_death m r dsz spaces len rs b \<longleftrightarrow>
    descends (death_mem r dsz spaces len m) (survivors r spaces) rs b"
  by (simp_all add: after_death_def Let_def)

lemma after_death_child:
  assumes inv: "lineage_inv m ns" and dy: "dying_in r dsz spaces len"
    and b: "b \<in> set (space_slots spaces)" "child_of m p b"
    and h: "heir (dying_table m (set (space_slots spaces)) r) p h"
      "reached (death_mem r dsz spaces len m) (survivors r spaces) rs h"
  shows "after_death m r dsz spaces len rs b"
proof (cases "space_of b = r")
  case True
  then have "(c_serial (m b), p) \<in> dying_table m (set (space_slots spaces)) r"
    using b by (auto simp: dying_table_def child_of_def)
  then have "heir (dying_table m (set (space_slots spaces)) r) (c_serial (m b)) h"
    using heir.up[OF _ _ h(1)] b by (auto simp: child_of_def)
  then show ?thesis using True h(2) unfolding after_death_iff(1)[OF True] by blast
next
  case False
  let ?m' = "death_mem r dsz spaces len m"
  have "heir (dying_table m (set (space_slots spaces)) r) p (c_badge (?m' b))"
    using reparent_dying_mem(4)[OF inv dy, of b] b False
    by (auto simp: child_of_def live_def death_mem_def)
  then have "c_badge (?m' b) = h" using heir_unique[OF h(1) dying_table_ok[OF inv]] by simp
  then have "child_of ?m' h b"
    using b(2) h(2) death_mem_same(2)[OF inv dy, of b] by (auto simp: child_of_def reached_def)
  then show ?thesis
    using False b(1) reached_child[OF h(2)] unfolding after_death_iff(2)[OF False]
    by (simp add: survivors_def)
qed

lemma descends_after_death:
  assumes inv: "lineage_inv m ns" and dy: "dying_in r dsz spaces len"
    and rs: "\<forall>p. (rs, p) \<notin> dying_table m (set (space_slots spaces)) r" "rs \<noteq> 0"
  shows "descends m (set (space_slots spaces)) rs b \<Longrightarrow> after_death m r dsz spaces len rs b"
proof (induction rule: descends.induct)
  case (direct b)
  show ?case
    by (rule after_death_child[OF inv dy direct heir.out[OF rs(1)]]) (use rs(2) in \<open>simp add: reached_def\<close>)
next
  case (further c b)
  have lc: "live (m c)" using descends_live[OF further(1)] by simp
  show ?case
  proof (cases "space_of c = r")
    case True
    then show ?thesis using further(4) after_death_child[OF inv dy further(2,3)]
      unfolding after_death_iff(1)[OF True] by blast
  next
    case False
    have out: "\<forall>p. (c_serial (m c), p) \<notin> dying_table m (set (space_slots spaces)) r"
    proof (intro allI notI)
      fix p assume "(c_serial (m c), p) \<in> dying_table m (set (space_slots spaces)) r"
      then obtain x where "space_of x = r" "live (m x)" "c_serial (m x) = c_serial (m c)"
        by (rule dying_tableE)
      then show False using lineage_invD(5)[OF inv, of x c] lc False by auto
    qed
    show ?thesis
      by (rule after_death_child[OF inv dy further(2,3) heir.out[OF out]])
         (use further(4)[unfolded after_death_iff(2)[OF False]] lc death_mem_same(1)[OF inv dy, of c] in
            \<open>auto simp: reached_def live_def\<close>)
  qed
qed

lemma death_keeps_reach:
  assumes inv: "lineage_inv m ns" and dy: "dying_in r dsz spaces len"
    and rs: "\<forall>p. (rs, p) \<notin> dying_table m (set (space_slots spaces)) r" "rs \<noteq> 0"
  shows "descends (death_mem r dsz spaces len m) (survivors r spaces) rs a \<longleftrightarrow>
    descends m (set (space_slots spaces)) rs a \<and> space_of a \<noteq> r"
proof
  assume "descends (death_mem r dsz spaces len m) (survivors r spaces) rs a"
  then show "descends m (set (space_slots spaces)) rs a \<and> space_of a \<noteq> r"
  proof (induction rule: descends.induct)
    case (direct b)
    then show ?case using death_child_before[OF inv dy direct] by (auto simp: survivors_def)
  next
    case (further c b)
    then show ?case
      using death_child_before[OF inv dy further(2,3)] death_mem_same(1)[OF inv dy, of c]
      by (auto simp: survivors_def)
  qed
next
  assume "descends m (set (space_slots spaces)) rs a \<and> space_of a \<noteq> r"
  then show "descends (death_mem r dsz spaces len m) (survivors r spaces) rs a"
    using descends_after_death[OF inv dy rs, of a] after_death_iff(2)[of a r] by blast
qed

section \<open>Properties\<close>

lemma dying_table_iff:
  "(\<forall>p. (rs, p) \<notin> dying_table m A r) \<longleftrightarrow> (\<forall>a\<in>A. space_of a = r \<longrightarrow> live (m a) \<longrightarrow> c_serial (m a) \<noteq> rs)"
  by (auto simp: dying_table_def)

lemma sample_dying: "dying_in (TaskC 2) 8 sample_spaces 512"
  by (simp add: dying_in_def sample_spaces_def)

text \<open>C12. A death loses no lineage.  After the capabilities of a dying space have
  been passed over, the lineage invariant still holds, and for every serial
  \<open>rs\<close> that the dying space does not hold itself, exactly the surviving
  capabilities that descended from it before descend from it now, the dying
  space left out: a later revocation still reaches all of them and no others.\<close>

theorem death_keeps_revocation:
  assumes "lineage_inv m ns" and "dying_in r dsz spaces len"
    and "rust_cap_reparent_dying (Some r) dsz spaces (Some len) m = (moved, m')"
    and "rs \<noteq> 0"
    and "\<forall>a\<in>set (space_slots spaces). space_of a = r \<longrightarrow> live (m a) \<longrightarrow> c_serial (m a) \<noteq> rs"
  shows "lineage_inv m' ns
     \<and> (descends m' {b \<in> set (space_slots spaces). space_of b \<noteq> r} rs a
          \<longleftrightarrow> descends m (set (space_slots spaces)) rs a \<and> space_of a \<noteq> r)"
  using reparent_dying_lineage[OF assms(1,2)]
    death_keeps_reach[OF assms(1,2) assms(5)[folded dying_table_iff] assms(4)] assms(3)
  by (simp add: death_mem_def survivors_def)

theorem death_keeps_revocation_witness:
  "\<exists>moved m'. rust_cap_reparent_dying (Some (TaskC 2)) 8 sample_spaces (Some 512) sample_tree = (moved, m')
     \<and> lineage_inv m' (Some 0x100000005)
     \<and> \<not> descends m' {b \<in> set (space_slots sample_spaces). space_of b \<noteq> TaskC 2} 0x100000001
          (Slot (TaskC 2) 6)"
proof -
  obtain moved m' where r: "rust_cap_reparent_dying (Some (TaskC 2)) 8 sample_spaces (Some 512) sample_tree
    = (moved, m')" by (metis surj_pair)
  have "\<forall>a\<in>set (space_slots sample_spaces). space_of a = TaskC 2 \<longrightarrow> live (sample_tree a)
      \<longrightarrow> c_serial (sample_tree a) \<noteq> 0x100000001"
    by (auto simp: sample_tree_cases sample_cap_def)
  from death_keeps_revocation[OF sample_lineage sample_dying r _ this, of "Slot (TaskC 2) 6"]
  show ?thesis using r by auto
qed

text \<open>C33. The reparenting is the obvious one: with its insertion sort, binary
  search and bounded walk it gives every surviving capability as badge the first
  serial on its way up that the dying space does not hold (0 if there is none),
  and changes no other field and no other slot.\<close>

theorem reparent_is_nearest_ancestor:
  assumes "lineage_inv m ns" and "dying_in r dsz spaces len"
    and "rust_cap_reparent_dying (Some r) dsz spaces (Some len) m = (moved, m')"
  shows "if a \<in> set (space_slots spaces) \<and> space_of a \<noteq> r \<and> c_typ (m a) \<noteq> 0 \<and> c_badge (m a) \<noteq> 0
    then \<exists>h. heir (dying_table m (set (space_slots spaces)) r) (c_badge (m a)) h
           \<and> m' a = (m a)\<lparr> c_badge := h \<rparr>
    else m' a = m a"
proof -
  note M = reparent_dying_mem[OF assms(1,2), of a, unfolded assms(3) snd_conv]
  obtain h where "m' a = (m a)\<lparr> c_badge := h \<rparr>" using M(2) by blast
  then show ?thesis using M(1,3,4) by auto
qed

theorem reparent_is_nearest_ancestor_witness:
  "\<exists>moved m'. rust_cap_reparent_dying (Some (TaskC 2)) 8 sample_spaces (Some 512) sample_tree = (moved, m')
     \<and> m' (Slot (TaskC 1) 5) = sample_cap 0 0x100000001"
proof -
  obtain moved m' where r: "rust_cap_reparent_dying (Some (TaskC 2)) 8 sample_spaces (Some 512) sample_tree
    = (moved, m')" by (metis surj_pair)
  show ?thesis
    using reparent_is_nearest_ancestor[OF sample_lineage sample_dying r, of "Slot (TaskC 1) 5"] r
    by (simp add: sample_tree_cases sample_cap_def)
qed

end
