(* ===== verification/Page_Pool.thy ===== *)
theory Page_Pool
  imports Horus_Prelude "HOL-Library.Multiset"
begin

text \<open>
  The physical page pool (\<^verbatim>\<open>src/kernel/paging.c\<close>, with the reference-count
  arithmetic of \<^verbatim>\<open>rust/src/memory.rs\<close>): the table of RAM regions, where the base
  reserves and the per-frame tables are placed at boot, the stack of free frames
  with one on-loan bit per frame, and the reference counts.  A physical address is
  a natural number; the sums a 64-bit machine could wrap are reduced where the
  source guards against it, and the reference counts keep their 16 bits.  Boot
  modules are a list of \<open>(start, end)\<close> pairs, as the boot loader reports them.
\<close>

section \<open>State\<close>

abbreviation (input) FRAME_BYTES :: nat where "FRAME_BYTES \<equiv> 4096"
abbreviation (input) USER_PHYS_BASE :: nat where "USER_PHYS_BASE \<equiv> 0x1000000"
abbreviation (input) PHYS_POOL_CEIL :: nat where "PHYS_POOL_CEIL \<equiv> 0x100000000"
abbreviation (input) PHYS_KVA_FLAT_CEIL :: nat where "PHYS_KVA_FLAT_CEIL \<equiv> 0x40000000"
abbreviation (input) CHUNK_2M :: nat where "CHUNK_2M \<equiv> 0x200000"
abbreviation (input) RAM_REGIONS_MAX :: nat where "RAM_REGIONS_MAX \<equiv> 32"
abbreviation (input) USER_PHYS_PAGES_MAX :: nat where "USER_PHYS_PAGES_MAX \<equiv> 1044480"

text \<open>\<open>LOADER_STAGING_PAGES + VDISK_PAGES + UNTYPED_ARENA_PAGES\<close>, which is 2048 + 4096 + 1664,
  and the floor that leaves 4096 frames above it.\<close>

abbreviation (input) POOL_RESERVE_PAGES :: nat where "POOL_RESERVE_PAGES \<equiv> 7808"

abbreviation (input) PHYS_POOL_MIN_PAGES :: nat where "PHYS_POOL_MIN_PAGES \<equiv> 11904"

record page_pool =
  pp_pages :: nat
  pp_ram :: "(nat \<times> nat) list"
  pp_dropped :: nat
  pp_stack :: "nat list"
  pp_refs :: "nat \<Rightarrow> 16 word"
  pp_loan :: "nat \<Rightarrow> u32"
  pp_refusals :: nat
  pp_zero_page :: nat

section \<open>The table of RAM\<close>

definition align_down :: "nat \<Rightarrow> nat \<Rightarrow> nat" where
  "align_down a x = x div a * a"

definition align_to :: "nat \<Rightarrow> nat \<Rightarrow> nat" where
  "align_to a x = (x + (a - 1)) div a * a"

definition phys_set_pool_pages :: "nat \<Rightarrow> page_pool \<Rightarrow> page_pool" where
  "phys_set_pool_pages pages p =
    (let pages = (if pages < PHYS_POOL_MIN_PAGES then PHYS_POOL_MIN_PAGES else pages);
         pages = (if pages > USER_PHYS_PAGES_MAX then USER_PHYS_PAGES_MAX else pages)
     in p\<lparr> pp_pages := pages \<rparr>)"

definition ram_add :: "nat \<Rightarrow> nat \<Rightarrow> page_pool \<Rightarrow> page_pool" where
  "ram_add base en p =
    (if base \<ge> en then p
     else if length (pp_ram p) \<ge> RAM_REGIONS_MAX then p\<lparr> pp_dropped := pp_dropped p + 1 \<rparr>
     else p\<lparr> pp_ram := pp_ram p @ [(base, en)] \<rparr>)"

definition phys_note_ram :: "nat \<Rightarrow> nat \<Rightarrow> page_pool \<Rightarrow> page_pool" where
  "phys_note_ram base len p =
    (let en = (base + len) mod 2 ^ 64;
         en = (if en < base then 2 ^ 64 - 1 else en);
         base = (if base < USER_PHYS_BASE then USER_PHYS_BASE else base);
         en = (if en > PHYS_POOL_CEIL then PHYS_POOL_CEIL else en);
         base = align_to FRAME_BYTES base mod 2 ^ 64;
         en = align_down FRAME_BYTES en
     in if base \<ge> en then p
        else let (p1, base1) =
                   (if base < PHYS_KVA_FLAT_CEIL
                    then (ram_add base (if en < PHYS_KVA_FLAT_CEIL then en else PHYS_KVA_FLAT_CEIL) p,
                          PHYS_KVA_FLAT_CEIL)
                    else (p, base))
             in if en > PHYS_KVA_FLAT_CEIL
                then ram_add (align_to CHUNK_2M base1) (align_down CHUNK_2M en) p1
                else p1)"

definition ram_covers :: "page_pool \<Rightarrow> nat \<Rightarrow> nat \<Rightarrow> bool" where
  "ram_covers p lo hi \<longleftrightarrow> (\<exists>r\<in>set (pp_ram p). lo \<ge> fst r \<and> hi \<le> snd r)"

definition phys_is_ram :: "page_pool \<Rightarrow> nat \<Rightarrow> bool" where
  "phys_is_ram p phys = ram_covers p phys (phys + FRAME_BYTES)"

definition phys_pool_span_pages :: "page_pool \<Rightarrow> nat" where
  "phys_pool_span_pages p =
    (let tp = fold (\<lambda>r tp. if snd r > tp then snd r else tp) (pp_ram p) 0
     in if tp \<le> USER_PHYS_BASE then 0 else ((tp - USER_PHYS_BASE) div FRAME_BYTES) mod 2 ^ 32)"

definition phys_ram_frames :: "page_pool \<Rightarrow> nat" where
  "phys_ram_frames p = fold (\<lambda>r f. f + (snd r - fst r) div FRAME_BYTES) (pp_ram p) 0"

definition ram_next_fit :: "page_pool \<Rightarrow> nat \<Rightarrow> nat \<Rightarrow> nat" where
  "ram_next_fit p base len =
    (let best = fold (\<lambda>r best. let lo = (if fst r > base then fst r else base)
                               in if lo + len \<le> snd r \<and> lo < best then lo else best)
                     (pp_ram p) (2 ^ 64 - 1)
     in if best = 2 ^ 64 - 1 then base else best)"

section \<open>Placement at boot\<close>

text \<open>The boot modules by start and end.  They lie in RAM, far below \<open>2 ^ 64\<close>, so the rounding of
  their ends to whole pages does not wrap.\<close>

type_synonym boot_modules = "(nat \<times> nat) list"

definition mod_start :: "nat \<times> nat \<Rightarrow> nat" where
  "mod_start m = align_down FRAME_BYTES (fst m)"

definition mod_end :: "nat \<times> nat \<Rightarrow> nat" where
  "mod_end m = align_to FRAME_BYTES (snd m)"

definition phys_in_boot_module :: "boot_modules \<Rightarrow> nat \<Rightarrow> bool" where
  "phys_in_boot_module ms phys \<longleftrightarrow> (\<exists>m\<in>set ms. phys \<ge> mod_start m \<and> phys < mod_end m)"

text \<open>One module of a pass, and one pass of the loop that raises the base of the
  reserves above whatever is in the way.\<close>

definition dodge_module :: "nat \<Rightarrow> nat \<times> nat \<Rightarrow> bool \<times> nat \<Rightarrow> bool \<times> nat" where
  "dodge_module len m st =
    (let (moved, base) = st in
     if mod_start m < base + len \<and> mod_end m > base then (True, mod_end m) else st)"

definition reserve_pass :: "page_pool \<Rightarrow> boot_modules \<Rightarrow> nat \<Rightarrow> nat \<Rightarrow> bool \<times> nat" where
  "reserve_pass p ms len base =
    (let (moved, b1) = fold (dodge_module len) ms (False, base);
         fit = ram_next_fit p b1 len
     in if fit \<noteq> b1 then (True, fit) else (moved, b1))"

primrec reserve_loop :: "nat \<Rightarrow> page_pool \<Rightarrow> boot_modules \<Rightarrow> nat \<Rightarrow> nat \<Rightarrow> nat" where
  "reserve_loop 0 p ms len base = base"
| "reserve_loop (Suc n) p ms len base =
    (let (moved, b) = reserve_pass p ms len base in if moved then reserve_loop n p ms len b else b)"

definition pool_reserve_base :: "page_pool \<Rightarrow> boot_modules \<Rightarrow> nat" where
  "pool_reserve_base p ms =
     reserve_loop (length ms + length (pp_ram p) + 2) p ms (POOL_RESERVE_PAGES * FRAME_BYTES) USER_PHYS_BASE"

text \<open>The module that overlaps \<open>[lo, tp)\<close>, as the inner loop finds it: the first, and
  none once a clash is known.\<close>

definition meta_clash :: "nat \<Rightarrow> nat \<Rightarrow> boot_modules \<Rightarrow> nat \<Rightarrow> nat \<Rightarrow> nat" where
  "meta_clash res_lo res_hi ms lo tp =
    (let c0 = (if lo < res_hi \<and> tp > res_lo then res_lo else 0)
     in fold (\<lambda>m c. if c = 0 \<and> lo < mod_end m \<and> tp > mod_start m then mod_start m else c) ms c0)"

lemma meta_clash_less:
  assumes "meta_clash res_lo res_hi ms lo tp \<noteq> 0"
  shows "meta_clash res_lo res_hi ms lo tp < tp"
proof -
  have "(c \<noteq> 0 \<longrightarrow> c < tp) \<Longrightarrow>
    fold (\<lambda>m c. if c = 0 \<and> lo < mod_end m \<and> tp > mod_start m then mod_start m else c) ms c \<noteq> 0 \<Longrightarrow>
    fold (\<lambda>m c. if c = 0 \<and> lo < mod_end m \<and> tp > mod_start m then mod_start m else c) ms c < tp" for c
    by (induction ms arbitrary: c) auto
  from this[of "if lo < res_hi \<and> tp > res_lo then res_lo else 0"] show ?thesis
    using assms by (auto simp: meta_clash_def Let_def)
qed

function meta_region :: "nat \<Rightarrow> nat \<Rightarrow> nat \<Rightarrow> boot_modules \<Rightarrow> nat \<Rightarrow> nat \<Rightarrow> nat option" where
  "meta_region bytes res_lo res_hi ms rbase tp =
    (if tp \<ge> rbase + bytes
     then let lo = tp - bytes; clash = meta_clash res_lo res_hi ms lo tp
          in if clash = 0 then Some lo else meta_region bytes res_lo res_hi ms rbase clash
     else None)"
  by auto
termination
  by (relation "measure (\<lambda>(b, l, h, ms, r, t). t)") (auto intro: meta_clash_less)

declare meta_region.simps [simp del]

definition pool_meta_place :: "page_pool \<Rightarrow> boot_modules \<Rightarrow> nat \<Rightarrow> nat \<Rightarrow> nat \<Rightarrow> nat" where
  "pool_meta_place p ms bytes res_lo res_hi =
    fold (\<lambda>r best. case meta_region bytes res_lo res_hi ms (fst r) (snd r) of
                     None \<Rightarrow> best | Some lo \<Rightarrow> if lo > best then lo else best) (pp_ram p) 0"

section \<open>Frames, loans and reference counts\<close>

definition pool_frame_index :: "page_pool \<Rightarrow> nat \<Rightarrow> nat option" where
  "pool_frame_index p phys =
    (if phys < USER_PHYS_BASE \<or> phys mod FRAME_BYTES \<noteq> 0 then None
     else let idx = (phys - USER_PHYS_BASE) div FRAME_BYTES in if idx < pp_pages p then Some idx else None)"

definition on_loan :: "page_pool \<Rightarrow> nat \<Rightarrow> bool" where
  "on_loan p idx \<longleftrightarrow> drop_bit (idx AND 31) (pp_loan p (drop_bit 5 idx)) AND 1 \<noteq> 0"

definition set_on_loan :: "nat \<Rightarrow> page_pool \<Rightarrow> page_pool" where
  "set_on_loan idx p = p\<lparr> pp_loan := (pp_loan p)(drop_bit 5 idx :=
     pp_loan p (drop_bit 5 idx) OR push_bit (idx AND 31) 1) \<rparr>"

definition clear_on_loan :: "nat \<Rightarrow> page_pool \<Rightarrow> page_pool" where
  "clear_on_loan idx p = p\<lparr> pp_loan := (pp_loan p)(drop_bit 5 idx :=
     pp_loan p (drop_bit 5 idx) AND NOT (push_bit (idx AND 31) 1)) \<rparr>"

definition set_refs :: "nat \<Rightarrow> 16 word \<Rightarrow> page_pool \<Rightarrow> page_pool" where
  "set_refs idx v p = p\<lparr> pp_refs := (pp_refs p)(idx := v) \<rparr>"

definition frame_phys :: "nat \<Rightarrow> nat" where
  "frame_phys i = USER_PHYS_BASE + i * FRAME_BYTES"

definition init_user_page_allocator :: "boot_modules \<Rightarrow> page_pool \<Rightarrow> (page_pool \<times> nat \<times> nat \<times> nat) option" where
  "init_user_page_allocator ms p0 =
    (let p = (if pp_ram p0 = [] then phys_note_ram USER_PHYS_BASE (pp_pages p0 * FRAME_BYTES) p0 else p0);
         n = pp_pages p;
         reserve_base = pool_reserve_base p ms;
         reserve_idx = (reserve_base - USER_PHYS_BASE) div FRAME_BYTES;
         reserve_end = reserve_idx + POOL_RESERVE_PAGES;
         reserve_top = reserve_base + POOL_RESERVE_PAGES * FRAME_BYTES
     in if reserve_end \<ge> n \<or> \<not> ram_covers p reserve_base reserve_top then None
        else let loan_words = (n + 31) div 32;
                 meta_bytes = align_to FRAME_BYTES (n * 4 + n * 2 + loan_words * 4);
                 meta_base = pool_meta_place p ms meta_bytes reserve_base reserve_top
             in if meta_base = 0 then None
                else let usable = (\<lambda>i. \<not> (i \<ge> reserve_idx \<and> i < reserve_end)
                                   \<and> \<not> (frame_phys i \<ge> meta_base \<and> frame_phys i < meta_base + meta_bytes)
                                   \<and> phys_is_ram p (frame_phys i)
                                   \<and> \<not> phys_in_boot_module ms (frame_phys i mod 2 ^ 32));
                         stack = fold (\<lambda>i st. if usable i then (frame_phys i mod 2 ^ 32) # st else st) (rev [0..<n]) []
                     in Some (p\<lparr> pp_stack := stack, pp_refs := (\<lambda>_. 0), pp_loan := (\<lambda>_. 0) \<rparr>,
                              reserve_base, meta_base, meta_bytes))"

definition alloc_user_physical_page :: "page_pool \<Rightarrow> nat \<times> page_pool" where
  "alloc_user_physical_page p =
    (case pp_stack p of
       [] \<Rightarrow> (0, p)
     | phys # rest \<Rightarrow>
         let p1 = p\<lparr> pp_stack := rest \<rparr> in
         (phys, case pool_frame_index p1 phys of
                  None \<Rightarrow> p1 | Some idx \<Rightarrow> set_on_loan idx (set_refs idx 1 p1)))"

definition free_user_physical_page :: "nat \<Rightarrow> page_pool \<Rightarrow> page_pool" where
  "free_user_physical_page phys p =
    (if phys = pp_zero_page p then p
     else case pool_frame_index p phys of
       None \<Rightarrow> p\<lparr> pp_refusals := pp_refusals p + 1 \<rparr>
     | Some idx \<Rightarrow>
         if \<not> on_loan p idx then p\<lparr> pp_refusals := pp_refusals p + 1 \<rparr>
         else let p1 = set_refs idx 0 (clear_on_loan idx p) in
              if length (pp_stack p1) < pp_pages p1
              then p1\<lparr> pp_stack := (phys mod 2 ^ 32) # pp_stack p1 \<rparr> else p1)"

definition page_ref_inc :: "nat \<Rightarrow> page_pool \<Rightarrow> page_pool" where
  "page_ref_inc phys p =
    (if phys < USER_PHYS_BASE then p
     else let idx = (phys - USER_PHYS_BASE) div FRAME_BYTES in
          if idx < pp_pages p then set_refs idx (pp_refs p idx + 1) p else p)"

definition page_ref_dec :: "nat \<Rightarrow> page_pool \<Rightarrow> int \<times> page_pool" where
  "page_ref_dec phys p =
    (if phys < USER_PHYS_BASE then (0, p)
     else let idx = (phys - USER_PHYS_BASE) div FRAME_BYTES in
          if idx < pp_pages p \<and> pp_refs p idx > 0
          then (uint (pp_refs p idx - 1), set_refs idx (pp_refs p idx - 1) p) else (0, p))"

text \<open>The \<open>int\<close> a 64-bit frame number is stored into.\<close>

definition int_of_frame :: "nat \<Rightarrow> int" where
  "int_of_frame x = (let y = x mod 2 ^ 32 in if y < 2 ^ 31 then int y else int y - 2 ^ 32)"

definition frame_index_int :: "nat \<Rightarrow> int" where
  "frame_index_int phys = int_of_frame (((phys + 2 ^ 64 - USER_PHYS_BASE) mod 2 ^ 64) div FRAME_BYTES)"

definition frame_pin_refcount :: "nat \<Rightarrow> page_pool \<Rightarrow> page_pool" where
  "frame_pin_refcount phys p =
    (let idx = frame_index_int phys in
     if idx \<ge> 0 \<and> idx < int (pp_pages p) \<and> pp_refs p (nat idx) = 0 then set_refs (nat idx) 1 p else p)"

definition frame_unpin_refcount :: "nat \<Rightarrow> page_pool \<Rightarrow> page_pool" where
  "frame_unpin_refcount phys p =
    (let idx = frame_index_int phys in
     if idx \<ge> 0 \<and> idx < int (pp_pages p) \<and> pp_refs p (nat idx) = 1 then set_refs (nat idx) 0 p else p)"

definition frame_map_refcount :: "nat \<Rightarrow> page_pool \<Rightarrow> 16 word" where
  "frame_map_refcount phys p =
    (if phys < USER_PHYS_BASE then 0
     else let idx = (phys - USER_PHYS_BASE) div FRAME_BYTES in
          if idx \<ge> pp_pages p then 0 else pp_refs p idx)"

definition refc_index :: "nat \<Rightarrow> nat \<Rightarrow> nat option" where
  "refc_index phys n_pages =
    (if phys < USER_PHYS_BASE then None
     else let idx = (phys - USER_PHYS_BASE) div FRAME_BYTES in if idx \<ge> n_pages then None else Some idx)"

definition rust_page_ref_inc :: "nat \<Rightarrow> page_pool \<Rightarrow> 16 word \<times> page_pool" where
  "rust_page_ref_inc phys p =
    (case refc_index phys (pp_pages p) of
       None \<Rightarrow> (0, p)
     | Some idx \<Rightarrow> let cur = pp_refs p idx; nxt = (if cur = 0xFFFF then 0xFFFF else cur + 1)
                   in (nxt, set_refs idx nxt p))"

definition rust_page_ref_dec :: "nat \<Rightarrow> page_pool \<Rightarrow> int \<times> page_pool" where
  "rust_page_ref_dec phys p =
    (case refc_index phys (pp_pages p) of
       None \<Rightarrow> (-1, p)
     | Some idx \<Rightarrow> let cur = pp_refs p idx in
         if cur = 0 then (-2, p) else (uint (cur - 1), set_refs idx (cur - 1) p))"

definition user_leaf_release :: "nat \<Rightarrow> page_pool \<Rightarrow> page_pool" where
  "user_leaf_release phys p =
    (let (refs, p1) = rust_page_ref_dec (phys mod 2 ^ 32) p
     in if refs = 0 then free_user_physical_page phys p1 else p1)"

section \<open>Lemmas on the loan bits\<close>

lemma loan_word: "drop_bit 5 i = i div 32" and loan_bit: "(i::nat) AND 31 = i mod 32"
proof -
  have m: "(31::nat) = mask 5" by (simp add: mask_eq_exp_minus_1)
  show "(i::nat) AND 31 = i mod 32" unfolding m take_bit_eq_mask[symmetric] by (simp add: take_bit_eq_mod)
qed (simp add: drop_bit_eq_div)

lemma on_loan_bit: "on_loan p i \<longleftrightarrow> bit (pp_loan p (i div 32)) (i mod 32)"
  by (simp add: on_loan_def loan_word loan_bit bit_iff_odd_drop_bit and_one_eq odd_iff_mod_2_eq_one)

lemma same_frame: "(i::nat) div 32 = j div 32 \<Longrightarrow> i mod 32 = j mod 32 \<Longrightarrow> i = j"
  by (metis div_mult_mod_eq)

lemma on_loan_set: "on_loan (set_on_loan i p) j \<longleftrightarrow> j = i \<or> on_loan p j"
  by (auto simp: on_loan_bit set_on_loan_def loan_word loan_bit bit_simps dest: same_frame)

lemma on_loan_clear: "on_loan (clear_on_loan i p) j \<longleftrightarrow> j \<noteq> i \<and> on_loan p j"
  by (auto simp: on_loan_bit clear_on_loan_def loan_word loan_bit bit_simps dest: same_frame)

lemma loan_sel [simp]:
  "pp_stack (set_on_loan i p) = pp_stack p" "pp_pages (set_on_loan i p) = pp_pages p"
  "pp_stack (clear_on_loan i p) = pp_stack p" "pp_pages (clear_on_loan i p) = pp_pages p"
  "pp_stack (set_refs i v p) = pp_stack p" "pp_pages (set_refs i v p) = pp_pages p"
  "pp_refs (set_on_loan i p) = pp_refs p" "pp_refs (clear_on_loan i p) = pp_refs p"
  "pp_refs (set_refs i v p) = (pp_refs p)(i := v)" "on_loan (set_refs i v p) = on_loan p"
  "pp_zero_page (set_refs i v p) = pp_zero_page p"
  by (auto simp: set_on_loan_def clear_on_loan_def set_refs_def on_loan_def fun_eq_iff)

lemma on_loan_stack [simp]: "on_loan (p\<lparr> pp_stack := st \<rparr>) = on_loan p"
  "on_loan (p\<lparr> pp_refusals := n \<rparr>) = on_loan p"
  by (auto simp: on_loan_def fun_eq_iff)

lemma pool_frame_index_cong: "pp_pages q = pp_pages p \<Longrightarrow> pool_frame_index q = pool_frame_index p"
  by (auto simp: pool_frame_index_def fun_eq_iff)

lemma frame_offset_aligned:
  assumes "USER_PHYS_BASE \<le> phys" "phys mod FRAME_BYTES = 0"
  shows "(phys - USER_PHYS_BASE) mod FRAME_BYTES = 0"
proof -
  have "FRAME_BYTES dvd phys" "FRAME_BYTES dvd USER_PHYS_BASE" using assms(2) by (simp_all add: mod_eq_0_iff_dvd)
  thus ?thesis by (simp add: dvd_diff_nat mod_eq_0_iff_dvd del: dvd_numeral_simp)
qed

lemma pool_frame_index_Some:
  "pool_frame_index p phys = Some i \<longleftrightarrow> i < pp_pages p \<and> phys = frame_phys i"
proof
  assume "pool_frame_index p phys = Some i"
  hence p: "USER_PHYS_BASE \<le> phys" "phys mod FRAME_BYTES = 0"
    "i = (phys - USER_PHYS_BASE) div FRAME_BYTES" "i < pp_pages p"
    by (auto simp: pool_frame_index_def Let_def split: if_splits)
  have "(phys - USER_PHYS_BASE) mod FRAME_BYTES = 0" using frame_offset_aligned[OF p(1,2)] .
  hence "(phys - USER_PHYS_BASE) div FRAME_BYTES * FRAME_BYTES = phys - USER_PHYS_BASE"
    by (simp add: dvd_div_mult_self mod_eq_0_iff_dvd)
  thus "i < pp_pages p \<and> phys = frame_phys i" using p by (simp add: frame_phys_def)
next
  assume "i < pp_pages p \<and> phys = frame_phys i"
  thus "pool_frame_index p phys = Some i" by (simp add: pool_frame_index_def frame_phys_def)
qed

lemma frame_phys_inj [simp]: "frame_phys i = frame_phys j \<longleftrightarrow> i = j"
  by (simp add: frame_phys_def)

lemma frame_phys_32: "i < USER_PHYS_PAGES_MAX \<Longrightarrow> frame_phys i mod 2 ^ 32 = frame_phys i"
  by (simp add: frame_phys_def)

section \<open>The invariant\<close>

text \<open>Every address on the free stack is a frame of the pool that is not on loan, and
  none is there twice.\<close>

definition frames_ok :: "page_pool \<Rightarrow> bool" where
  "frames_ok p \<longleftrightarrow> pp_pages p \<le> USER_PHYS_PAGES_MAX \<and> distinct (pp_stack p)
     \<and> (\<forall>a\<in>set (pp_stack p). \<exists>i<pp_pages p. a = frame_phys i \<and> \<not> on_loan p i)"

lemma frames_okD:
  assumes "frames_ok p"
  shows "pp_pages p \<le> USER_PHYS_PAGES_MAX" "distinct (pp_stack p)"
    "\<And>a. a \<in> set (pp_stack p) \<Longrightarrow> \<exists>i<pp_pages p. a = frame_phys i \<and> \<not> on_loan p i"
  using assms by (auto simp: frames_ok_def)

lemma pool_stack_short:
  assumes ok: "frames_ok p" and i: "i < pp_pages p" "on_loan p i"
  shows "length (pp_stack p) < pp_pages p"
proof -
  have "set (pp_stack p) \<subseteq> frame_phys ` ({..<pp_pages p} - {i})"
    using frames_okD(3)[OF ok] i by fastforce
  hence "card (set (pp_stack p)) \<le> card ({..<pp_pages p} - {i})"
    by (meson card_image_le card_mono finite_Diff finite_imageI finite_lessThan order.trans)
  thus ?thesis using i frames_okD(2)[OF ok] by (simp add: distinct_card)
qed

lemma alloc_spec:
  assumes ok: "frames_ok p" and run: "alloc_user_physical_page p = (phys, q)"
  shows "pp_stack p = [] \<and> phys = 0 \<and> q = p \<or>
    (\<exists>i<pp_pages p. phys = frame_phys i \<and> \<not> on_loan p i \<and> frames_ok q
       \<and> pp_stack p = phys # pp_stack q \<and> pp_refs q = (pp_refs p)(i := 1)
       \<and> (\<forall>j. on_loan q j \<longleftrightarrow> j = i \<or> on_loan p j))"
proof (cases "pp_stack p")
  case Nil
  thus ?thesis using run by (simp add: alloc_user_physical_page_def)
next
  case (Cons a rest)
  obtain i where i: "i < pp_pages p" "a = frame_phys i" "\<not> on_loan p i"
    using frames_okD(3)[OF ok, of a] Cons by auto
  have "pool_frame_index (p\<lparr> pp_stack := rest \<rparr>) a = Some i"
    using i by (simp add: pool_frame_index_Some)
  hence q: "phys = a" "q = set_on_loan i (set_refs i 1 (p\<lparr> pp_stack := rest \<rparr>))"
    using run Cons by (auto simp: alloc_user_physical_page_def Let_def)
  have "frames_ok q" using ok Cons i unfolding frames_ok_def
    by (auto simp: q on_loan_set)
  thus ?thesis using i q Cons by (auto simp: on_loan_set)
qed

lemma free_spec:
  assumes ok: "frames_ok p"
  shows "free_user_physical_page phys p = p
    \<or> free_user_physical_page phys p = p\<lparr> pp_refusals := pp_refusals p + 1 \<rparr>
      \<and> (\<forall>i<pp_pages p. phys = frame_phys i \<longrightarrow> \<not> on_loan p i)
    \<or> (\<exists>i<pp_pages p. phys = frame_phys i \<and> on_loan p i \<and> phys \<noteq> pp_zero_page p
        \<and> frames_ok (free_user_physical_page phys p)
        \<and> pp_stack (free_user_physical_page phys p) = phys # pp_stack p
        \<and> pp_refs (free_user_physical_page phys p) = (pp_refs p)(i := 0)
        \<and> (\<forall>j. on_loan (free_user_physical_page phys p) j \<longleftrightarrow> j \<noteq> i \<and> on_loan p j))"
proof (cases "phys = pp_zero_page p")
  case True thus ?thesis by (simp add: free_user_physical_page_def)
next
  case nz: False
  show ?thesis
  proof (cases "\<exists>i<pp_pages p. phys = frame_phys i \<and> on_loan p i")
    case False
    have "\<not> on_loan p i" if "pool_frame_index p phys = Some i" for i
      using that False by (auto simp: pool_frame_index_Some)
    hence "free_user_physical_page phys p = p\<lparr> pp_refusals := pp_refusals p + 1 \<rparr>"
      using nz by (simp add: free_user_physical_page_def split: option.split)
    thus ?thesis using False by blast
  next
    case True
    then obtain i where i: "i < pp_pages p" "phys = frame_phys i" "on_loan p i" by blast
    let ?q = "free_user_physical_page phys p"
    have ix: "pool_frame_index p phys = Some i" using i by (simp add: pool_frame_index_Some)
    have m: "phys mod 2 ^ 32 = phys" using i frames_okD(1)[OF ok] frame_phys_32 by simp
    have q: "?q = (set_refs i 0 (clear_on_loan i p))\<lparr> pp_stack := phys # pp_stack p \<rparr>"
      using nz ix i pool_stack_short[OF ok i(1,3)] m by (simp add: free_user_physical_page_def Let_def)
    have "phys \<notin> set (pp_stack p)" using frames_okD(3)[OF ok, of phys] i by auto
    hence "frames_ok ?q" unfolding q using ok i by (auto simp: frames_ok_def on_loan_clear)
    thus ?thesis using i nz unfolding q by (auto simp: on_loan_clear)
  qed
qed

section \<open>Placement\<close>

lemma ram_next_fit_cases:
  "ram_next_fit p base len = base \<or> (ram_next_fit p base len > base \<and> (\<exists>r\<in>set (pp_ram p). ram_next_fit p base len = fst r))"
proof -
  define f where "f = (\<lambda>r best. let lo = (if fst r > base then fst r else base)
                       in if lo + len \<le> snd r \<and> lo < best then lo else (best::nat))"
  have inv: "fold f xs b = b \<or> fold f xs b = base \<or> (fold f xs b > base \<and> (\<exists>r\<in>set xs. fold f xs b = fst r))"
    for xs :: "(nat \<times> nat) list" and b
  proof (induction xs arbitrary: b)
    case (Cons r xs)
    have "f r b = b \<or> f r b = base \<or> f r b = fst r \<and> fst r > base" by (auto simp: f_def Let_def)
    thus ?case using Cons[of "f r b"] by auto
  qed simp
  have "ram_next_fit p base len = (let b = fold f (pp_ram p) (2 ^ 64 - 1) in if b = 2 ^ 64 - 1 then base else b)"
    unfolding ram_next_fit_def f_def by (rule refl)
  thus ?thesis using inv[of "pp_ram p" "2 ^ 64 - 1"] by (auto simp: Let_def)
qed

lemma dodge_fold:
  assumes "fold (dodge_module len) ms (mv, base) = (mv', b)"
  shows "b \<ge> base \<and> (mv' \<longrightarrow> mv \<or> b > base \<and> b \<in> mod_end ` set ms)
     \<and> (\<not> mv' \<longrightarrow> \<not> mv \<and> b = base \<and> (\<forall>m\<in>set ms. mod_start m \<ge> base + len \<or> mod_end m \<le> base))
     \<and> (b = base \<or> b \<in> mod_end ` set ms)"
  using assms
proof (induction ms arbitrary: mv base)
  case (Cons m ms)
  show ?case
  proof (cases "mod_start m < base + len \<and> mod_end m > base")
    case True
    hence "dodge_module len m (mv, base) = (True, mod_end m)" by (simp add: dodge_module_def)
    thus ?thesis using Cons.IH[of True "mod_end m"] Cons.prems True by auto
  next
    case False
    hence "dodge_module len m (mv, base) = (mv, base)" by (auto simp: dodge_module_def)
    hence "fold (dodge_module len) ms (mv, base) = (mv', b)" using Cons.prems by simp
    thus ?thesis using Cons.IH[of mv base] False by auto
  qed
qed auto

lemma reserve_pass_moved:
  assumes "reserve_pass p ms len base = (True, b)"
  shows "b > base \<and> b \<in> mod_end ` set ms \<union> fst ` set (pp_ram p)"
proof -
  obtain mv b1 where f: "fold (dodge_module len) ms (False, base) = (mv, b1)" by (metis prod.exhaust)
  note d = dodge_fold[OF f]
  show ?thesis
  proof (cases "ram_next_fit p b1 len = b1")
    case True
    thus ?thesis using assms d by (auto simp: reserve_pass_def f Let_def)
  next
    case False
    hence "b = ram_next_fit p b1 len" using assms by (auto simp: reserve_pass_def f Let_def)
    thus ?thesis using False ram_next_fit_cases[of p b1 len] d by auto
  qed
qed

lemma reserve_pass_still:
  assumes "reserve_pass p ms len base = (False, b)"
  shows "b = base \<and> (\<forall>m\<in>set ms. mod_start m \<ge> base + len \<or> mod_end m \<le> base) \<and> ram_next_fit p base len = base"
proof -
  obtain mv b1 where f: "fold (dodge_module len) ms (False, base) = (mv, b1)" by (metis prod.exhaust)
  show ?thesis using assms dodge_fold[OF f] by (auto simp: reserve_pass_def f Let_def split: if_splits)
qed

text \<open>The loop settles before its bound: every pass that moves the base raises it to
  the end of a module or the start of a region, and there are not that many.\<close>

lemma reserve_loop_settles:
  assumes "card {v \<in> mod_end ` set ms \<union> fst ` set (pp_ram p). v > base} < n"
  shows "\<exists>b \<ge> base. reserve_loop n p ms len base = b \<and> reserve_pass p ms len b = (False, b)"
  using assms
proof (induction n arbitrary: base)
  case (Suc n)
  let ?V = "mod_end ` set ms \<union> fst ` set (pp_ram p)"
  obtain mv b where r: "reserve_pass p ms len base = (mv, b)" by (metis prod.exhaust)
  show ?case
  proof (cases mv)
    case False
    thus ?thesis using r reserve_pass_still[of p ms len base b] by auto
  next
    case True
    have b: "b > base" "b \<in> ?V" using reserve_pass_moved[of p ms len base b] r True by auto
    have "{v \<in> ?V. v > b} \<subset> {v \<in> ?V. v > base}" using b by auto
    hence "card {v \<in> ?V. v > b} < card {v \<in> ?V. v > base}" by (intro psubset_card_mono) auto
    hence "card {v \<in> ?V. v > b} < n" using Suc.prems by simp
    then obtain c where "c \<ge> b" "reserve_loop n p ms len b = c" "reserve_pass p ms len c = (False, c)"
      using Suc.IH by blast
    thus ?thesis using r True b(1) by (auto intro!: exI[of _ c])
  qed
qed simp

section \<open>RAM regions\<close>

definition ram_ok :: "page_pool \<Rightarrow> bool" where
  "ram_ok p \<longleftrightarrow> (\<forall>r\<in>set (pp_ram p). fst r mod FRAME_BYTES = 0 \<and> snd r mod FRAME_BYTES = 0 \<and> fst r < snd r
     \<and> USER_PHYS_BASE \<le> fst r \<and> snd r \<le> PHYS_POOL_CEIL)"

lemma align_to_mod: "0 < a \<Longrightarrow> align_to a x mod a = 0" and align_down_mod: "0 < a \<Longrightarrow> align_down a x mod a = 0"
  by (simp_all add: align_to_def align_down_def)

lemma align_to_ge: "0 < a \<Longrightarrow> x \<le> align_to a x" and align_down_le: "align_down a x \<le> x"
proof -
  assume a: "0 < a"
  have "x + (a - 1) < (x + (a - 1)) div a * a + a" using dividend_less_div_times[OF a, of "x + (a - 1)"] by simp
  thus "x \<le> align_to a x" unfolding align_to_def using a by linarith
qed (simp add: align_down_def)

lemma align_frame_of_chunk: "align_to CHUNK_2M x mod FRAME_BYTES = 0" "align_down CHUNK_2M x mod FRAME_BYTES = 0"
proof -
  have "(y * CHUNK_2M) mod FRAME_BYTES = 0" for y by (simp add: mod_mult_right_eq[symmetric])
  thus "align_to CHUNK_2M x mod FRAME_BYTES = 0" "align_down CHUNK_2M x mod FRAME_BYTES = 0"
    by (simp_all add: align_to_def align_down_def)
qed

lemma ram_add_ok:
  assumes "ram_ok p" "base mod FRAME_BYTES = 0" "en mod FRAME_BYTES = 0" "USER_PHYS_BASE \<le> base" "en \<le> PHYS_POOL_CEIL"
  shows "ram_ok (ram_add base en p)"
  using assms by (auto simp: ram_add_def ram_ok_def)

lemma phys_note_ram_ok:
  assumes ok: "ram_ok p" and nw: "base + 4095 < 2 ^ 64"
  shows "ram_ok (phys_note_ram base len p)"
proof -
  define e0 where "e0 = (if (base + len) mod 2 ^ 64 < base then 2 ^ 64 - 1 else (base + len) mod 2 ^ 64)"
  define b where "b = align_to FRAME_BYTES (if base < USER_PHYS_BASE then USER_PHYS_BASE else base) mod 2 ^ 64"
  define e where "e = align_down FRAME_BYTES (if e0 > PHYS_POOL_CEIL then PHYS_POOL_CEIL else e0)"
  have e: "e \<le> PHYS_POOL_CEIL" "e mod FRAME_BYTES = 0"
    using align_down_le[of FRAME_BYTES "if e0 > PHYS_POOL_CEIL then PHYS_POOL_CEIL else e0"]
    by (auto simp: e_def align_down_mod split: if_splits)
  show ?thesis
  proof (cases "b \<ge> e")
    case True
    thus ?thesis
      using ok unfolding phys_note_ram_def Let_def e0_def[symmetric] b_def[symmetric] e_def[symmetric] by simp
  next
    case be: False
    have bm: "b mod FRAME_BYTES = 0"
    proof -
      have "align_to FRAME_BYTES x mod 2 ^ 64 mod FRAME_BYTES = 0" for x
        using align_to_mod[of FRAME_BYTES x] by (simp add: mod_mod_cancel)
      thus ?thesis by (simp add: b_def)
    qed
    define b' where "b' = (if base < USER_PHYS_BASE then USER_PHYS_BASE else base)"
    have "align_to FRAME_BYTES b' \<le> b' + 4095" using div_times_less_eq_dividend[of "b' + 4095" FRAME_BYTES]
      by (simp add: align_to_def)
    also have "\<dots> < 2 ^ 64" using nw by (simp add: b'_def)
    finally have "align_to FRAME_BYTES b' < 2 ^ 64" .
    hence "b = align_to FRAME_BYTES b'" by (simp add: b_def b'_def)
    hence bl: "USER_PHYS_BASE \<le> b" using align_to_ge[of FRAME_BYTES b'] by (simp add: b'_def split: if_splits)
    define q where "q = (if b < PHYS_KVA_FLAT_CEIL
        then (ram_add b (if e < PHYS_KVA_FLAT_CEIL then e else PHYS_KVA_FLAT_CEIL) p, PHYS_KVA_FLAT_CEIL) else (p, b))"
    have q1: "ram_ok (fst q)" using ok bm bl e by (auto simp: q_def intro!: ram_add_ok)
    have q2: "USER_PHYS_BASE \<le> snd q" using bl by (simp add: q_def)
    have "phys_note_ram base len p =
        (if e > PHYS_KVA_FLAT_CEIL then ram_add (align_to CHUNK_2M (snd q)) (align_down CHUNK_2M e) (fst q) else fst q)"
      using be unfolding phys_note_ram_def Let_def e0_def[symmetric] b_def[symmetric] e_def[symmetric] q_def[symmetric]
      by (simp add: split_beta)
    thus ?thesis
      using q1 q2 e align_to_ge[of CHUNK_2M "snd q"] align_down_le[of CHUNK_2M e]
      by (auto intro!: ram_add_ok simp: align_frame_of_chunk)
  qed
qed

section \<open>Initialisation\<close>

lemma reserve_loop_in:
  "reserve_loop n p ms len base = base \<or> reserve_loop n p ms len base \<in> mod_end ` set ms \<union> fst ` set (pp_ram p)"
proof (induction n arbitrary: base)
  case (Suc n)
  obtain mv b where r: "reserve_pass p ms len base = (mv, b)" by (metis prod.exhaust)
  show ?case
    using Suc[of b] r reserve_pass_moved[of p ms len base b] reserve_pass_still[of p ms len base b]
    by (cases mv) auto
qed simp

lemma reserve_base_aligned:
  assumes "ram_ok p"
  shows "pool_reserve_base p ms mod FRAME_BYTES = 0"
proof -
  let ?n = "length ms + length (pp_ram p) + 2"
  let ?r = "reserve_loop ?n p ms (POOL_RESERVE_PAGES * FRAME_BYTES) USER_PHYS_BASE"
  consider "?r = USER_PHYS_BASE" | m where "?r = mod_end m" | r where "r \<in> set (pp_ram p)" "?r = fst r"
    using reserve_loop_in[of ?n p ms "POOL_RESERVE_PAGES * FRAME_BYTES" USER_PHYS_BASE] by auto
  thus ?thesis unfolding pool_reserve_base_def
    using assms by cases (auto simp: mod_end_def align_to_mod ram_ok_def)
qed

lemma fold_push: "fold (\<lambda>i st. if P i then f i # st else st) (rev xs) st = map f (filter P xs) @ st"
  by (induction xs arbitrary: st) (auto simp: fold_append)

lemma meta_clash_none:
  assumes "meta_clash res_lo res_hi ms lo tp = 0" "res_lo \<noteq> 0" "\<forall>m\<in>set ms. mod_start m \<noteq> 0"
  shows "(res_hi \<le> lo \<or> tp \<le> res_lo) \<and> (\<forall>m\<in>set ms. mod_end m \<le> lo \<or> tp \<le> mod_start m)"
proof -
  define f where "f = (\<lambda>m c. if c = 0 \<and> lo < mod_end m \<and> tp > mod_start m then mod_start m else (c::nat))"
  have none: "c = 0 \<and> (\<forall>m\<in>set xs. mod_end m \<le> lo \<or> tp \<le> mod_start m)"
    if "fold f xs c = 0" "\<forall>m\<in>set xs. mod_start m \<noteq> 0" for xs c
    using that
  proof (induction xs arbitrary: c)
    case (Cons m xs)
    have "f m c = 0" "\<forall>m\<in>set xs. mod_end m \<le> lo \<or> tp \<le> mod_start m" using Cons.IH[of "f m c"] Cons.prems by auto
    moreover have "c = 0 \<and> (mod_end m \<le> lo \<or> tp \<le> mod_start m)"
      using calculation(1) Cons.prems(2) by (cases "c = 0 \<and> lo < mod_end m \<and> tp > mod_start m") (auto simp: f_def)
    ultimately show ?case by simp
  qed simp
  define c0 where "c0 = (if lo < res_hi \<and> tp > res_lo then res_lo else 0)"
  have "fold f ms c0 = 0" using assms(1) by (simp add: meta_clash_def f_def c0_def)
  from none[OF this assms(3)] show ?thesis using assms(2) by (auto simp: c0_def split: if_splits)
qed

lemma meta_region_Some:
  assumes "meta_region bytes res_lo res_hi ms rbase tp = Some lo"
  shows "rbase \<le> lo \<and> lo + bytes \<le> tp \<and> meta_clash res_lo res_hi ms lo (lo + bytes) = 0"
  using assms
proof (induction bytes res_lo res_hi ms rbase tp rule: meta_region.induct)
  case (1 bytes res_lo res_hi ms rbase tp)
  define cl where "cl = meta_clash res_lo res_hi ms (tp - bytes) tp"
  show ?case
  proof (cases "tp \<ge> rbase + bytes \<and> cl \<noteq> 0")
    case True
    hence "meta_region bytes res_lo res_hi ms rbase cl = Some lo"
      using 1(2) by (simp add: meta_region.simps[of _ _ _ _ _ tp] Let_def cl_def)
    hence "rbase \<le> lo \<and> lo + bytes \<le> cl \<and> meta_clash res_lo res_hi ms lo (lo + bytes) = 0"
      using 1(1)[of "tp - bytes" cl] True by (simp add: cl_def)
    moreover have "cl < tp" using True meta_clash_less by (simp add: cl_def)
    ultimately show ?thesis by simp
  next
    case False
    thus ?thesis using 1(2)
      by (auto simp: meta_region.simps[of _ _ _ _ _ tp] Let_def cl_def[symmetric] split: if_splits)
  qed
qed

lemma pool_meta_place_clear:
  assumes "pool_meta_place p ms bytes res_lo res_hi = lo" "lo \<noteq> 0"
  shows "meta_clash res_lo res_hi ms lo (lo + bytes) = 0 \<and> ram_covers p lo (lo + bytes)"
proof -
  define f where "f = (\<lambda>r best. case meta_region bytes res_lo res_hi ms (fst r) (snd r) of
                     None \<Rightarrow> best | Some lo \<Rightarrow> if lo > best then lo else best)"
  have out: "fold f xs b = b \<or> (\<exists>r\<in>set xs. meta_region bytes res_lo res_hi ms (fst r) (snd r) = Some (fold f xs b))"
    for xs :: "(nat \<times> nat) list" and b
  proof (induction xs arbitrary: b)
    case (Cons r xs)
    have "f r b = b \<or> meta_region bytes res_lo res_hi ms (fst r) (snd r) = Some (f r b)"
      by (auto simp: f_def split: option.splits)
    thus ?case using Cons[of "f r b"] by auto
  qed simp
  have "fold f (pp_ram p) 0 = lo" using assms(1) by (simp add: pool_meta_place_def f_def)
  then obtain r where r: "r \<in> set (pp_ram p)" "meta_region bytes res_lo res_hi ms (fst r) (snd r) = Some lo"
    using out[of "pp_ram p" 0] assms(2) by auto
  show ?thesis using meta_region_Some[OF r(2)] r(1) by (auto simp: ram_covers_def)
qed

lemma reserve_base_settles:
  "USER_PHYS_BASE \<le> pool_reserve_base p ms"
  "reserve_pass p ms (POOL_RESERVE_PAGES * FRAME_BYTES) (pool_reserve_base p ms) = (False, pool_reserve_base p ms)"
proof -
  let ?V = "mod_end ` set ms \<union> fst ` set (pp_ram p)"
  have "card {v \<in> ?V. v > USER_PHYS_BASE} \<le> card ?V" by (intro card_mono) auto
  also have "\<dots> \<le> length ms + length (pp_ram p)"
    by (metis (no_types, lifting) card_Un_le card_length length_map list.set_map add_mono order.trans)
  finally have "card {v \<in> ?V. v > USER_PHYS_BASE} < length ms + length (pp_ram p) + 2" by simp
  from reserve_loop_settles[OF this, of "POOL_RESERVE_PAGES * FRAME_BYTES"]
  show "USER_PHYS_BASE \<le> pool_reserve_base p ms"
    "reserve_pass p ms (POOL_RESERVE_PAGES * FRAME_BYTES) (pool_reserve_base p ms) = (False, pool_reserve_base p ms)"
    by (auto simp: pool_reserve_base_def)
qed

section \<open>The pool boot sets up\<close>

lemma init_form:
  assumes run: "init_user_page_allocator ms p0 = Some (q, rb, mb, mby)"
    and p: "p = (if pp_ram p0 = [] then phys_note_ram USER_PHYS_BASE (pp_pages p0 * FRAME_BYTES) p0 else p0)"
  shows "rb = pool_reserve_base p ms"
    "mb = pool_meta_place p ms mby rb (rb + POOL_RESERVE_PAGES * FRAME_BYTES)" "mb \<noteq> 0"
    "pp_stack q = map (\<lambda>i. frame_phys i mod 2 ^ 32) (filter (\<lambda>i.
        \<not> (i \<ge> (rb - USER_PHYS_BASE) div FRAME_BYTES \<and> i < (rb - USER_PHYS_BASE) div FRAME_BYTES + POOL_RESERVE_PAGES)
        \<and> \<not> (frame_phys i \<ge> mb \<and> frame_phys i < mb + mby)
        \<and> phys_is_ram p (frame_phys i) \<and> \<not> phys_in_boot_module ms (frame_phys i mod 2 ^ 32)) [0..<pp_pages p])"
    "pp_pages q = pp_pages p" "pp_ram q = pp_ram p" "pp_loan q = (\<lambda>_. 0)"
  using run unfolding init_user_page_allocator_def p[symmetric] Let_def
  by (simp_all only: fold_push append_Nil2 option.simps prod.inject if_splits page_pool.simps simp_thms split: if_splits)
    (elim conjE, hypsubst, (rule refl | assumption | simp (no_asm)))+

lemma phys_note_ram_pages [simp]: "pp_pages (phys_note_ram b l p) = pp_pages p"
proof -
  have "pp_pages (ram_add b l p) = pp_pages p" for b l p by (simp add: ram_add_def)
  thus ?thesis unfolding phys_note_ram_def Let_def by (simp add: split_beta)
qed


lemma init_stack:
  assumes ram: "ram_ok p" and pg: "pp_pages p \<le> USER_PHYS_PAGES_MAX"
    and run: "init_user_page_allocator ms p0 = Some (q, rb, mb, mby)"
    and p: "p = (if pp_ram p0 = [] then phys_note_ram USER_PHYS_BASE (pp_pages p0 * FRAME_BYTES) p0 else p0)"
  obtains ri where "rb = frame_phys ri" "distinct (pp_stack q)"
    "\<And>a. a \<in> set (pp_stack q) \<Longrightarrow> \<exists>i<pp_pages p. a = frame_phys i \<and> \<not> (i \<ge> ri \<and> i < ri + POOL_RESERVE_PAGES)
        \<and> \<not> (a \<ge> mb \<and> a < mb + mby) \<and> phys_is_ram p a \<and> \<not> phys_in_boot_module ms a"
proof
  note f = init_form[OF run p]
  have m32: "frame_phys i mod 2 ^ 32 = frame_phys i" if "i < pp_pages p" for i
    using frame_phys_32 that pg by simp
  have rb: "USER_PHYS_BASE \<le> rb" "rb mod FRAME_BYTES = 0"
    using reserve_base_settles(1)[of p ms] reserve_base_aligned[OF ram, of ms] by (simp_all add: f(1))
  define ri where "ri = (rb - USER_PHYS_BASE) div FRAME_BYTES"
  have "ri * FRAME_BYTES = rb - USER_PHYS_BASE"
    using frame_offset_aligned[OF rb] by (simp add: ri_def dvd_div_mult_self mod_eq_0_iff_dvd)
  thus "rb = frame_phys ri" using rb(1) by (simp add: frame_phys_def)
  define U where "U = (\<lambda>i. \<not> (i \<ge> ri \<and> i < ri + POOL_RESERVE_PAGES) \<and> \<not> (frame_phys i \<ge> mb \<and> frame_phys i < mb + mby)
        \<and> phys_is_ram p (frame_phys i) \<and> \<not> phys_in_boot_module ms (frame_phys i mod 2 ^ 32))"
  have st: "pp_stack q = map frame_phys (filter U [0..<pp_pages p])"
    unfolding f(4) U_def ri_def by (rule map_cong[OF refl]) (use m32 in auto)
  show "distinct (pp_stack q)" unfolding st by (simp add: distinct_map inj_on_def)
  fix a assume "a \<in> set (pp_stack q)"
  hence "a \<in> frame_phys ` {i. i < pp_pages p \<and> U i}" by (auto simp: st)
  then obtain i where "i < pp_pages p" "a = frame_phys i" "U i" by blast
  thus "\<exists>i<pp_pages p. a = frame_phys i \<and> \<not> (i \<ge> ri \<and> i < ri + POOL_RESERVE_PAGES)
        \<and> \<not> (a \<ge> mb \<and> a < mb + mby) \<and> phys_is_ram p a \<and> \<not> phys_in_boot_module ms a"
    using m32[of i] unfolding U_def by metis
qed

lemma init_Some:
  assumes p: "p = (if pp_ram p0 = [] then phys_note_ram USER_PHYS_BASE (pp_pages p0 * FRAME_BYTES) p0 else p0)"
    and rb: "pool_reserve_base p ms = rb" and mby: "mby = align_to FRAME_BYTES (pp_pages p * 4 + pp_pages p * 2 + ((pp_pages p + 31) div 32) * 4)"
    and mb: "pool_meta_place p ms mby rb (rb + POOL_RESERVE_PAGES * FRAME_BYTES) = mb" "mb \<noteq> 0"
    and fits: "(rb - USER_PHYS_BASE) div FRAME_BYTES + POOL_RESERVE_PAGES < pp_pages p"
      "ram_covers p rb (rb + POOL_RESERVE_PAGES * FRAME_BYTES)"
  shows "\<exists>q. init_user_page_allocator ms p0 = Some (q, rb, mb, mby)"
  using mb fits unfolding init_user_page_allocator_def p[symmetric] Let_def rb mby[symmetric] by simp


lemma note_ram_wraps:
  "pp_ram (phys_note_ram (2 ^ 64 - 100) 50 p) = pp_ram p @ [(0, 0x40000000), (0x40000000, 0x100000000)]"
  if "length (pp_ram p) < 31"
  using that by (simp add: phys_note_ram_def ram_add_def align_to_def align_down_def Let_def)

section \<open>Runs of the pool\<close>

datatype pool_op = PAlloc | PFree nat

text \<open>A run of the pool's two operations, keeping the frames that are out: an
  allocation adds the frame it returned, a free that was not refused removes it.\<close>

fun pool_step :: "pool_op \<Rightarrow> page_pool \<times> nat list \<Rightarrow> page_pool \<times> nat list" where
  "pool_step PAlloc (p, held) = (let (phys, q) = alloc_user_physical_page p in (q, if phys = 0 then held else phys # held))"
| "pool_step (PFree phys) (p, held) = (let q = free_user_physical_page phys p in
     (q, if length (pp_stack q) > length (pp_stack p) then remove1 phys held else held))"

definition lent :: "page_pool \<Rightarrow> nat set" where
  "lent p = frame_phys ` {i. i < pp_pages p \<and> on_loan p i}"

lemma alloc_pages [simp]: "pp_pages (snd (alloc_user_physical_page p)) = pp_pages p"
  by (auto simp: alloc_user_physical_page_def Let_def split: list.splits option.splits)

lemma free_pages [simp]: "pp_pages (free_user_physical_page a p) = pp_pages p"
  by (auto simp: free_user_physical_page_def Let_def split: option.splits)

lemma frame_phys_nonzero [simp]: "frame_phys i \<noteq> 0"
  by (simp add: frame_phys_def)

lemma frames_ok_refusals: "frames_ok p \<Longrightarrow> frames_ok (p\<lparr> pp_refusals := n \<rparr>)"
  by (simp add: frames_ok_def)

lemma pool_step_alloc:
  assumes ok: "frames_ok p" and h: "set held = lent p"
    and run: "pool_step PAlloc (p, held) = (q, held')"
  shows "frames_ok q \<and> set held' = lent q \<and> mset held' + mset (pp_stack q) = mset held + mset (pp_stack p)"
proof -
  obtain phys where r: "alloc_user_physical_page p = (phys, q)"
    and h': "held' = (if phys = 0 then held else phys # held)" using run by (auto simp: Let_def split: prod.splits)
  have pg: "pp_pages q = pp_pages p" using alloc_pages[of p] r by simp
  from alloc_spec[OF ok r] show ?thesis
  proof
    assume "\<exists>i<pp_pages p. phys = frame_phys i \<and> \<not> on_loan p i \<and> frames_ok q \<and> pp_stack p = phys # pp_stack q
        \<and> pp_refs q = (pp_refs p)(i := 1) \<and> (\<forall>j. on_loan q j \<longleftrightarrow> j = i \<or> on_loan p j)"
    then obtain i where i: "i < pp_pages p" "phys = frame_phys i" "frames_ok q" "pp_stack p = phys # pp_stack q"
      "\<And>j. on_loan q j \<longleftrightarrow> j = i \<or> on_loan p j" by blast
    have "lent q = insert phys (lent p)" using i(1,2) by (auto simp: lent_def pg i(5))
    thus ?thesis using h i(2-4) by (simp add: h')
  qed (use h h' ok in auto)
qed

lemma pool_step_free:
  assumes ok: "frames_ok p" and h: "set held = lent p" and d: "distinct held"
    and run: "pool_step (PFree phys) (p, held) = (q, held')"
  shows "frames_ok q \<and> set held' = lent q \<and> mset held' + mset (pp_stack q) = mset held + mset (pp_stack p)"
proof -
  have r: "q = free_user_physical_page phys p" and h': "held' = (if length (pp_stack q) > length (pp_stack p)
      then remove1 phys held else held)" using run by (auto simp: Let_def)
  have pg: "pp_pages q = pp_pages p" by (simp add: r)
  consider "q = p" | "q = p\<lparr> pp_refusals := pp_refusals p + 1 \<rparr>"
    | i where "i < pp_pages p" "phys = frame_phys i" "on_loan p i" "frames_ok q" "pp_stack q = phys # pp_stack p"
      "\<And>j. on_loan q j \<longleftrightarrow> j \<noteq> i \<and> on_loan p j"
    using free_spec[OF ok, of phys] unfolding r[symmetric] by blast
  thus ?thesis
  proof cases
    case (3 i)
    have "lent q = lent p - {phys}" using 3(2) by (auto simp: lent_def pg 3(6))
    moreover have "phys \<in> set held" using 3(1-3) by (auto simp: h lent_def)
    ultimately show ?thesis using 3(4,5) h d by (simp add: h' insert_DiffM)
  qed (use ok h h' in \<open>auto simp: lent_def frames_ok_refusals\<close>)
qed
section \<open>Properties\<close>

text \<open>Boot always finds where the base reserves go: the loop settles within its
  bound, whatever the modules and the RAM, and the base it returns is at or above
  the bottom of the pool, clear of every boot module, and fits the first RAM that
  can hold it.\<close>

theorem reserve_base_clear:
  "pool_reserve_base p ms \<ge> USER_PHYS_BASE
   \<and> (\<forall>m\<in>set ms. mod_start m \<ge> pool_reserve_base p ms + POOL_RESERVE_PAGES * FRAME_BYTES
                  \<or> mod_end m \<le> pool_reserve_base p ms)
   \<and> ram_next_fit p (pool_reserve_base p ms) (POOL_RESERVE_PAGES * FRAME_BYTES) = pool_reserve_base p ms"
  using reserve_base_settles[of p ms] reserve_pass_still[OF reserve_base_settles(2)] by blast

definition boot_pool :: page_pool where
  "boot_pool = \<lparr> pp_pages = 16384, pp_ram = [(0x1000000, 0x5000000)], pp_dropped = 0, pp_stack = [],
     pp_refs = (\<lambda>_. 0), pp_loan = (\<lambda>_. 0), pp_refusals = 0, pp_zero_page = 0 \<rparr>"

theorem reserve_base_clear_witness:
  "pool_reserve_base boot_pool [(0x1000000, 0x1100234)] = 0x1101000
   \<and> mod_end (0x1000000, 0x1100234) \<le> pool_reserve_base boot_pool [(0x1000000, 0x1100234)]"
proof -
  have "pool_reserve_base boot_pool [(0x1000000, 0x1100234)] = 0x1101000"
    by (simp add: pool_reserve_base_def boot_pool_def reserve_pass_def ram_next_fit_def Let_def dodge_module_def
        mod_start_def mod_end_def align_down_def align_to_def numeral_eq_Suc[of "Num.Bit1 Num.One"] eval_nat_numeral(3)[symmetric])
  thus ?thesis using reserve_base_clear[of boot_pool "[(0x1000000, 0x1100234)]"]
    by (simp add: mod_start_def align_down_def)
qed

text \<open>C29. When boot sets up the pool, the pool is well formed and every frame it can
  ever hand out is RAM and lies outside the base reserves, outside the pool's own
  tables and outside every boot module; the tables themselves lie in RAM, clear of
  the reserves and of the modules.\<close>

theorem pool_init_clear:
  assumes ram: "ram_ok p0" and pg: "pp_pages p0 \<le> USER_PHYS_PAGES_MAX"
    and ms: "\<forall>m\<in>set ms. mod_start m \<noteq> 0"
    and run: "init_user_page_allocator ms p0 = Some (q, rb, mb, mby)"
  shows "frames_ok q
    \<and> (\<forall>a\<in>set (pp_stack q). phys_is_ram q a
         \<and> (a + FRAME_BYTES \<le> rb \<or> rb + POOL_RESERVE_PAGES * FRAME_BYTES \<le> a)
         \<and> (a < mb \<or> mb + mby \<le> a) \<and> \<not> phys_in_boot_module ms a)
    \<and> ram_covers q mb (mb + mby) \<and> (rb + POOL_RESERVE_PAGES * FRAME_BYTES \<le> mb \<or> mb + mby \<le> rb)
    \<and> (\<forall>m\<in>set ms. mod_end m \<le> mb \<or> mb + mby \<le> mod_start m)"
proof -
  define p where "p = (if pp_ram p0 = [] then phys_note_ram USER_PHYS_BASE (pp_pages p0 * FRAME_BYTES) p0 else p0)"
  note f = init_form[OF run p_def]
  have rp: "ram_ok p" and pgp: "pp_pages p \<le> USER_PHYS_PAGES_MAX"
    using ram pg phys_note_ram_ok[OF ram, of USER_PHYS_BASE] by (auto simp: p_def)
  obtain ri where rbi: "rb = frame_phys ri" and dist: "distinct (pp_stack q)"
    and el: "\<And>a. a \<in> set (pp_stack q) \<Longrightarrow> \<exists>i<pp_pages p. a = frame_phys i \<and> \<not> (i \<ge> ri \<and> i < ri + POOL_RESERVE_PAGES)
        \<and> \<not> (a \<ge> mb \<and> a < mb + mby) \<and> phys_is_ram p a \<and> \<not> phys_in_boot_module ms a"
    using init_stack[OF rp pgp run p_def] by blast
  have cov: "ram_covers q = ram_covers p" using f(6) by (simp add: ram_covers_def fun_eq_iff)
  have "\<not> on_loan q i" for i by (simp add: on_loan_bit f(7))
  hence "frames_ok q" using pgp f(5) el dist by (fastforce simp: frames_ok_def)
  moreover have "phys_is_ram q a \<and> (a + FRAME_BYTES \<le> rb \<or> rb + POOL_RESERVE_PAGES * FRAME_BYTES \<le> a)
       \<and> (a < mb \<or> mb + mby \<le> a) \<and> \<not> phys_in_boot_module ms a" if "a \<in> set (pp_stack q)" for a
  proof -
    from el[OF that] obtain i where i: "a = frame_phys i" "\<not> (i \<ge> ri \<and> i < ri + POOL_RESERVE_PAGES)"
      "\<not> (a \<ge> mb \<and> a < mb + mby)" "phys_is_ram p a" "\<not> phys_in_boot_module ms a" by blast
    have "a + FRAME_BYTES \<le> rb \<or> rb + POOL_RESERVE_PAGES * FRAME_BYTES \<le> a"
      using i(2) unfolding i(1) rbi frame_phys_def by auto
    thus ?thesis using i(3-5) by (auto simp: phys_is_ram_def cov)
  qed
  moreover have "ram_covers q mb (mb + mby)" "rb + POOL_RESERVE_PAGES * FRAME_BYTES \<le> mb \<or> mb + mby \<le> rb"
    "\<forall>m\<in>set ms. mod_end m \<le> mb \<or> mb + mby \<le> mod_start m"
    using pool_meta_place_clear[OF f(2)[symmetric] f(3)]
      meta_clash_none[of rb "rb + POOL_RESERVE_PAGES * FRAME_BYTES" ms mb "mb + mby"] rbi ms
    by (auto simp: cov frame_phys_def)
  ultimately show ?thesis by blast
qed

theorem pool_init_clear_witness:
  "\<exists>q. init_user_page_allocator [(0x1000000, 0x1100234)] boot_pool = Some (q, 0x1101000, 0x4FE7000, 102400) \<and> frames_ok q
     \<and> set (pp_stack q) \<inter> {0x1101000..<0x1101000 + POOL_RESERVE_PAGES * FRAME_BYTES} = {}"
proof -
  let ?ms = "[(0x1000000, 0x1100234)]"
  have rb: "pool_reserve_base boot_pool ?ms = 0x1101000"
    by (simp add: pool_reserve_base_def boot_pool_def reserve_pass_def ram_next_fit_def Let_def dodge_module_def
        mod_start_def mod_end_def align_down_def align_to_def)
  have mb: "pool_meta_place boot_pool ?ms 102400 0x1101000 (0x1101000 + POOL_RESERVE_PAGES * FRAME_BYTES) = 0x4FE7000"
    by (simp add: pool_meta_place_def boot_pool_def meta_region.simps Let_def meta_clash_def
        mod_start_def mod_end_def align_down_def align_to_def)
  obtain q where q: "init_user_page_allocator ?ms boot_pool = Some (q, 0x1101000, 0x4FE7000, 102400)"
    using init_Some[of boot_pool boot_pool ?ms "0x1101000" 102400 "0x4FE7000"] rb mb
    by (auto simp: boot_pool_def align_to_def ram_covers_def)
  have "ram_ok boot_pool" "pp_pages boot_pool \<le> USER_PHYS_PAGES_MAX" by (simp_all add: ram_ok_def boot_pool_def)
  from pool_init_clear[OF this _ q] show ?thesis using q by (fastforce simp: mod_start_def align_down_def)
qed

text \<open>C10. Over any sequence of allocations and frees, refused frees included, from a
  pool with nothing lent out, no frame is lost and none is given out twice: the
  frames out are exactly those marked on loan, they are distinct and disjoint from
  the free stack, and together with it they are the frames there were.\<close>

theorem pool_single_owner:
  assumes "frames_ok p" "\<forall>i. \<not> on_loan p i" "fold pool_step ops (p, []) = (q, held)"
  shows "frames_ok q \<and> set held = lent q \<and> distinct (held @ pp_stack q) \<and> mset (held @ pp_stack q) = mset (pp_stack p)"
proof -
  have "frames_ok q \<and> set held = lent q \<and> mset held + mset (pp_stack q) = M"
    if "frames_ok p'" "set h' = lent p'" "mset h' + mset (pp_stack p') = M" "fold pool_step ops (p', h') = (q, held)"
      "M = mset (pp_stack p)" for p' h' M
    using that
  proof (induction ops arbitrary: p' h')
    case (Cons op ops)
    obtain p1 h1 where s: "pool_step op (p', h') = (p1, h1)" by (metis prod.exhaust)
    have "mset (h' @ pp_stack p') = mset (pp_stack p)" using Cons.prems(3,5) by simp
    hence "distinct (h' @ pp_stack p')" using frames_okD(2)[OF assms(1)] by (metis mset_eq_imp_distinct_iff)
    hence "frames_ok p1 \<and> set h1 = lent p1 \<and> mset h1 + mset (pp_stack p1) = M"
      using pool_step_alloc[OF Cons.prems(1,2)] pool_step_free[OF Cons.prems(1,2)] s Cons.prems(3) by (cases op) auto
    thus ?case using Cons.IH[of p1 h1] Cons.prems(4,5) s by simp
  qed simp
  from this[OF assms(1) _ _ assms(3) refl] have "frames_ok q \<and> set held = lent q \<and> mset (held @ pp_stack q) = mset (pp_stack p)"
    using assms(2) by (simp add: lent_def)
  thus ?thesis using frames_okD(2)[OF assms(1)] by (metis mset_eq_imp_distinct_iff)
qed

definition two_frames :: page_pool where
  "two_frames = boot_pool\<lparr> pp_stack := [frame_phys 0, frame_phys 1] \<rparr>"

theorem pool_single_owner_witness:
  "\<exists>q held. fold pool_step [PAlloc, PAlloc, PFree (frame_phys 0), PFree (frame_phys 0), PAlloc] (two_frames, []) = (q, held)
     \<and> distinct (held @ pp_stack q)"
proof -
  have "frames_ok two_frames" "\<forall>i. \<not> on_loan two_frames i"
    by (auto simp: frames_ok_def two_frames_def boot_pool_def on_loan_bit)
  from pool_single_owner[OF this] show ?thesis by (metis prod.exhaust)
qed

text \<open>The reference count the C side keeps is 16 bits wide and wraps: the frame
  whose count is 65535 has count 0 after one more mapping, where the Rust side
  saturates, and dropping one of the other 65535 mappings then reports no owner.\<close>

theorem page_ref_inc_wraps:
  assumes "i < pp_pages p" "pp_refs p i = 65535"
  shows "pp_refs (page_ref_inc (frame_phys i) p) i = 0
    \<and> pp_refs (snd (rust_page_ref_inc (frame_phys i) p)) i = 65535
    \<and> fst (rust_page_ref_dec (frame_phys i) (page_ref_inc (frame_phys i) p)) = -2"
  using assms by (auto simp: page_ref_inc_def rust_page_ref_inc_def rust_page_ref_dec_def refc_index_def frame_phys_def Let_def)

theorem page_ref_inc_wraps_witness:
  "pp_refs (page_ref_inc (frame_phys 0) (set_refs 0 65535 two_frames)) 0 = 0"
  using page_ref_inc_wraps[of 0 "set_refs 0 65535 two_frames"] by (simp add: two_frames_def boot_pool_def)

end
