(* ===== verification/Kernel_State.thy ===== *)
theory Kernel_State
  imports Cap_Reparent Page_Pool
begin

text \<open>
  The state of the kernel the C sources share, as records in the order of
  \<^verbatim>\<open>src/include/kernel.h\<close>: pipes, endpoints with their queued messages and
  the invoker records, notifications, scheduling contexts, untyped regions,
  the descriptor tables of retyped objects, task control blocks, and the whole
  of it as \<open>kstate\<close>.  A task table is a function from task numbers, with the
  number provisioned this boot beside it.  Objects that live in the untyped
  arena are stored by index; their address in the arena is in the descriptor
  table.  Task numbers, slots, sizes and counters that are only compared,
  incremented under a bound or used as indices are \<open>nat\<close>; generations, objects,
  serials, rights and the reference counts that wrap in C keep their width.
\<close>

section \<open>Constants\<close>

abbreviation (input) CAP_USER :: u32 where "CAP_USER \<equiv> 6"
abbreviation (input) CAP_AUDIT :: u32 where "CAP_AUDIT \<equiv> 7"
abbreviation (input) CAP_CONSOLE :: u32 where "CAP_CONSOLE \<equiv> 8"
abbreviation (input) CAP_ENCRYPTED_STORAGE :: u32 where "CAP_ENCRYPTED_STORAGE \<equiv> 9"
abbreviation (input) CAP_IO_DEVICE :: u32 where "CAP_IO_DEVICE \<equiv> 12"
abbreviation (input) CAP_KERNEL_LOG :: u32 where "CAP_KERNEL_LOG \<equiv> 14"
abbreviation (input) CAP_BOOT_MODULE :: u32 where "CAP_BOOT_MODULE \<equiv> 15"
abbreviation (input) CAP_DEBUG :: u32 where "CAP_DEBUG \<equiv> 18"
abbreviation (input) CAP_STORAGE_FORMAT :: u32 where "CAP_STORAGE_FORMAT \<equiv> 19"

abbreviation (input) MAX_REV_SETS :: nat where "MAX_REV_SETS \<equiv> 8"
abbreviation (input) MAX_PIPES :: nat where "MAX_PIPES \<equiv> 32"
abbreviation (input) PIPE_BUF_BYTES :: nat where "PIPE_BUF_BYTES \<equiv> 4096"
abbreviation (input) IPC_MSG_MAX :: nat where "IPC_MSG_MAX \<equiv> 256"
abbreviation (input) EP_QUEUE_SLOTS :: nat where "EP_QUEUE_SLOTS \<equiv> 4"
abbreviation (input) REPLY_EP_BASE :: nat where "REPLY_EP_BASE \<equiv> 64"
abbreviation (input) MAX_ENDPOINTS :: nat where "MAX_ENDPOINTS \<equiv> 320"
abbreviation (input) MAX_DYN_ENDPOINTS :: nat where "MAX_DYN_ENDPOINTS \<equiv> 256"
abbreviation (input) DYN_EP_BASE :: nat where "DYN_EP_BASE \<equiv> 320"
abbreviation (input) EP_INDEX_MAX :: nat where "EP_INDEX_MAX \<equiv> 576"
abbreviation (input) MAX_NOTIFICATIONS :: nat where "MAX_NOTIFICATIONS \<equiv> 64"
abbreviation (input) MAX_DYN_NOTIFICATIONS :: nat where "MAX_DYN_NOTIFICATIONS \<equiv> 256"
abbreviation (input) DYN_NOTIF_BASE :: nat where "DYN_NOTIF_BASE \<equiv> 64"
abbreviation (input) NOTIF_INDEX_MAX :: nat where "NOTIF_INDEX_MAX \<equiv> 320"
abbreviation (input) PAGE_SIZE :: nat where "PAGE_SIZE \<equiv> 4096"
abbreviation (input) UNTYPED_KERNEL_BYTES :: nat where "UNTYPED_KERNEL_BYTES \<equiv> 3145728"
abbreviation (input) UNTYPED_ARENA_BYTES :: nat where "UNTYPED_ARENA_BYTES \<equiv> 6815744"
abbreviation (input) MAX_DYN_FRAMES :: nat where "MAX_DYN_FRAMES \<equiv> 1664"
abbreviation (input) DYN_FRAME_BASE :: nat where "DYN_FRAME_BASE \<equiv> 1"
abbreviation (input) FRAME_INDEX_MAX :: nat where "FRAME_INDEX_MAX \<equiv> 1665"
abbreviation (input) MAX_FRAME_PAGES :: nat where "MAX_FRAME_PAGES \<equiv> 64"
abbreviation (input) MAX_UNTYPED :: nat where "MAX_UNTYPED \<equiv> 64"
abbreviation (input) UNTYPED_KERNEL :: nat where "UNTYPED_KERNEL \<equiv> 0"
abbreviation (input) UNTYPED_ROOT :: nat where "UNTYPED_ROOT \<equiv> 1"
abbreviation (input) MAX_CPUS :: nat where "MAX_CPUS \<equiv> 8"
abbreviation (input) MAX_DYN_SCHED_CONTEXTS :: nat where "MAX_DYN_SCHED_CONTEXTS \<equiv> 256"
abbreviation (input) SC_ROOT_BASE :: nat where "SC_ROOT_BASE \<equiv> 1"
abbreviation (input) DYN_SC_BASE :: nat where "DYN_SC_BASE \<equiv> 9"
abbreviation (input) SC_INDEX_MAX :: nat where "SC_INDEX_MAX \<equiv> 265"

abbreviation (input) SC_PPM_WHOLE :: nat where "SC_PPM_WHOLE \<equiv> 1000000"
abbreviation (input) SC_ROOT_PERIOD_US :: nat where "SC_ROOT_PERIOD_US \<equiv> 100000"
abbreviation (input) SC_FLAG_SLACK :: u32 where "SC_FLAG_SLACK \<equiv> 1"
abbreviation (input) SCHED_PRIO_MAX :: nat where "SCHED_PRIO_MAX \<equiv> 255"

abbreviation (input) TASK_DEAD :: nat where "TASK_DEAD \<equiv> 0"
abbreviation (input) TASK_RUNNABLE :: nat where "TASK_RUNNABLE \<equiv> 1"
abbreviation (input) TASK_BLOCKED_IPC :: nat where "TASK_BLOCKED_IPC \<equiv> 2"
abbreviation (input) TASK_BLOCKED_NOTIF :: nat where "TASK_BLOCKED_NOTIF \<equiv> 3"
abbreviation (input) TASK_BLOCKED_WAIT :: nat where "TASK_BLOCKED_WAIT \<equiv> 4"

abbreviation (input) CAPSLOT_REPLY_EP :: nat where "CAPSLOT_REPLY_EP \<equiv> 4"
abbreviation (input) CAPSLOT_REPLY :: nat where "CAPSLOT_REPLY \<equiv> 21"
abbreviation (input) CAP_DYNAMIC_FLOOR :: nat where "CAP_DYNAMIC_FLOOR \<equiv> 64"
abbreviation (input) LIBC_SLOT_FIRST :: nat where "LIBC_SLOT_FIRST \<equiv> 128"
abbreviation (input) SHLIB_MAX_PAGES :: nat where "SHLIB_MAX_PAGES \<equiv> 64"
abbreviation (input) STDIN_PIPE_SLOT :: nat where "STDIN_PIPE_SLOT \<equiv> 14"
abbreviation (input) STDOUT_PIPE_SLOT :: nat where "STDOUT_PIPE_SLOT \<equiv> 15"
abbreviation (input) IPC_NO_CAP :: nat where "IPC_NO_CAP \<equiv> 0xFFFFFFFF"

text \<open>The error numbers of the system-call layer, as the C code returns them.\<close>

abbreviation (input) SYS_ERR_PERM :: int where "SYS_ERR_PERM \<equiv> - 1"
abbreviation (input) SYS_ERR_NOENT :: int where "SYS_ERR_NOENT \<equiv> - 2"
abbreviation (input) SYS_ERR_AGAIN :: int where "SYS_ERR_AGAIN \<equiv> - 11"
abbreviation (input) SYS_ERR_NOMEM :: int where "SYS_ERR_NOMEM \<equiv> - 12"
abbreviation (input) SYS_ERR_FAULT :: int where "SYS_ERR_FAULT \<equiv> - 14"
abbreviation (input) SYS_ERR_INVAL :: int where "SYS_ERR_INVAL \<equiv> - 22"
abbreviation (input) SYS_ERR_PIPE :: int where "SYS_ERR_PIPE \<equiv> - 32"
abbreviation (input) SYS_ERR_RANGE :: int where "SYS_ERR_RANGE \<equiv> - 34"

section \<open>Kernel objects\<close>

record ipc_invoker =
  iv_token :: u64
  iv_rights :: u32
  iv_carried :: u32
  iv_carry_token :: u64
  iv_carry_rights :: u32

record ep_msg =
  em_len :: int
  em_sender :: int
  em_sender_gen :: u64
  em_inv :: ipc_invoker
  em_data :: "u8 list"

record endpoint =
  ep_q :: "ep_msg list"
  ep_head :: nat
  ep_count :: nat
  ep_last_sender :: int
  ep_last_sender_gen :: u64
  ep_blocked_waiter :: int
  ep_last_invoker :: ipc_invoker

record pipe =
  p_in_use :: bool
  p_gen :: u32
  p_head :: nat
  p_count :: nat
  p_reader_ends :: u32
  p_writer_ends :: u32
  p_buf :: "u8 list"

record notification =
  nt_pending_badge :: u32
  nt_blocked_waiter :: int

record sched_context =
  sc_live :: bool
  sc_cpu :: int
  sc_share_ppm :: nat
  sc_period_us :: nat
  sc_slack :: bool
  sc_root :: bool
  sc_parent :: nat
  sc_remaining_us :: int
  sc_period_start_us :: nat
  sc_consumed_us :: nat
  sc_charged_cpu :: int

record untyped =
  ut_base :: u64
  ut_size :: u64
  ut_watermark :: u64
  ut_objects :: nat
  ut_in_use :: bool

text \<open>A descriptor of a retyped object; \<open>ks_mem\<close> is its address, 0 for a free
  descriptor.\<close>

record kobj_slot =
  ks_mem :: u64
  ks_untyped :: nat
  ks_pinned :: bool
  ks_pages :: nat

record rev_set =
  rs_target_slot :: nat
  rs_badge :: u64
  rs_valid :: bool

section \<open>Tasks and the kernel\<close>

text \<open>Parts of the task control block that are read and written together: the signal
  state, the image with its heap and arguments, and the record of how a task ended.\<close>

record task_sig =
  sg_handler :: u64
  sg_in_signal :: u32
  sg_pending :: u32
  sg_mask :: u32
  sg_altstack_sp :: u64
  sg_altstack_size :: u32
  sg_on_stack :: u32

record task_image =
  im_base :: u64
  im_end :: u64
  im_premap_pages :: nat
  im_esp :: u64
  im_eip :: u64
  im_spawn_arg :: u32
  im_argc :: u32
  im_argv_ptr :: u64
  im_heap_start :: u64
  im_heap_current :: u64
  im_heap_end :: u64

record task_exit_info =
  xi_tid :: int
  xi_reason :: int
  xi_detail :: u32
  xi_err :: u32
  xi_rip :: u64
  xi_addr :: u64
  xi_name :: "u8 list"

text \<open>\<open>t_frame_rax\<close> and \<open>t_frame_rbx\<close> are the registers in the interrupt frame that
  \<open>saved_ksp\<close> points to.\<close>

record tcb =
  t_state :: nat
  t_inuse :: nat
  t_cspace :: "cref option"
  t_cspace_size :: nat
  t_slot_gen :: u64
  t_runnable_ctx :: bool
  t_blocked_on :: int
  t_blocked_on_notif :: int
  t_ipc_reply_buf :: u64
  t_pending_block :: nat
  t_ipc_recv_block :: bool
  t_ipc_recv_max :: nat
  t_ipc_cap_recv_slot :: nat
  t_ipc_inv_slot :: nat
  t_ipc_inv_serial :: u64
  t_stdio_flags :: u32
  t_sc_index :: nat
  t_priority :: nat
  t_max_priority :: nat
  t_cr3 :: u64
  t_saved_ksp :: u64
  t_pager_hold :: bool
  t_rq_home :: int
  t_rq_next :: nat
  t_rq_prev :: nat
  t_waiter :: int
  t_blocked_on_gen :: u64
  t_frame_rax :: u64
  t_frame_rbx :: u64
  t_uid :: u32
  t_gid :: u32
  t_name :: "u8 list"
  t_exit_info :: task_exit_info
  t_wait_exit_info :: task_exit_info
  t_io_device :: u64
  t_sig :: task_sig
  t_image :: task_image
  t_auth_fail_count :: int
  t_auth_lockout_until :: int

record kstate =
  k_mem :: capmem
  k_next_serial :: u64
  k_tasks :: "nat \<Rightarrow> tcb"
  k_max_tasks :: nat
  k_cur :: nat
  k_rev_sets :: "rev_set list"
  k_pipes :: "pipe list"
  k_eps :: "nat \<Rightarrow> endpoint"
  k_notifs :: "nat \<Rightarrow> notification"
  k_untypeds :: "untyped list"
  k_dyn_eps :: "kobj_slot list"
  k_dyn_notifs :: "kobj_slot list"
  k_dyn_frames :: "kobj_slot list"
  k_dyn_scs :: "kobj_slot list"
  k_scs :: "nat \<Rightarrow> sched_context"
  k_sc_stamp_idx :: "nat \<Rightarrow> nat"
  k_sc_stamp_us :: "nat \<Rightarrow> nat"
  k_sc_carved_live :: "nat \<Rightarrow> nat"
  k_arena :: u64
  k_pool :: page_pool
  k_shlib :: "nat list"
  k_clock_us :: nat
  k_sc_cpu_up :: "nat \<Rightarrow> bool"
  k_this_cpu :: int
  k_percpu_cur :: "nat \<Rightarrow> int"
  k_running_cpu :: "nat \<Rightarrow> int"
  k_inflight :: "nat \<Rightarrow> bool"
  k_rq_head :: "nat \<Rightarrow> int"
  k_pick_tick :: "nat \<Rightarrow> u64"
  k_ticks :: u64

section \<open>Zeroed memory\<close>

text \<open>The objects as zeroed memory holds them, and a state for concrete runs: every
  table zero, the run lists empty and the claims absent as \<open>tasks_init\<close> leaves
  them, with 64 task slots provisioned.\<close>

definition zero_invoker :: ipc_invoker where
  "zero_invoker = \<lparr> iv_token = 0, iv_rights = 0, iv_carried = 0, iv_carry_token = 0, iv_carry_rights = 0 \<rparr>"

definition zero_msg :: ep_msg where
  "zero_msg = \<lparr> em_len = 0, em_sender = 0, em_sender_gen = 0, em_inv = zero_invoker,
                em_data = replicate IPC_MSG_MAX 0 \<rparr>"

definition zero_endpoint :: endpoint where
  "zero_endpoint = \<lparr> ep_q = replicate EP_QUEUE_SLOTS zero_msg, ep_head = 0, ep_count = 0,
     ep_last_sender = 0, ep_last_sender_gen = 0, ep_blocked_waiter = 0, ep_last_invoker = zero_invoker \<rparr>"

definition zero_notification :: notification where
  "zero_notification = \<lparr> nt_pending_badge = 0, nt_blocked_waiter = 0 \<rparr>"

definition zero_pipe :: pipe where
  "zero_pipe = \<lparr> p_in_use = False, p_gen = 0, p_head = 0, p_count = 0, p_reader_ends = 0,
     p_writer_ends = 0, p_buf = replicate PIPE_BUF_BYTES 0 \<rparr>"

definition zero_sc :: sched_context where
  "zero_sc = \<lparr> sc_live = False, sc_cpu = 0, sc_share_ppm = 0, sc_period_us = 0, sc_slack = False,
     sc_root = False, sc_parent = 0, sc_remaining_us = 0, sc_period_start_us = 0, sc_consumed_us = 0,
     sc_charged_cpu = 0 \<rparr>"

definition zero_untyped :: untyped where
  "zero_untyped = \<lparr> ut_base = 0, ut_size = 0, ut_watermark = 0, ut_objects = 0, ut_in_use = False \<rparr>"

definition zero_slot :: kobj_slot where
  "zero_slot = \<lparr> ks_mem = 0, ks_untyped = 0, ks_pinned = False, ks_pages = 0 \<rparr>"

definition zero_exit_info :: task_exit_info where
  "zero_exit_info = \<lparr> xi_tid = 0, xi_reason = 0, xi_detail = 0, xi_err = 0, xi_rip = 0, xi_addr = 0, xi_name = replicate 32 0 \<rparr>"

definition zero_sig :: task_sig where
  "zero_sig = \<lparr> sg_handler = 0, sg_in_signal = 0, sg_pending = 0, sg_mask = 0, sg_altstack_sp = 0,
     sg_altstack_size = 0, sg_on_stack = 0 \<rparr>"

definition zero_image :: task_image where
  "zero_image = \<lparr> im_base = 0, im_end = 0, im_premap_pages = 0, im_esp = 0, im_eip = 0, im_spawn_arg = 0, im_argc = 0,
     im_argv_ptr = 0, im_heap_start = 0, im_heap_current = 0, im_heap_end = 0 \<rparr>"

definition zero_tcb :: tcb where
  "zero_tcb = \<lparr> t_state = 0, t_inuse = 0, t_cspace = None, t_cspace_size = 0, t_slot_gen = 0,
     t_runnable_ctx = False, t_blocked_on = 0, t_blocked_on_notif = 0, t_ipc_reply_buf = 0,
     t_pending_block = 0, t_ipc_recv_block = False, t_ipc_recv_max = 0, t_ipc_cap_recv_slot = 0,
     t_ipc_inv_slot = 0, t_ipc_inv_serial = 0, t_stdio_flags = 0, t_sc_index = 0, t_priority = 0,
     t_max_priority = 0, t_cr3 = 0, t_saved_ksp = 0, t_pager_hold = False, t_rq_home = -1,
     t_rq_next = 0, t_rq_prev = 0, t_waiter = 0, t_blocked_on_gen = 0, t_frame_rax = 0, t_frame_rbx = 0,
     t_uid = 0, t_gid = 0, t_name = replicate 32 0, t_exit_info = zero_exit_info, t_wait_exit_info = zero_exit_info,
     t_io_device = 0, t_sig = zero_sig, t_image = zero_image, t_auth_fail_count = 0, t_auth_lockout_until = 0 \<rparr>"

definition zero_pool :: page_pool where
  "zero_pool = \<lparr> pp_pages = PHYS_POOL_MIN_PAGES, pp_ram = [], pp_dropped = 0, pp_stack = [], pp_refs = (\<lambda>_. 0),
     pp_loan = (\<lambda>_. 0), pp_refusals = 0, pp_zero_page = 0 \<rparr>"

definition zero_kstate :: kstate where
  "zero_kstate = \<lparr> k_mem = (\<lambda>_. null_cap), k_next_serial = 0, k_tasks = (\<lambda>_. zero_tcb),
     k_max_tasks = 64, k_cur = 0, k_rev_sets = replicate MAX_REV_SETS \<lparr> rs_target_slot = 0, rs_badge = 0, rs_valid = False \<rparr>,
     k_pipes = replicate MAX_PIPES zero_pipe, k_eps = (\<lambda>_. zero_endpoint), k_notifs = (\<lambda>_. zero_notification),
     k_untypeds = replicate MAX_UNTYPED zero_untyped, k_dyn_eps = replicate MAX_DYN_ENDPOINTS zero_slot,
     k_dyn_notifs = replicate MAX_DYN_NOTIFICATIONS zero_slot, k_dyn_frames = replicate MAX_DYN_FRAMES zero_slot,
     k_dyn_scs = replicate MAX_DYN_SCHED_CONTEXTS zero_slot, k_scs = (\<lambda>_. zero_sc), k_sc_stamp_idx = (\<lambda>_. 0),
     k_sc_stamp_us = (\<lambda>_. 0), k_sc_carved_live = (\<lambda>_. 0), k_arena = 0, k_pool = zero_pool, k_shlib = [], k_clock_us = 0,
     k_sc_cpu_up = (\<lambda>_. False), k_this_cpu = 0, k_percpu_cur = (\<lambda>_. 0), k_running_cpu = (\<lambda>_. -1),
     k_inflight = (\<lambda>_. False), k_rq_head = (\<lambda>_. -1), k_pick_tick = (\<lambda>_. 0), k_ticks = 0 \<rparr>"

section \<open>Small helpers the C sources repeat\<close>

text \<open>\<open>tasks[t].cspace_size ? tasks[t].cspace_size : CNODE_SIZE\<close>.\<close>

definition cspace_sz :: "tcb \<Rightarrow> nat" where
  "cspace_sz t = (if t_cspace_size t = 0 then CNODE_SIZE else t_cspace_size t)"

definition upd_task :: "nat \<Rightarrow> (tcb \<Rightarrow> tcb) \<Rightarrow> kstate \<Rightarrow> kstate" where
  "upd_task t f s = s\<lparr> k_tasks := (k_tasks s)(t := f (k_tasks s t)) \<rparr>"

definition set_cap :: "caddr \<Rightarrow> capability \<Rightarrow> kstate \<Rightarrow> kstate" where
  "set_cap a c s = s\<lparr> k_mem := (k_mem s)(a := c) \<rparr>"

definition inc_inuse :: "nat \<Rightarrow> kstate \<Rightarrow> kstate" where
  "inc_inuse t = upd_task t (\<lambda>x. x\<lparr> t_inuse := t_inuse x + 1 \<rparr>)"

definition dec_inuse_of :: "nat \<Rightarrow> kstate \<Rightarrow> kstate" where
  "dec_inuse_of t = upd_task t (\<lambda>x. if t_inuse x > 0 then x\<lparr> t_inuse := t_inuse x - 1 \<rparr> else x)"

text \<open>\<open>tcb_object\<close> and \<open>reply_object\<close>: a slot number and an incarnation.\<close>

definition reply_object :: "nat \<Rightarrow> u64 \<Rightarrow> u64" where
  "reply_object i gen = push_bit 16 gen OR (of_nat i AND 0xFFFF)"

definition tcb_object :: "kstate \<Rightarrow> nat \<Rightarrow> u64" where
  "tcb_object s i = push_bit 16 (t_slot_gen (k_tasks s i)) OR (of_nat i AND 0xFFFF)"

definition get_cspace :: "kstate \<Rightarrow> nat \<Rightarrow> cref option" where
  "get_cspace s t = t_cspace (k_tasks s t)"

definition get_sz :: "kstate \<Rightarrow> nat \<Rightarrow> nat" where
  "get_sz s t = cspace_sz (k_tasks s t)"

lemmas kern_upd_defs = upd_task_def set_cap_def inc_inuse_def dec_inuse_of_def

lemma upd_task_sel [simp]:
  "k_mem (upd_task t f s) = k_mem s" "k_next_serial (upd_task t f s) = k_next_serial s"
  "k_max_tasks (upd_task t f s) = k_max_tasks s" "k_cur (upd_task t f s) = k_cur s"
  "k_pipes (upd_task t f s) = k_pipes s"
  "k_tasks (upd_task t f s) = (k_tasks s)(t := f (k_tasks s t))"
  by (simp_all add: upd_task_def)

lemma set_cap_sel [simp]:
  "k_mem (set_cap a c s) = (k_mem s)(a := c)" "k_next_serial (set_cap a c s) = k_next_serial s"
  "k_max_tasks (set_cap a c s) = k_max_tasks s" "k_cur (set_cap a c s) = k_cur s"
  "k_pipes (set_cap a c s) = k_pipes s" "k_tasks (set_cap a c s) = k_tasks s"
  by (simp_all add: set_cap_def)

lemma inc_inuse_sel [simp]:
  "k_mem (inc_inuse t s) = k_mem s" "k_next_serial (inc_inuse t s) = k_next_serial s"
  "k_max_tasks (inc_inuse t s) = k_max_tasks s" "k_cur (inc_inuse t s) = k_cur s"
  "k_pipes (inc_inuse t s) = k_pipes s"
  by (simp_all add: inc_inuse_def)

lemma dec_inuse_of_sel [simp]:
  "k_mem (dec_inuse_of t s) = k_mem s" "k_next_serial (dec_inuse_of t s) = k_next_serial s"
  "k_max_tasks (dec_inuse_of t s) = k_max_tasks s" "k_cur (dec_inuse_of t s) = k_cur s"
  "k_pipes (dec_inuse_of t s) = k_pipes s"
  by (simp_all add: dec_inuse_of_def)

lemma get_cspace_upd [simp]:
  "get_cspace (set_cap a c s) t = get_cspace s t" "get_sz (set_cap a c s) t = get_sz s t"
  "get_cspace (inc_inuse u s) t = get_cspace s t" "get_sz (inc_inuse u s) t = get_sz s t"
  "get_cspace (dec_inuse_of u s) t = get_cspace s t" "get_sz (dec_inuse_of u s) t = get_sz s t"
  by (auto simp: get_cspace_def get_sz_def cspace_sz_def inc_inuse_def dec_inuse_of_def)

end
