(* ===== verification/Run_List.thy ===== *)
theory Run_List
  imports Kernel_State
begin

text \<open>
  The per-CPU run lists of \<^verbatim>\<open>src/kernel/scheduler.c\<close>: every live task is homed
  on one CPU and sits on that CPU's circular, doubly linked list, threaded
  through the task table (\<open>rq_home\<close>, \<open>rq_next\<close>, \<open>rq_prev\<close>) with \<open>rq_head\<close> naming
  its first member.  \<open>rq_unlink\<close> and \<open>rq_home_on\<close> are the pointer operations.  The
  abstract view of a CPU is the list of its tasks in order; the refinement says
  that unlinking removes one element of that list and that homing appends at its
  tail, whatever list the task was on before.
\<close>

section \<open>The pointer operations\<close>

definition rq_unlink :: "nat \<Rightarrow> kstate \<Rightarrow> kstate" where
  "rq_unlink t s =
    (let c = t_rq_home (k_tasks s t) in
     if c < 0 \<or> c \<ge> int MAX_CPUS then upd_task t (\<lambda>x. x\<lparr> t_rq_home := -1 \<rparr>) s
     else
       let n = t_rq_next (k_tasks s t); p = t_rq_prev (k_tasks s t);
           s1 = (if n = t then s\<lparr> k_rq_head := (k_rq_head s)(nat c := -1) \<rparr>
                 else let s' = upd_task p (\<lambda>x. x\<lparr> t_rq_next := n \<rparr>) s;
                          s'' = upd_task n (\<lambda>x. x\<lparr> t_rq_prev := p \<rparr>) s'
                      in if k_rq_head s'' (nat c) = int t
                         then s''\<lparr> k_rq_head := (k_rq_head s'')(nat c := int n) \<rparr> else s'')
       in upd_task t (\<lambda>x. x\<lparr> t_rq_home := -1, t_rq_prev := t, t_rq_next := t \<rparr>) s1)"

definition rq_home_on :: "int \<Rightarrow> int \<Rightarrow> kstate \<Rightarrow> kstate" where
  "rq_home_on ti c s =
    (if ti \<le> 0 \<or> ti \<ge> int (k_max_tasks s) \<or> c < 0 \<or> c \<ge> int MAX_CPUS then s
     else
       let t = nat ti; s1 = rq_unlink t s; h = k_rq_head s1 (nat c);
           s2 = (if h < 0
                 then upd_task t (\<lambda>x. x\<lparr> t_rq_prev := t, t_rq_next := t \<rparr>)
                        (s1\<lparr> k_rq_head := (k_rq_head s1)(nat c := int t) \<rparr>)
                 else let hd' = nat h; tail = t_rq_prev (k_tasks s1 hd');
                          a = upd_task t (\<lambda>x. x\<lparr> t_rq_next := hd' \<rparr>) s1;
                          b = upd_task t (\<lambda>x. x\<lparr> t_rq_prev := tail \<rparr>) a;
                          d = upd_task tail (\<lambda>x. x\<lparr> t_rq_next := t \<rparr>) b
                      in upd_task hd' (\<lambda>x. x\<lparr> t_rq_prev := t \<rparr>) d)
       in upd_task t (\<lambda>x. x\<lparr> t_rq_home := c \<rparr>) s2)"

section \<open>The abstract lists\<close>

type_synonym run_lists = "nat \<Rightarrow> nat list"

text \<open>A list is linked in a state when it is closed by its own head and every
  step along it is a step of \<open>rq_next\<close> and, back, of \<open>rq_prev\<close>.\<close>

definition linked :: "(nat \<Rightarrow> tcb) \<Rightarrow> nat \<Rightarrow> nat \<Rightarrow> bool" where
  "linked ts x y \<longleftrightarrow> t_rq_next (ts x) = y \<and> t_rq_prev (ts y) = x"

definition ringed :: "(nat \<Rightarrow> tcb) \<Rightarrow> nat list \<Rightarrow> bool" where
  "ringed ts xs \<longleftrightarrow> xs \<noteq> [] \<longrightarrow> successively (linked ts) (xs @ [hd xs])"

definition run_lists_ok :: "kstate \<Rightarrow> run_lists \<Rightarrow> bool" where
  "run_lists_ok s L \<longleftrightarrow>
     (\<forall>c<MAX_CPUS. k_rq_head s c = (if L c = [] then -1 else int (hd (L c)))
                 \<and> distinct (L c) \<and> ringed (k_tasks s) (L c)
                 \<and> (\<forall>t\<in>set (L c). 0 < t \<and> t < k_max_tasks s))
     \<and> (\<forall>t c. c < MAX_CPUS \<longrightarrow> (t \<in> set (L c) \<longleftrightarrow> t_rq_home (k_tasks s t) = int c))"

definition rl_unlink :: "nat \<Rightarrow> run_lists \<Rightarrow> run_lists" where
  "rl_unlink t L = (\<lambda>c. remove1 t (L c))"

definition rl_home_on :: "nat \<Rightarrow> nat \<Rightarrow> run_lists \<Rightarrow> run_lists" where
  "rl_home_on t c L = (let L' = rl_unlink t L in L'(c := L' c @ [t]))"

section \<open>Lemmas on rings\<close>

lemma successively_inner:
  "successively P xs \<Longrightarrow> (\<And>x y. x \<in> set (butlast xs) \<Longrightarrow> y \<in> set (tl xs) \<Longrightarrow> P x y \<Longrightarrow> Q x y)
   \<Longrightarrow> successively Q xs"
proof (induction xs rule: induct_list012)
  case (3 x y zs)
  have "P x y" and s: "successively P (y # zs)" using 3(3) by auto
  have "successively Q (y # zs)"
  proof (rule 3(2)[OF s])
    fix a b
    assume "a \<in> set (butlast (y # zs))" "b \<in> set (tl (y # zs))" "P a b"
    thus "Q a b" by (intro 3(4)) (auto split: if_splits)
  qed
  moreover have "Q x y" using \<open>P x y\<close> by (intro 3(4)) auto
  ultimately show ?case by simp
qed simp_all

lemma ringed_cong:
  assumes "ringed ts xs"
    and "\<And>x. x \<in> set xs \<Longrightarrow> t_rq_next (ts' x) = t_rq_next (ts x) \<and> t_rq_prev (ts' x) = t_rq_prev (ts x)"
  shows "ringed ts' xs"
  unfolding ringed_def
proof
  assume ne: "xs \<noteq> []"
  hence "successively (linked ts) (xs @ [hd xs])" using assms(1) by (simp add: ringed_def)
  thus "successively (linked ts') (xs @ [hd xs])"
    by (rule successively_mono) (use assms(2) ne in \<open>auto simp: linked_def\<close>)
qed

lemma ringed_neighbours:
  assumes r: "ringed ts xs" and t: "t \<in> set xs"
  shows "t_rq_next (ts t) \<in> set xs \<and> t_rq_prev (ts t) \<in> set xs
         \<and> t_rq_next (ts (t_rq_prev (ts t))) = t \<and> t_rq_prev (ts (t_rq_next (ts t))) = t"
proof -
  obtain ys zs where xs: "xs = ys @ t # zs" using t by (meson split_list)
  have s: "successively (linked ts) (ys @ t # zs @ [hd xs])" using r xs by (simp add: ringed_def)
  have h: "hd xs \<in> set xs" using t by (cases xs) auto
  have "linked ts t (hd (zs @ [hd xs]))"
    using s by (cases zs) (auto simp: successively_append_iff)
  moreover have "hd (zs @ [hd xs]) \<in> set xs" using h by (cases zs) (auto simp: xs)
  moreover have "linked ts (last (if ys = [] then t # zs else ys)) t"
  proof (cases "ys = []")
    case True
    have e: "t # zs @ [hd xs] = (t # zs) @ [t]" using True xs by simp
    have "successively (linked ts) ((t # zs) @ [t])" using s True unfolding e[symmetric] by simp
    thus ?thesis using True by (simp add: successively_append_iff del: append_Cons)
  next
    case False
    thus ?thesis using s by (auto simp: successively_append_iff)
  qed
  moreover have "last (if ys = [] then t # zs else ys) \<in> set xs" by (auto simp: xs)
  ultimately show ?thesis by (auto simp: linked_def)
qed

lemma ringed_only:
  assumes r: "ringed ts xs" and d: "distinct xs" and t: "t \<in> set xs" and n: "t_rq_next (ts t) = t"
  shows "xs = [t]"
proof -
  obtain ys zs where xs: "xs = ys @ t # zs" using t by (meson split_list)
  have s: "successively (linked ts) (ys @ t # zs @ [hd xs])" using r xs by (simp add: ringed_def)
  have e: "hd (zs @ [hd xs]) = t"
    using s n by (cases zs) (auto simp: successively_append_iff linked_def)
  show ?thesis
  proof (cases zs)
    case Nil
    thus ?thesis using e xs d by (cases ys) auto
  next
    case (Cons z zs')
    thus ?thesis using e xs d by simp
  qed
qed

text \<open>The ring without \<open>t\<close>, once its neighbours point at each other.\<close>

lemma ringed_remove:
  assumes r: "ringed ts xs" and d: "distinct xs" and t: "t \<in> set xs"
    and n: "n = t_rq_next (ts t)" and p: "p = t_rq_prev (ts t)" and nt: "n \<noteq> t"
    and link: "linked ts' p n"
    and keepn: "\<And>x. x \<noteq> p \<Longrightarrow> x \<noteq> t \<Longrightarrow> t_rq_next (ts' x) = t_rq_next (ts x)"
    and keepp: "\<And>x. x \<noteq> n \<Longrightarrow> x \<noteq> t \<Longrightarrow> t_rq_prev (ts' x) = t_rq_prev (ts x)"
  shows "ringed ts' (remove1 t xs)"
    and "hd (remove1 t xs) = (if hd xs = t then n else hd xs)"
    and "remove1 t xs \<noteq> []"
proof -
  obtain ys zs where xs: "xs = ys @ t # zs" using t by (meson split_list)
  have rm: "remove1 t xs = ys @ zs" using d by (simp add: xs remove1_append)
  have s: "successively (linked ts) (ys @ t # zs @ [hd xs])" using r xs by (simp add: ringed_def)
  have nb: "t_rq_next (ts p) = t" "t_rq_prev (ts n) = t"
    using ringed_neighbours[OF r t] by (auto simp: n p)
  have away: "successively (linked ts') us" if "successively (linked ts) us" "t \<notin> set us" for us
    using that(1)
  proof (rule successively_mono)
    fix x y assume xy: "x \<in> set us" "y \<in> set us" "linked ts x y"
    have "x \<noteq> t" "y \<noteq> t" using xy that(2) by auto
    moreover have "x \<noteq> p" "y \<noteq> n" using nb xy(3) calculation by (auto simp: linked_def)
    ultimately show "linked ts' x y" using xy(3) keepn keepp by (simp add: linked_def)
  qed
  have tn: "t \<notin> set ys" "t \<notin> set zs" using d xs by auto
  have hn: "hd (zs @ [hd xs]) = n"
    using s n by (cases zs) (auto simp: successively_append_iff linked_def)
  have "ringed ts' (ys @ zs) \<and> hd (ys @ zs) = (if hd xs = t then n else hd xs) \<and> ys @ zs \<noteq> []"
  proof (cases "ys = []")
    case True
    hence zne: "zs \<noteq> []" and hx: "hd xs = t" using hn nt xs by auto
    have hz: "hd zs = n" using hn zne by simp
    have e: "t # zs @ [hd xs] = [t] @ zs @ [t]" using hx by simp
    have s2: "successively (linked ts) zs" "linked ts (last zs) t"
      using s True zne unfolding e by (auto simp: successively_append_iff successively_Cons)
    have "last zs = p" using s2(2) p by (simp add: linked_def)
    thus ?thesis using True zne hz hx away[OF s2(1) tn(2)] link
      by (simp add: ringed_def successively_append_iff)
  next
    case False
    have s2: "successively (linked ts) ys" "linked ts (last ys) t" "successively (linked ts) (zs @ [hd xs])"
      using s False by (auto simp: successively_append_iff successively_Cons)
    have lp: "last ys = p" using s2(2) p by (simp add: linked_def)
    have hx: "hd xs = hd ys" "hd xs \<noteq> t" using False xs tn by auto
    have "t \<notin> set (zs @ [hd xs])" using hx tn by auto
    hence "successively (linked ts') (zs @ [hd xs])" using away s2(3) by blast
    hence "successively (linked ts') (ys @ zs @ [hd xs])"
      using away[OF s2(1) tn(1)] link lp hn False by (simp add: successively_append_iff)
    thus ?thesis using False hx by (simp add: ringed_def)
  qed
  thus "ringed ts' (remove1 t xs)" "hd (remove1 t xs) = (if hd xs = t then n else hd xs)"
    "remove1 t xs \<noteq> []" by (simp_all add: rm)
qed

lemma ringed_last:
  assumes "ringed ts xs" "xs \<noteq> []"
  shows "t_rq_prev (ts (hd xs)) = last xs \<and> t_rq_next (ts (last xs)) = hd xs"
  using assms by (simp add: ringed_def successively_append_iff linked_def)

text \<open>The ring with \<open>t\<close> between its old tail and its head.\<close>

lemma ringed_append:
  assumes r: "ringed ts xs" and d: "distinct xs" and ne: "xs \<noteq> []" and t: "t \<notin> set xs"
    and l1: "linked ts' (last xs) t" and l2: "linked ts' t (hd xs)"
    and keepn: "\<And>x. x \<noteq> last xs \<Longrightarrow> x \<noteq> t \<Longrightarrow> t_rq_next (ts' x) = t_rq_next (ts x)"
    and keepp: "\<And>x. x \<noteq> hd xs \<Longrightarrow> x \<noteq> t \<Longrightarrow> t_rq_prev (ts' x) = t_rq_prev (ts x)"
  shows "ringed ts' (xs @ [t])"
proof -
  have s: "successively (linked ts) xs" using r ne by (simp add: ringed_def successively_append_iff)
  have "successively (linked ts') xs"
  proof (rule successively_inner[OF s])
    fix x y assume xy: "x \<in> set (butlast xs)" "y \<in> set (tl xs)" "linked ts x y"
    have "x \<noteq> last xs" "y \<noteq> hd xs"
      using xy d ne by (metis append_butlast_last_id distinct_butlast not_distinct_conv_prefix)
        (metis xy(2) d ne distinct.simps(2) list.collapse)
    moreover have "x \<noteq> t" "y \<noteq> t" using xy t by (auto dest: in_set_butlastD list.set_sel(2)[OF ne])
    ultimately show "linked ts' x y" using xy(3) keepn keepp by (simp add: linked_def)
  qed
  thus ?thesis using l1 l2 ne by (simp add: ringed_def successively_append_iff)
qed

section \<open>Refinement\<close>

lemma run_lists_okD:
  assumes "run_lists_ok s L" "c < MAX_CPUS"
  shows "k_rq_head s c = (if L c = [] then -1 else int (hd (L c)))" "distinct (L c)"
    "ringed (k_tasks s) (L c)" "\<And>t. t \<in> set (L c) \<Longrightarrow> 0 < t \<and> t < k_max_tasks s"
    "\<And>t. t \<in> set (L c) \<longleftrightarrow> t_rq_home (k_tasks s t) = int c"
  using assms by (auto simp: run_lists_ok_def)

lemma run_lists_okI:
  assumes "\<And>c. c < MAX_CPUS \<Longrightarrow> k_rq_head s c = (if L c = [] then -1 else int (hd (L c)))"
    and "\<And>c. c < MAX_CPUS \<Longrightarrow> distinct (L c)"
    and "\<And>c. c < MAX_CPUS \<Longrightarrow> ringed (k_tasks s) (L c)"
    and "\<And>c t. c < MAX_CPUS \<Longrightarrow> t \<in> set (L c) \<Longrightarrow> 0 < t \<and> t < k_max_tasks s"
    and "\<And>c t. c < MAX_CPUS \<Longrightarrow> t \<in> set (L c) \<longleftrightarrow> t_rq_home (k_tasks s t) = int c"
  shows "run_lists_ok s L"
  unfolding run_lists_ok_def using assms by blast

lemma rq_unlink_homeless:
  assumes ok: "run_lists_ok s L" and c: "t_rq_home (k_tasks s t) < 0 \<or> t_rq_home (k_tasks s t) \<ge> int MAX_CPUS"
  shows "run_lists_ok (rq_unlink t s) (rl_unlink t L)"
proof -
  have s': "rq_unlink t s = upd_task t (\<lambda>x. x\<lparr> t_rq_home := -1 \<rparr>) s"
    using c by (auto simp: rq_unlink_def)
  have nin: "t \<notin> set (L c')" if "c' < MAX_CPUS" for c'
    using run_lists_okD(5)[OF ok that] c that by auto
  hence L': "rl_unlink t L c' = L c'" if "c' < MAX_CPUS" for c'
    using that by (simp add: rl_unlink_def remove1_idem)
  show ?thesis
  proof (rule run_lists_okI)
    fix c' assume c': "c' < MAX_CPUS"
    show "ringed (k_tasks (rq_unlink t s)) (rl_unlink t L c')"
      unfolding L'[OF c'] s' by (rule ringed_cong[OF run_lists_okD(3)[OF ok c']]) simp
  qed (use nin run_lists_okD[OF ok] in \<open>auto simp: L' s' upd_task_def\<close>)
qed

lemma rq_unlink_alone:
  assumes ok: "run_lists_ok s L" and c: "c < MAX_CPUS" "t_rq_home (k_tasks s t) = int c"
    and n: "t_rq_next (k_tasks s t) = t"
  shows "run_lists_ok (rq_unlink t s) (rl_unlink t L)"
proof -
  have Lc: "L c = [t]"
    using ringed_only[OF run_lists_okD(3,2)[OF ok c(1)] _ n] run_lists_okD(5)[OF ok c(1)] c(2) by blast
  have s': "rq_unlink t s = upd_task t (\<lambda>x. x\<lparr> t_rq_home := -1, t_rq_prev := t, t_rq_next := t \<rparr>)
              (s\<lparr> k_rq_head := (k_rq_head s)(c := -1) \<rparr>)"
    using c n by (simp add: rq_unlink_def Let_def)
  have nin: "t \<notin> set (L c')" if "c' < MAX_CPUS" "c' \<noteq> c" for c'
    using run_lists_okD(5)[OF ok that(1)] c that by auto
  hence L': "rl_unlink t L c' = (if c' = c then [] else L c')" if "c' < MAX_CPUS" for c'
    using that Lc by (simp add: rl_unlink_def remove1_idem)
  show ?thesis
  proof (rule run_lists_okI)
    fix c' assume c': "c' < MAX_CPUS"
    show "ringed (k_tasks (rq_unlink t s)) (rl_unlink t L c')"
    proof (cases "c' = c")
      case True thus ?thesis using c' by (simp add: L' ringed_def)
    next
      case False
      have "ringed (k_tasks (rq_unlink t s)) (L c')"
        by (rule ringed_cong[OF run_lists_okD(3)[OF ok c']]) (use nin[OF c' False] s' in \<open>auto simp: upd_task_def\<close>)
      thus ?thesis using False c' by (simp add: L')
    qed
    fix x
    show "x \<in> set (rl_unlink t L c') \<longleftrightarrow> t_rq_home (k_tasks (rq_unlink t s) x) = int c'"
      using run_lists_okD(5)[OF ok c'] nin[OF c'] c' c Lc run_lists_okD(5)[OF ok c(1)]
      by (auto simp: L' s' upd_task_def)
  qed (use run_lists_okD[OF ok] in \<open>auto simp: L' s' upd_task_def split: if_splits\<close>)
qed

text \<open>What unlinking does to a task with neighbours.\<close>

lemma rq_unlink_tasks:
  assumes c: "c < MAX_CPUS" "t_rq_home (k_tasks s t) = int c"
    and n: "n = t_rq_next (k_tasks s t)" "n \<noteq> t" and p: "p = t_rq_prev (k_tasks s t)" "p \<noteq> t"
  defines "ts' \<equiv> k_tasks (rq_unlink t s)"
  shows "linked ts' p n" "\<And>x. x \<noteq> p \<Longrightarrow> x \<noteq> t \<Longrightarrow> t_rq_next (ts' x) = t_rq_next (k_tasks s x)"
    "\<And>x. x \<noteq> n \<Longrightarrow> x \<noteq> t \<Longrightarrow> t_rq_prev (ts' x) = t_rq_prev (k_tasks s x)"
    "\<And>x. t_rq_home (ts' x) = (if x = t then -1 else t_rq_home (k_tasks s x))"
    "k_rq_head (rq_unlink t s) = (if k_rq_head s c = int t then (k_rq_head s)(c := int n) else k_rq_head s)"
    "k_max_tasks (rq_unlink t s) = k_max_tasks s"
  using c n p by (auto simp: ts'_def rq_unlink_def Let_def upd_task_def linked_def)

lemma rq_unlink_linked:
  assumes ok: "run_lists_ok s L" and c: "c < MAX_CPUS" "t_rq_home (k_tasks s t) = int c"
    and n: "t_rq_next (k_tasks s t) \<noteq> t"
  shows "run_lists_ok (rq_unlink t s) (rl_unlink t L)"
proof -
  have tin: "t \<in> set (L c)" using run_lists_okD(5)[OF ok c(1)] c(2) by blast
  note nb = ringed_neighbours[OF run_lists_okD(3)[OF ok c(1)] tin]
  define n' p' where np: "n' = t_rq_next (k_tasks s t)" "p' = t_rq_prev (k_tasks s t)"
  have pt: "p' \<noteq> t" using nb n np by auto
  have nt: "n' \<noteq> t" using n np by simp
  note un = rq_unlink_tasks[OF c np(1) nt np(2) pt]
  note rm = ringed_remove[OF run_lists_okD(3,2)[OF ok c(1)] tin np(1,2) nt un(1-3)]
  have out: "t \<notin> set (L c') \<and> n' \<notin> set (L c') \<and> p' \<notin> set (L c')" if "c' < MAX_CPUS" "c' \<noteq> c" for c'
    using run_lists_okD(5)[OF ok that(1)] run_lists_okD(5)[OF ok c(1)] nb tin c that np by auto
  hence L': "rl_unlink t L c' = (if c' = c then remove1 t (L c) else L c')" if "c' < MAX_CPUS" for c'
    using that by (simp add: rl_unlink_def remove1_idem)
  have hd0: "k_rq_head s c = int (hd (L c))" using run_lists_okD(1)[OF ok c(1)] tin by auto
  show ?thesis
  proof (rule run_lists_okI)
    fix c' assume c': "c' < MAX_CPUS"
    show "k_rq_head (rq_unlink t s) c' = (if rl_unlink t L c' = [] then -1 else int (hd (rl_unlink t L c')))"
      using rm(2,3) hd0 run_lists_okD(1)[OF ok c'] c' unfolding un(5) by (auto simp: L')
    show "ringed (k_tasks (rq_unlink t s)) (rl_unlink t L c')"
    proof (cases "c' = c")
      case True thus ?thesis using rm(1) c' by (simp add: L')
    next
      case False
      have "ringed (k_tasks (rq_unlink t s)) (L c')"
        by (rule ringed_cong[OF run_lists_okD(3)[OF ok c']]) (use out[OF c' False] un(2,3) in metis)
      thus ?thesis using False c' by (simp add: L')
    qed
    show "distinct (rl_unlink t L c')" using run_lists_okD(2)[OF ok c'] by (simp add: rl_unlink_def)
    fix x
    show "x \<in> set (rl_unlink t L c') \<longleftrightarrow> t_rq_home (k_tasks (rq_unlink t s) x) = int c'"
      using run_lists_okD(2,5)[OF ok c'] by (auto simp: rl_unlink_def un(4))
    show "x \<in> set (rl_unlink t L c') \<Longrightarrow> 0 < x \<and> x < k_max_tasks (rq_unlink t s)"
      using run_lists_okD(4)[OF ok c'] un(6) by (auto simp: rl_unlink_def dest: notin_set_remove1)
  qed
qed

lemma rq_unlink_refines:
  assumes ok: "run_lists_ok s L"
  shows "run_lists_ok (rq_unlink t s) (rl_unlink t L)"
proof (cases "t_rq_home (k_tasks s t) < 0 \<or> t_rq_home (k_tasks s t) \<ge> int MAX_CPUS")
  case True thus ?thesis using rq_unlink_homeless[OF ok] by blast
next
  case False
  then obtain c where "c < MAX_CPUS" "t_rq_home (k_tasks s t) = int c"
    by (metis linorder_not_le nonneg_int_cases of_nat_less_iff)
  thus ?thesis using rq_unlink_alone[OF ok] rq_unlink_linked[OF ok] by blast
qed

lemma rq_unlink_frame:
  "k_max_tasks (rq_unlink t s) = k_max_tasks s"
  "t_rq_home (k_tasks (rq_unlink t s) x) = (if x = t then -1 else t_rq_home (k_tasks s x))"
  by (auto simp: rq_unlink_def Let_def upd_task_def)

text \<open>Appending an unhomed task, the second half of \<open>rq_home_on\<close>.\<close>

definition rq_append :: "nat \<Rightarrow> nat \<Rightarrow> kstate \<Rightarrow> kstate" where
  "rq_append t c s1 =
    (let h = k_rq_head s1 c;
         s2 = (if h < 0
               then upd_task t (\<lambda>x. x\<lparr> t_rq_prev := t, t_rq_next := t \<rparr>)
                      (s1\<lparr> k_rq_head := (k_rq_head s1)(c := int t) \<rparr>)
               else let hd' = nat h; tail = t_rq_prev (k_tasks s1 hd');
                        a = upd_task t (\<lambda>x. x\<lparr> t_rq_next := hd' \<rparr>) s1;
                        b = upd_task t (\<lambda>x. x\<lparr> t_rq_prev := tail \<rparr>) a;
                        d = upd_task tail (\<lambda>x. x\<lparr> t_rq_next := t \<rparr>) b
                    in upd_task hd' (\<lambda>x. x\<lparr> t_rq_prev := t \<rparr>) d)
     in upd_task t (\<lambda>x. x\<lparr> t_rq_home := int c \<rparr>) s2)"

lemma rq_home_on_append:
  "0 < t \<Longrightarrow> t < k_max_tasks s \<Longrightarrow> c < MAX_CPUS \<Longrightarrow>
   rq_home_on (int t) (int c) s = rq_append t c (rq_unlink t s)"
  by (simp add: rq_home_on_def rq_append_def Let_def)

lemma rq_append_frame:
  "k_max_tasks (rq_append t c s) = k_max_tasks s"
  "t_rq_home (k_tasks (rq_append t c s) x) = (if x = t then int c else t_rq_home (k_tasks s x))"
  by (auto simp: rq_append_def Let_def upd_task_def)

lemma rq_append_empty:
  "k_rq_head s c = -1 \<Longrightarrow> k_rq_head (rq_append t c s) = (k_rq_head s)(c := int t)"
  "k_rq_head s c = -1 \<Longrightarrow> linked (k_tasks (rq_append t c s)) t t"
  "k_rq_head s c = -1 \<Longrightarrow> x \<noteq> t \<Longrightarrow>
     t_rq_next (k_tasks (rq_append t c s) x) = t_rq_next (k_tasks s x)
     \<and> t_rq_prev (k_tasks (rq_append t c s) x) = t_rq_prev (k_tasks s x)"
  by (auto simp: rq_append_def Let_def upd_task_def linked_def)

lemma rq_append_tail:
  assumes "k_rq_head s c = int h" "l = t_rq_prev (k_tasks s h)" "l \<noteq> t" "h \<noteq> t"
  shows "k_rq_head (rq_append t c s) = k_rq_head s"
    "linked (k_tasks (rq_append t c s)) l t" "linked (k_tasks (rq_append t c s)) t h"
    "\<And>x. x \<noteq> l \<Longrightarrow> x \<noteq> t \<Longrightarrow> t_rq_next (k_tasks (rq_append t c s) x) = t_rq_next (k_tasks s x)"
    "\<And>x. x \<noteq> h \<Longrightarrow> x \<noteq> t \<Longrightarrow> t_rq_prev (k_tasks (rq_append t c s) x) = t_rq_prev (k_tasks s x)"
  using assms by (auto simp: rq_append_def Let_def upd_task_def linked_def)

lemma rq_append_links:
  assumes ok: "run_lists_ok s L" and c: "c < MAX_CPUS" and home: "t_rq_home (k_tasks s t) = -1"
  shows "ringed (k_tasks (rq_append t c s)) (L c @ [t])
         \<and> k_rq_head (rq_append t c s) = (k_rq_head s)(c := int (hd (L c @ [t])))
         \<and> (\<forall>c'<MAX_CPUS. c' \<noteq> c \<longrightarrow> ringed (k_tasks (rq_append t c s)) (L c'))"
proof -
  have out: "t \<notin> set (L c')" if "c' < MAX_CPUS" for c'
    using run_lists_okD(5)[OF ok that] home by auto
  note r = run_lists_okD(3)[OF ok]
  show ?thesis
  proof (cases "L c = []")
    case True
    hence h: "k_rq_head s c = -1" using run_lists_okD(1)[OF ok c] by simp
    have "ringed (k_tasks (rq_append t c s)) (L c')" if "c' < MAX_CPUS" for c'
      by (rule ringed_cong[OF r[OF that]]) (use rq_append_empty(3)[OF h] out[OF that] in metis)
    thus ?thesis using True rq_append_empty(1,2)[OF h, of t] by (simp add: ringed_def)
  next
    case False
    define h l where hl: "h = hd (L c)" "l = last (L c)"
    have kh: "k_rq_head s c = int h" using run_lists_okD(1)[OF ok c] False hl by simp
    have pl: "l = t_rq_prev (k_tasks s h)" using ringed_last[OF r[OF c] False] hl by simp
    have inl: "h \<in> set (L c)" "l \<in> set (L c)" using False hl by auto
    have ne: "l \<noteq> t" "h \<noteq> t" using inl out[OF c] by auto
    note ap = rq_append_tail[OF kh pl ne]
    have "ringed (k_tasks (rq_append t c s)) (L c @ [t])"
      by (rule ringed_append[OF r[OF c] run_lists_okD(2)[OF ok c] False out[OF c]]) (use ap hl in auto)
    moreover have "ringed (k_tasks (rq_append t c s)) (L c')" if c': "c' < MAX_CPUS" "c' \<noteq> c" for c'
    proof (rule ringed_cong[OF r[OF c'(1)]])
      fix x assume x: "x \<in> set (L c')"
      have "x \<noteq> l" "x \<noteq> h" "x \<noteq> t"
        using x inl run_lists_okD(5)[OF ok c'(1)] run_lists_okD(5)[OF ok c] c' out[OF c'(1)] by auto
      thus "t_rq_next (k_tasks (rq_append t c s) x) = t_rq_next (k_tasks s x)
            \<and> t_rq_prev (k_tasks (rq_append t c s) x) = t_rq_prev (k_tasks s x)" using ap(4,5) by blast
    qed
    ultimately show ?thesis using ap(1) kh False hl by (simp add: fun_upd_idem)
  qed
qed

lemma rq_append_refines:
  assumes ok: "run_lists_ok s L" and c: "c < MAX_CPUS" and home: "t_rq_home (k_tasks s t) = -1"
    and t: "0 < t" "t < k_max_tasks s"
  shows "run_lists_ok (rq_append t c s) (L(c := L c @ [t]))"
proof -
  note ap = rq_append_links[OF ok c home]
  have out: "t \<notin> set (L c')" if "c' < MAX_CPUS" for c'
    using run_lists_okD(5)[OF ok that] home by auto
  show ?thesis
  proof (rule run_lists_okI)
    fix c' assume c': "c' < MAX_CPUS"
    show "k_rq_head (rq_append t c s) c' =
          (if (L(c := L c @ [t])) c' = [] then -1 else int (hd ((L(c := L c @ [t])) c')))"
      using ap run_lists_okD(1)[OF ok c'] by auto
    show "distinct ((L(c := L c @ [t])) c')" using run_lists_okD(2)[OF ok c'] out[OF c] by auto
    show "ringed (k_tasks (rq_append t c s)) ((L(c := L c @ [t])) c')" using ap c' by auto
    fix x
    show "x \<in> set ((L(c := L c @ [t])) c') \<Longrightarrow> 0 < x \<and> x < k_max_tasks (rq_append t c s)"
      using run_lists_okD(4)[OF ok c'] t by (auto simp: rq_append_frame split: if_splits)
    show "x \<in> set ((L(c := L c @ [t])) c') \<longleftrightarrow> t_rq_home (k_tasks (rq_append t c s) x) = int c'"
      using run_lists_okD(5)[OF ok c'] out[OF c'] c by (auto simp: rq_append_frame split: if_splits)
  qed
qed

lemma rq_home_on_refines:
  assumes ok: "run_lists_ok s L" and t: "0 < t" "t < k_max_tasks s" and c: "c < MAX_CPUS"
  shows "run_lists_ok (rq_home_on (int t) (int c) s) (rl_home_on t c L)"
  unfolding rq_home_on_append[OF t c] rl_home_on_def Let_def
  by (rule rq_append_refines[OF rq_unlink_refines[OF ok] c]) (use t in \<open>simp_all add: rq_unlink_frame\<close>)

section \<open>Properties\<close>

text \<open>C28. The doubly linked run lists implement plain lists: unlinking a task removes
  it from the list it is on and nothing else, and homing it on a CPU appends it to
  that CPU's list after taking it off any other.\<close>

theorem run_lists_refined:
  assumes "run_lists_ok s L"
  shows "run_lists_ok (rq_unlink t s) (rl_unlink t L)
     \<and> (0 < t \<and> t < k_max_tasks s \<and> c < MAX_CPUS \<longrightarrow> run_lists_ok (rq_home_on (int t) (int c) s) (rl_home_on t c L))"
  using rq_unlink_refines[OF assms] rq_home_on_refines[OF assms] by blast

theorem run_lists_refined_witness:
  "run_lists_ok (rq_home_on 3 1 zero_kstate) ((\<lambda>_. [])(1 := [3]))"
proof -
  have z: "run_lists_ok zero_kstate (\<lambda>_. [])"
    by (rule run_lists_okI) (auto simp: zero_kstate_def ringed_def zero_tcb_def)
  have "rl_home_on 3 1 (\<lambda>_. []) = (\<lambda>_. [])(1 := [3])" by (simp add: rl_home_on_def rl_unlink_def)
  thus ?thesis using run_lists_refined[OF z, of 3 1] by (simp add: zero_kstate_def)
qed

end
