(* ===== verification/Sched_Ctx.thy ===== *)
theory Sched_Ctx
  imports Run_List
begin

text \<open>
  Scheduling contexts: CPU time as a capability (\<^verbatim>\<open>src/kernel/scheduler.c\<close> and
  \<^verbatim>\<open>rust/src/sched.rs\<close>).  A context holds a share of one CPU in parts per
  million and spends it as a budget every period.  Modelled here: the checked
  arithmetic of a split and a reclaim, the refill of a context, the charge a CPU
  makes against the context it stamped, binding, priorities, and the destruction
  of a context, which returns its share to its nearest living ancestor.  The
  invariant says that the shares on each CPU always add up to one whole CPU.
  Times are microseconds of a 64-bit clock and are natural numbers here; the
  remaining budget, which goes negative for debt, is an integer.
\<close>

section \<open>The checked arithmetic of \<^verbatim>\<open>rust/src/sched.rs\<close>\<close>

abbreviation (input) MIN_PERIOD_US :: nat where "MIN_PERIOD_US \<equiv> 10000"
abbreviation (input) MAX_PERIOD_US :: nat where "MAX_PERIOD_US \<equiv> 10000000"
abbreviation (input) SPLIT_INVAL :: int where "SPLIT_INVAL \<equiv> - 1"
abbreviation (input) SPLIT_NO_SHARE :: int where "SPLIT_NO_SHARE \<equiv> - 2"

definition child_share :: "nat \<Rightarrow> nat \<Rightarrow> nat option" where
  "child_share budget_us period_us =
    (if \<not> (MIN_PERIOD_US \<le> period_us \<and> period_us \<le> MAX_PERIOD_US) then None
     else if budget_us = 0 \<or> budget_us > period_us then None
     else let num = budget_us * SC_PPM_WHOLE;
              share = (num + period_us - 1) div period_us
          in if share < 2 ^ 32 then Some share else None)"

definition split_with_share :: "nat \<Rightarrow> nat \<Rightarrow> nat \<Rightarrow> nat \<Rightarrow> int + nat \<times> nat" where
  "split_with_share parent_share budget_us period_us share =
    (if parent_share > SC_PPM_WHOLE \<or> \<not> (MIN_PERIOD_US \<le> period_us \<and> period_us \<le> MAX_PERIOD_US)
     then Inl SPLIT_INVAL
     else if budget_us = 0 \<or> budget_us > period_us \<or> share = 0 \<or> share > SC_PPM_WHOLE
     then Inl SPLIT_INVAL
     else if share * period_us < budget_us * SC_PPM_WHOLE then Inl SPLIT_INVAL
     else if share > parent_share then Inl SPLIT_NO_SHARE
     else Inr (parent_share - share, share))"

definition rust_sc_split :: "nat \<Rightarrow> nat \<Rightarrow> nat \<Rightarrow> int + nat \<times> nat" where
  "rust_sc_split parent_share budget_us period_us =
    (case child_share budget_us period_us of
       None \<Rightarrow> Inl SPLIT_INVAL
     | Some share \<Rightarrow> split_with_share parent_share budget_us period_us share)"

definition rust_sc_reclaim :: "nat \<Rightarrow> nat \<Rightarrow> nat" where
  "rust_sc_reclaim parent_share c_share =
    (let sm = parent_share + c_share in
     if sm < 2 ^ 32 \<and> sm \<le> SC_PPM_WHOLE then sm else SC_PPM_WHOLE)"

section \<open>Contexts and their indices\<close>

definition sched_root_index :: "int \<Rightarrow> nat" where
  "sched_root_index cpu = (if cpu < 0 \<or> cpu \<ge> int MAX_CPUS then 0 else SC_ROOT_BASE + nat cpu)"

definition sched_cpu_schedules :: "int \<Rightarrow> kstate \<Rightarrow> bool" where
  "sched_cpu_schedules cpu s \<longleftrightarrow> cpu \<ge> 0 \<and> cpu < int MAX_CPUS \<and> k_sc_cpu_up s (nat cpu)"

definition sched_cpu_online :: "int \<Rightarrow> kstate \<Rightarrow> kstate" where
  "sched_cpu_online cpu s =
    (if cpu \<ge> 0 \<and> cpu < int MAX_CPUS then s\<lparr> k_sc_cpu_up := (k_sc_cpu_up s)(nat cpu := True) \<rparr> else s)"

text \<open>A context is named by its index; the result is the same index when a
  context's memory is there.\<close>

definition sc_dyn_by_index :: "kstate \<Rightarrow> nat \<Rightarrow> nat option" where
  "sc_dyn_by_index s idx =
    (if idx < DYN_SC_BASE \<or> idx \<ge> SC_INDEX_MAX then None
     else if ks_mem (k_dyn_scs s ! (idx - DYN_SC_BASE)) = 0 then None else Some idx)"

definition sc_by_index :: "kstate \<Rightarrow> nat \<Rightarrow> nat option" where
  "sc_by_index s idx =
    (if idx \<ge> SC_ROOT_BASE \<and> idx < SC_ROOT_BASE + MAX_CPUS then Some idx
     else if idx \<ge> DYN_SC_BASE \<and> idx < SC_INDEX_MAX then sc_dyn_by_index s idx
     else None)"

definition upd_sc :: "nat \<Rightarrow> (sched_context \<Rightarrow> sched_context) \<Rightarrow> kstate \<Rightarrow> kstate" where
  "upd_sc i f s = s\<lparr> k_scs := (k_scs s)(i := f (k_scs s i)) \<rparr>"

definition root_context :: "nat \<Rightarrow> nat \<Rightarrow> sched_context" where
  "root_context c now =
    \<lparr> sc_live = True, sc_cpu = int c, sc_share_ppm = SC_PPM_WHOLE, sc_period_us = SC_ROOT_PERIOD_US,
      sc_slack = True, sc_root = True, sc_parent = 0, sc_remaining_us = int SC_ROOT_PERIOD_US,
      sc_period_start_us = now, sc_consumed_us = 0, sc_charged_cpu = -1 \<rparr>"

text \<open>The index ranges the loops run over.\<close>

definition dyn_sc_indices :: "nat list" where
  "dyn_sc_indices = [DYN_SC_BASE..<SC_INDEX_MAX]"

definition all_cpus :: "nat list" where
  "all_cpus = [0..<MAX_CPUS]"

definition init_root :: "nat \<Rightarrow> nat \<Rightarrow> kstate \<Rightarrow> kstate" where
  "init_root now c s =
    (upd_sc (SC_ROOT_BASE + c) (\<lambda>_. root_context c now) s)
      \<lparr> k_sc_stamp_idx := (k_sc_stamp_idx s)(c := 0) \<rparr>"

definition sched_contexts_init :: "kstate \<Rightarrow> kstate" where
  "sched_contexts_init s =
    (let now = k_clock_us s;
         s1 = fold (init_root now) all_cpus s
     in s1\<lparr> k_sc_cpu_up := (k_sc_cpu_up s1)(0 := True) \<rparr>)"

definition live_sc :: "kstate \<Rightarrow> nat \<Rightarrow> bool" where
  "live_sc s i \<longleftrightarrow> sc_by_index s i \<noteq> None \<and> sc_live (k_scs s i)"

definition task_sc :: "kstate \<Rightarrow> int \<Rightarrow> nat option" where
  "task_sc s t =
    (if t \<le> 0 \<or> t \<ge> int (k_max_tasks s) then None
     else let i = t_sc_index (k_tasks s (nat t)) in
          case sc_by_index s i of None \<Rightarrow> None | Some j \<Rightarrow> if sc_live (k_scs s j) then Some j else None)"

section \<open>Budgets\<close>

definition sc_budget_us :: "sched_context \<Rightarrow> nat" where
  "sc_budget_us sc = (sc_share_ppm sc * sc_period_us sc) div SC_PPM_WHOLE"

definition sc_projected :: "sched_context \<Rightarrow> nat \<Rightarrow> int \<times> nat" where
  "sc_projected sc now =
    (let r = sc_remaining_us sc in
     if now < sc_period_start_us sc \<or> sc_period_us sc = 0 then (r, 0)
     else let n = (now - sc_period_start_us sc) div sc_period_us sc in
          if n = 0 then (r, 0)
          else let budget = int (sc_budget_us sc) in
               if budget \<le> 0 then (if r > 0 then 0 else r, n)
               else if r < 0 \<and> int n \<le> (- r) div budget then (r + int n * budget, n)
               else (budget, n))"

definition sc_refresh :: "int \<Rightarrow> nat \<Rightarrow> sched_context \<Rightarrow> sched_context" where
  "sc_refresh cpu now sc =
    (if sc_cpu sc \<noteq> cpu then sc
     else let (r, n) = sc_projected sc now in
          if n = 0 then sc
          else sc\<lparr> sc_remaining_us := r, sc_period_start_us := sc_period_start_us sc + n * sc_period_us sc \<rparr>)"

definition sc_has_budget :: "sched_context \<Rightarrow> nat \<Rightarrow> bool" where
  "sc_has_budget sc now \<longleftrightarrow> fst (sc_projected sc now) > 0"

definition sc_refill_at :: "sched_context \<Rightarrow> nat" where
  "sc_refill_at sc =
    (let b = int (sc_budget_us sc) in
     if b \<le> 0 \<or> sc_period_us sc = 0 then 0
     else let r = sc_remaining_us sc;
              n = (if r < 0 then nat ((- r) div b) + 1 else 1)
          in sc_period_start_us sc + n * sc_period_us sc)"

datatype sc_run = SC_RUN_NONE | SC_RUN_BUDGET | SC_RUN_SLACK

definition sc_eligible :: "kstate \<Rightarrow> int \<Rightarrow> int \<Rightarrow> nat \<Rightarrow> sc_run" where
  "sc_eligible s t cpu now =
    (case task_sc s t of
       None \<Rightarrow> SC_RUN_NONE
     | Some i \<Rightarrow> let sc = k_scs s i in
         if sc_cpu sc = cpu \<and> sc_has_budget sc now then SC_RUN_BUDGET
         else if sc_slack sc then SC_RUN_SLACK else SC_RUN_NONE)"

definition sc_runnable_somewhere :: "kstate \<Rightarrow> int \<Rightarrow> nat \<Rightarrow> bool" where
  "sc_runnable_somewhere s t now =
    (case task_sc s t of None \<Rightarrow> False | Some i \<Rightarrow> sc_slack (k_scs s i) \<or> sc_has_budget (k_scs s i) now)"

section \<open>Charging\<close>

text \<open>The charge of one run, from the stamp to now, split at the end of the period
  the stamp lies in.\<close>

definition charge_run :: "int \<Rightarrow> nat \<Rightarrow> nat \<Rightarrow> sched_context \<Rightarrow> sched_context" where
  "charge_run cpu stamp now sc =
    (let fin = sc_period_start_us sc + sc_period_us sc;
         (sc1, from) =
           (if sc_period_us sc \<noteq> 0 \<and> sc_cpu sc = cpu \<and> stamp < fin \<and> fin < now
            then (sc_refresh cpu now (sc\<lparr> sc_remaining_us := sc_remaining_us sc - int (fin - stamp) \<rparr>), fin)
            else (sc, stamp))
     in sc1\<lparr> sc_remaining_us := sc_remaining_us sc1 - int (now - from),
              sc_consumed_us := sc_consumed_us sc1 + (now - stamp),
              sc_charged_cpu := cpu \<rparr>)"

definition sc_charge :: "nat \<Rightarrow> nat \<Rightarrow> kstate \<Rightarrow> kstate" where
  "sc_charge cpu now s =
    (let stamp = k_sc_stamp_us s cpu;
         s1 = (case sc_by_index s (k_sc_stamp_idx s cpu) of
                 None \<Rightarrow> s
               | Some i \<Rightarrow> if sc_live (k_scs s i) \<and> now > stamp
                           then upd_sc i (charge_run (int cpu) stamp now) s else s)
     in if now > stamp then s1\<lparr> k_sc_stamp_us := (k_sc_stamp_us s1)(cpu := now) \<rparr> else s1)"

definition sc_account_stamp :: "nat \<Rightarrow> int \<Rightarrow> nat \<Rightarrow> kstate \<Rightarrow> int \<times> kstate" where
  "sc_account_stamp cpu chosen now s =
    (let s1 = sc_charge cpu now s;
         s2 = s1\<lparr> k_sc_stamp_idx := (k_sc_stamp_idx s1)(cpu := 0),
                  k_sc_stamp_us := (k_sc_stamp_us s1)(cpu := now) \<rparr>;
         cur = k_percpu_cur s2 cpu;
         who = (if chosen \<le> 0
                then (if cur > 0 \<and> cur < int (k_max_tasks s2)
                         \<and> t_state (k_tasks s2 (nat cur)) = TASK_RUNNABLE
                         \<and> t_pending_block (k_tasks s2 (nat cur)) = 0 then cur else 0)
                else chosen)
     in if who = 0 then (0, s2)
        else case task_sc s2 who of
               None \<Rightarrow> (0, s2)
             | Some i \<Rightarrow>
                 if sc_cpu (k_scs s2 i) \<noteq> int cpu then (0, s2)
                 else let s3 = upd_sc i (sc_refresh (int cpu) now) s2 in
                      if sc_remaining_us (k_scs s3 i) \<le> 0 then (0, s3)
                      else (who, s3\<lparr> k_sc_stamp_idx := (k_sc_stamp_idx s3)
                                       (cpu := t_sc_index (k_tasks s3 (nat who))) \<rparr>))"

section \<open>Splitting, binding, priorities\<close>

definition sc_bind_locked :: "nat \<Rightarrow> nat \<Rightarrow> kstate \<Rightarrow> kstate" where
  "sc_bind_locked t idx s =
    (let sc = k_scs s idx; s1 = upd_task t (\<lambda>x. x\<lparr> t_sc_index := idx \<rparr>) s in
     if \<not> sc_slack sc \<and> t_rq_home (k_tasks s1 t) \<noteq> sc_cpu sc
     then rq_home_on (int t) (sc_cpu sc) s1 else s1)"

definition carved :: "sched_context \<Rightarrow> nat \<Rightarrow> nat \<Rightarrow> nat \<Rightarrow> bool \<Rightarrow> nat \<Rightarrow> sched_context" where
  "carved p parent_idx share period slack now =
    \<lparr> sc_live = True, sc_cpu = sc_cpu p, sc_share_ppm = share, sc_period_us = period,
      sc_slack = slack, sc_root = False, sc_parent = parent_idx,
      sc_remaining_us = int ((share * period) div SC_PPM_WHOLE),
      sc_period_start_us = now, sc_consumed_us = 0, sc_charged_cpu = -1 \<rparr>"

definition sched_carve :: "nat \<Rightarrow> nat option \<Rightarrow> nat \<Rightarrow> nat \<Rightarrow> u32 \<Rightarrow> kstate \<Rightarrow> int \<times> kstate" where
  "sched_carve parent_idx child budget_us period_us flags s =
    (case child of
       None \<Rightarrow> (SYS_ERR_INVAL, s)
     | Some ch \<Rightarrow>
         if flags AND NOT SC_FLAG_SLACK \<noteq> 0 then (SYS_ERR_INVAL, s)
         else case sc_by_index s parent_idx of
           None \<Rightarrow> (SYS_ERR_INVAL, s)
         | Some pi \<Rightarrow>
             let p = k_scs s pi; slack = (flags AND SC_FLAG_SLACK \<noteq> 0) in
             if \<not> sc_live p then (SYS_ERR_INVAL, s)
             else if slack \<and> \<not> sc_slack p then (SYS_ERR_PERM, s)
             else case rust_sc_split (sc_share_ppm p) budget_us period_us of
               Inl rc \<Rightarrow> (if rc = SPLIT_NO_SHARE then SYS_ERR_NOMEM else SYS_ERR_INVAL, s)
             | Inr (np, nc) \<Rightarrow>
                 let p' = p\<lparr> sc_share_ppm := np \<rparr>;
                     p'' = p'\<lparr> sc_remaining_us := sc_remaining_us p'
                                 - (int (sc_budget_us p) - int (sc_budget_us p')) \<rparr>;
                     c = carved p parent_idx nc period_us slack (k_clock_us s);
                     s1 = upd_sc ch (\<lambda>_. c) (upd_sc pi (\<lambda>_. p'') s)
                 in (0, if sc_cpu c \<ge> 0 \<and> sc_cpu c < int MAX_CPUS
                        then s1\<lparr> k_sc_carved_live := (k_sc_carved_live s1)
                                   (nat (sc_cpu c) := k_sc_carved_live s1 (nat (sc_cpu c)) + 1) \<rparr>
                        else s1))"

definition sched_bind :: "int \<Rightarrow> nat \<Rightarrow> kstate \<Rightarrow> int \<times> kstate" where
  "sched_bind target idx s =
    (if target \<le> 0 \<or> target \<ge> int (k_max_tasks s) then (SYS_ERR_INVAL, s)
     else case sc_by_index s idx of
       None \<Rightarrow> (SYS_ERR_INVAL, s)
     | Some i \<Rightarrow>
         if \<not> sc_live (k_scs s i) \<or> t_state (k_tasks s (nat target)) = 0 then (SYS_ERR_INVAL, s)
         else (0, sc_bind_locked (nat target) idx s))"

definition sched_set_priority :: "int \<Rightarrow> int \<Rightarrow> nat \<Rightarrow> nat \<Rightarrow> kstate \<Rightarrow> int \<times> kstate" where
  "sched_set_priority caller target prio mx s =
    (if caller \<le> 0 \<or> caller \<ge> int (k_max_tasks s) \<or> target \<le> 0 \<or> target \<ge> int (k_max_tasks s)
     then (SYS_ERR_INVAL, s)
     else if prio > t_max_priority (k_tasks s (nat caller))
           \<or> mx > t_max_priority (k_tasks s (nat caller)) then (SYS_ERR_PERM, s)
     else if t_state (k_tasks s (nat target)) = 0 then (SYS_ERR_INVAL, s)
     else (0, upd_task (nat target) (\<lambda>x. x\<lparr> t_priority := prio, t_max_priority := mx \<rparr>) s))"

definition sched_get_priority :: "int \<Rightarrow> kstate \<Rightarrow> int" where
  "sched_get_priority target s =
    (if target \<le> 0 \<or> target \<ge> int (k_max_tasks s) then SYS_ERR_INVAL
     else let x = k_tasks s (nat target) in
          if t_state x = 0 then SYS_ERR_INVAL
          else int (push_bit 8 (t_max_priority x AND 0xFF) OR (t_priority x AND 0xFF)))"

record sched_info =
  si_cpu :: u32
  si_slack :: bool
  si_root :: bool
  si_share_ppm :: nat
  si_period_us :: nat
  si_budget_us :: nat
  si_remaining_us :: int
  si_consumed_us :: nat

definition tick_us :: nat where
  "tick_us = 1000000 div 100"

text \<open>C division truncates towards zero.\<close>

definition sched_info_index :: "nat \<Rightarrow> kstate \<Rightarrow> int + sched_info" where
  "sched_info_index idx s =
    (case sc_by_index s idx of
       None \<Rightarrow> Inl SYS_ERR_INVAL
     | Some i \<Rightarrow> let sc = k_scs s i in
         if \<not> sc_live sc then Inl SYS_ERR_INVAL
         else Inr \<lparr> si_cpu = of_int (sc_cpu sc), si_slack = sc_slack sc, si_root = sc_root sc,
                    si_share_ppm = sc_share_ppm sc, si_period_us = sc_period_us sc,
                    si_budget_us = sc_budget_us sc,
                    si_remaining_us = sgn (sc_remaining_us sc)
                      * (abs (sc_remaining_us sc) div int tick_us) * int tick_us,
                    si_consumed_us = (sc_consumed_us sc div tick_us) * tick_us \<rparr>)"

section \<open>Destruction\<close>

primrec find_heir :: "nat \<Rightarrow> kstate \<Rightarrow> nat \<Rightarrow> nat option" where
  "find_heir 0 s hidx = None"
| "find_heir (Suc n) s hidx =
    (if hidx = 0 then None
     else case sc_by_index s hidx of
            None \<Rightarrow> find_heir n s 0
          | Some a \<Rightarrow> if sc_live (k_scs s a) then Some hidx else find_heir n s (sc_parent (k_scs s a)))"

definition reparent_ctx :: "nat \<Rightarrow> nat \<Rightarrow> nat \<Rightarrow> kstate \<Rightarrow> kstate" where
  "reparent_ctx idx hidx i s =
    (case sc_by_index s i of
       None \<Rightarrow> s
     | Some k \<Rightarrow> if sc_live (k_scs s k) \<and> sc_parent (k_scs s k) = idx
                 then upd_sc k (\<lambda>x. x\<lparr> sc_parent := hidx \<rparr>) s else s)"

definition unbind_task :: "nat \<Rightarrow> nat \<Rightarrow> kstate \<Rightarrow> kstate" where
  "unbind_task idx t s =
    (if t_sc_index (k_tasks s t) = idx then upd_task t (\<lambda>x. x\<lparr> t_sc_index := 0 \<rparr>) s else s)"

definition clear_stamp :: "nat \<Rightarrow> nat \<Rightarrow> kstate \<Rightarrow> kstate" where
  "clear_stamp idx c s =
    (if k_sc_stamp_idx s c = idx then s\<lparr> k_sc_stamp_idx := (k_sc_stamp_idx s)(c := 0) \<rparr> else s)"

definition uncount_carved :: "int \<Rightarrow> kstate \<Rightarrow> kstate" where
  "uncount_carved cpu s =
    (if cpu \<ge> 0 \<and> cpu < int MAX_CPUS \<and> k_sc_carved_live s (nat cpu) \<noteq> 0
     then s\<lparr> k_sc_carved_live := (k_sc_carved_live s)(nat cpu := k_sc_carved_live s (nat cpu) - 1) \<rparr>
     else s)"

definition sched_context_destroyed :: "nat \<Rightarrow> kstate \<Rightarrow> kstate" where
  "sched_context_destroyed idx s =
    (let sc = k_scs s idx in
     if \<not> sc_live sc \<or> sc_root sc then s
     else
       let s1 = uncount_carved (sc_cpu sc) (upd_sc idx (\<lambda>x. x\<lparr> sc_live := False \<rparr>) s);
           s2 = (case find_heir SC_INDEX_MAX s1 (sc_parent sc) of
                   None \<Rightarrow> s1
                 | Some h \<Rightarrow>
                     fold (reparent_ctx idx h) dyn_sc_indices
                       (upd_sc h (\<lambda>x. x\<lparr> sc_share_ppm := rust_sc_reclaim (sc_share_ppm x) (sc_share_ppm sc) \<rparr>) s1));
           s3 = fold (unbind_task idx) [1..<k_max_tasks s2] s2
       in fold (clear_stamp idx) all_cpus s3)"

section \<open>Lemmas on the arithmetic\<close>

lemma child_share_covers:
  assumes "child_share b p = Some sh"
  shows "b * SC_PPM_WHOLE \<le> sh * p" "0 < sh" "sh \<le> SC_PPM_WHOLE" "sh * p < b * SC_PPM_WHOLE + p"
proof -
  have p: "MIN_PERIOD_US \<le> p" "p \<le> MAX_PERIOD_US" "0 < b" "b \<le> p"
    and sh: "sh = (b * SC_PPM_WHOLE + p - 1) div p"
    using assms by (auto simp: child_share_def Let_def split: if_splits)
  have p0: "0 < p" using p by simp
  define N where "N = b * SC_PPM_WHOLE + p - 1"
  have N: "N = sh * p + N mod p" using sh by (simp add: N_def)
  have m: "N mod p < p" using p0 by simp
  have NN: "N + 1 = b * SC_PPM_WHOLE + p" using p0 by (simp add: N_def)
  show c: "b * SC_PPM_WHOLE \<le> sh * p" using N m NN by linarith
  show "sh * p < b * SC_PPM_WHOLE + p" using N NN by linarith
  show "0 < sh" using c p by (cases sh) auto
  have "b * SC_PPM_WHOLE \<le> p * SC_PPM_WHOLE" using p(4) by simp
  hence "sh * p < 1000001 * p" using \<open>sh * p < b * SC_PPM_WHOLE + p\<close> by linarith
  hence "sh < 1000001" using mult_less_cancel2 by blast
  thus "sh \<le> SC_PPM_WHOLE" by simp
qed

lemma rust_sc_split_ok:
  assumes "rust_sc_split ps b p = Inr (np, nc)"
  shows "np + nc = ps" "0 < nc" "ps \<le> SC_PPM_WHOLE" "child_share b p = Some nc"
  using assms by (auto simp: rust_sc_split_def split_with_share_def split: option.splits if_splits)

lemma rust_sc_reclaim_exact:
  "a + b \<le> SC_PPM_WHOLE \<Longrightarrow> rust_sc_reclaim a b = a + b"
  by (simp add: rust_sc_reclaim_def)

lemma pack_bytes:
  fixes p m :: nat
  assumes "p \<le> 255" "m \<le> 255"
  shows "push_bit 8 (m AND 0xFF) OR (p AND 0xFF) = m * 256 + p"
proof -
  have mask: "(255::nat) = mask 8" by (simp add: mask_eq_exp_minus_1)
  have a: "m AND 255 = m" "p AND 255 = p"
    unfolding mask take_bit_eq_mask[symmetric] by (rule take_bit_nat_eq_self, use assms in simp)+
  have "push_bit 8 m AND p = 0"
  proof (rule bit_eqI)
    fix n
    have "p = take_bit 8 p" using a(2) by (simp add: mask take_bit_eq_mask)
    hence "bit p n \<Longrightarrow> n < 8" by (metis bit_take_bit_iff)
    thus "bit (push_bit 8 m AND p) n = bit (0::nat) n" by (auto simp: bit_simps)
  qed
  hence "push_bit 8 m OR p = push_bit 8 m + p" by (simp add: disjunctive_add_eq_or)
  thus ?thesis by (simp add: a push_bit_eq_mult)
qed

lemma sum_two_changed:
  fixes f f' :: "'a \<Rightarrow> nat"
  assumes "finite A" "p \<in> A" "q \<in> A" "p \<noteq> q" "\<And>i. i \<in> A \<Longrightarrow> i \<noteq> p \<Longrightarrow> i \<noteq> q \<Longrightarrow> f' i = f i"
    and "f' p + f' q = f p + f q"
  shows "sum f' A = sum f A"
proof -
  have "sum g A = g p + g q + sum g (A - {p} - {q})" for g :: "'a \<Rightarrow> nat"
    using assms(1-4) by (simp add: sum.remove[of A p] sum.remove[of "A - {p}" q])
  moreover have "sum f' (A - {p} - {q}) = sum f (A - {p} - {q})"
    by (rule sum.cong) (use assms(5) in auto)
  ultimately show ?thesis using assms(6) by simp
qed

lemma set_dyn_sc_indices [simp]: "i \<in> set dyn_sc_indices \<longleftrightarrow> DYN_SC_BASE \<le> i \<and> i < SC_INDEX_MAX"
  by (simp only: dyn_sc_indices_def set_upt atLeastLessThan_iff)

lemma set_all_cpus [simp]: "c \<in> set all_cpus \<longleftrightarrow> c < MAX_CPUS"
  by (simp only: all_cpus_def set_upt atLeastLessThan_iff) simp

lemma upd_sc_sel [simp]:
  "k_scs (upd_sc i f s) = (k_scs s)(i := f (k_scs s i))"
  "k_dyn_scs (upd_sc i f s) = k_dyn_scs s" "k_tasks (upd_sc i f s) = k_tasks s"
  "k_max_tasks (upd_sc i f s) = k_max_tasks s" "k_sc_stamp_idx (upd_sc i f s) = k_sc_stamp_idx s"
  "k_sc_stamp_us (upd_sc i f s) = k_sc_stamp_us s" "k_sc_carved_live (upd_sc i f s) = k_sc_carved_live s"
  "k_percpu_cur (upd_sc i f s) = k_percpu_cur s" "k_clock_us (upd_sc i f s) = k_clock_us s"
  by (simp_all add: upd_sc_def)

lemma sc_by_index_dyn: "k_dyn_scs s' = k_dyn_scs s \<Longrightarrow> sc_by_index s' i = sc_by_index s i"
  by (simp add: sc_by_index_def sc_dyn_by_index_def)

lemma sc_by_index_upd [simp]: "sc_by_index (upd_sc i f s) j = sc_by_index s j"
  by (rule sc_by_index_dyn) simp

lemma sc_by_index_Some: "sc_by_index s i = Some j \<Longrightarrow> j = i \<and> 0 < i \<and> i < SC_INDEX_MAX"
  by (auto simp: sc_by_index_def sc_dyn_by_index_def split: if_splits)

lemma sc_by_index_range: "sc_by_index s i \<noteq> None \<Longrightarrow> 0 < i \<and> i < SC_INDEX_MAX"
  using sc_by_index_Some by blast

lemma live_sc_range: "live_sc s i \<Longrightarrow> 0 < i \<and> i < SC_INDEX_MAX"
  by (auto simp: live_sc_def dest: sc_by_index_Some)

lemma sc_by_index_root: "c < MAX_CPUS \<Longrightarrow> sc_by_index s (SC_ROOT_BASE + c) = Some (SC_ROOT_BASE + c)"
  by (simp add: sc_by_index_def)

section \<open>The share invariant\<close>

text \<open>What context \<open>i\<close> holds of CPU \<open>c\<close>, and the sum over the table.\<close>

definition share_of :: "kstate \<Rightarrow> nat \<Rightarrow> nat \<Rightarrow> nat" where
  "share_of s c i = (if live_sc s i \<and> sc_cpu (k_scs s i) = int c then sc_share_ppm (k_scs s i) else 0)"

definition share_on :: "kstate \<Rightarrow> nat \<Rightarrow> nat" where
  "share_on s c = (\<Sum>i = SC_ROOT_BASE..<SC_INDEX_MAX. share_of s c i)"

definition carved_on :: "kstate \<Rightarrow> nat \<Rightarrow> nat set" where
  "carved_on s c = {i. DYN_SC_BASE \<le> i \<and> live_sc s i \<and> sc_cpu (k_scs s i) = int c}"

definition ctx_ok :: "kstate \<Rightarrow> nat \<Rightarrow> bool" where
  "ctx_ok s i \<longleftrightarrow> (sc_root (k_scs s i) \<longleftrightarrow> i < DYN_SC_BASE)
     \<and> 0 \<le> sc_cpu (k_scs s i) \<and> sc_cpu (k_scs s i) < int MAX_CPUS
     \<and> (if i < DYN_SC_BASE then sc_cpu (k_scs s i) = int i - int SC_ROOT_BASE
        else live_sc s (sc_parent (k_scs s i))
             \<and> sc_cpu (k_scs s (sc_parent (k_scs s i))) = sc_cpu (k_scs s i))"

text \<open>The parent links of living contexts lead to a root.\<close>

definition rooted :: "kstate \<Rightarrow> bool" where
  "rooted s \<longleftrightarrow> (\<exists>rank :: nat \<Rightarrow> nat. \<forall>i. live_sc s i \<longrightarrow> DYN_SC_BASE \<le> i \<longrightarrow>
                    rank (sc_parent (k_scs s i)) < rank i)"

definition sched_inv :: "kstate \<Rightarrow> bool" where
  "sched_inv s \<longleftrightarrow>
     (\<forall>c<MAX_CPUS. live_sc s (SC_ROOT_BASE + c))
     \<and> (\<forall>i. live_sc s i \<longrightarrow> ctx_ok s i)
     \<and> (\<forall>c<MAX_CPUS. share_on s c = SC_PPM_WHOLE)
     \<and> rooted s
     \<and> (\<forall>c<MAX_CPUS. k_sc_carved_live s c = card (carved_on s c))
     \<and> (\<forall>t. 0 < t \<longrightarrow> t < k_max_tasks s \<longrightarrow> t_sc_index (k_tasks s t) = 0 \<or> live_sc s (t_sc_index (k_tasks s t)))
     \<and> (\<forall>c<MAX_CPUS. k_sc_stamp_idx s c = 0
          \<or> live_sc s (k_sc_stamp_idx s c) \<and> sc_cpu (k_scs s (k_sc_stamp_idx s c)) = int c)"

lemma sched_invD:
  assumes "sched_inv s"
  shows "\<And>c. c < MAX_CPUS \<Longrightarrow> live_sc s (SC_ROOT_BASE + c)" "\<And>i. live_sc s i \<Longrightarrow> ctx_ok s i"
    "\<And>c. c < MAX_CPUS \<Longrightarrow> share_on s c = SC_PPM_WHOLE"
    "\<And>c. c < MAX_CPUS \<Longrightarrow> k_sc_carved_live s c = card (carved_on s c)"
    "\<And>t. 0 < t \<Longrightarrow> t < k_max_tasks s \<Longrightarrow> t_sc_index (k_tasks s t) = 0 \<or> live_sc s (t_sc_index (k_tasks s t))"
    "\<And>c. c < MAX_CPUS \<Longrightarrow> k_sc_stamp_idx s c = 0
          \<or> live_sc s (k_sc_stamp_idx s c) \<and> sc_cpu (k_scs s (k_sc_stamp_idx s c)) = int c"
    "rooted s"
  using assms unfolding sched_inv_def by blast+

lemma sched_invI:
  assumes "\<And>c. c < MAX_CPUS \<Longrightarrow> live_sc s (SC_ROOT_BASE + c)" "\<And>i. live_sc s i \<Longrightarrow> ctx_ok s i"
    "\<And>c. c < MAX_CPUS \<Longrightarrow> share_on s c = SC_PPM_WHOLE"
    "\<And>c. c < MAX_CPUS \<Longrightarrow> k_sc_carved_live s c = card (carved_on s c)"
    "\<And>t. 0 < t \<Longrightarrow> t < k_max_tasks s \<Longrightarrow> t_sc_index (k_tasks s t) = 0 \<or> live_sc s (t_sc_index (k_tasks s t))"
    "\<And>c. c < MAX_CPUS \<Longrightarrow> k_sc_stamp_idx s c = 0
          \<or> live_sc s (k_sc_stamp_idx s c) \<and> sc_cpu (k_scs s (k_sc_stamp_idx s c)) = int c"
    "rooted s"
  shows "sched_inv s"
  unfolding sched_inv_def using assms by blast

lemma carved_on_finite [simp]: "finite (carved_on s c)"
  by (rule finite_subset[of _ "{..<SC_INDEX_MAX}"]) (auto simp: carved_on_def dest: live_sc_range)

lemma share_le_whole:
  assumes inv: "sched_inv s" and ij: "live_sc s i" "live_sc s j" "i \<noteq> j"
    and cpu: "sc_cpu (k_scs s i) = int c" "sc_cpu (k_scs s j) = int c" "c < MAX_CPUS"
  shows "sc_share_ppm (k_scs s i) + sc_share_ppm (k_scs s j) \<le> SC_PPM_WHOLE"
proof -
  have "sum (share_of s c) {i, j} \<le> share_on s c"
    unfolding share_on_def
    by (rule sum_mono2) (use live_sc_range[OF ij(1)] live_sc_range[OF ij(2)] in auto)
  thus ?thesis using ij cpu sched_invD(3)[OF inv] by (simp add: share_of_def)
qed

text \<open>A state that differs from one of the invariant in nothing the invariant reads.\<close>

lemma sched_inv_frame:
  assumes "sched_inv s"
    and "\<And>i. sc_by_index s' i = sc_by_index s i"
    and "\<And>i. sc_live (k_scs s' i) = sc_live (k_scs s i) \<and> sc_root (k_scs s' i) = sc_root (k_scs s i)
           \<and> sc_cpu (k_scs s' i) = sc_cpu (k_scs s i) \<and> sc_parent (k_scs s' i) = sc_parent (k_scs s i)
           \<and> sc_share_ppm (k_scs s' i) = sc_share_ppm (k_scs s i)"
    and "k_sc_carved_live s' = k_sc_carved_live s"
    and "\<And>t. 0 < t \<Longrightarrow> t < k_max_tasks s' \<Longrightarrow>
           t_sc_index (k_tasks s' t) = 0 \<or> live_sc s (t_sc_index (k_tasks s' t))"
    and "\<And>c. c < MAX_CPUS \<Longrightarrow> k_sc_stamp_idx s' c = 0
          \<or> live_sc s (k_sc_stamp_idx s' c) \<and> sc_cpu (k_scs s (k_sc_stamp_idx s' c)) = int c"
  shows "sched_inv s'"
proof -
  have live: "live_sc s' = live_sc s" using assms(2,3) by (auto simp: live_sc_def fun_eq_iff)
  have sh: "share_of s' = share_of s" using live assms(3) by (auto simp: share_of_def fun_eq_iff)
  have ca: "carved_on s' = carved_on s" using live assms(3) by (auto simp: carved_on_def fun_eq_iff)
  have ok: "ctx_ok s' i = ctx_ok s i" for i using live assms(3) by (simp add: ctx_ok_def)
  have ro: "rooted s' = rooted s" using live assms(3) by (simp add: rooted_def)
  show ?thesis
    by (rule sched_invI) (use sched_invD[OF assms(1)] assms(3-6) in \<open>simp_all add: live sh ca ok ro share_on_def\<close>)
qed

lemma sched_inv_same:
  assumes inv: "sched_inv s" and ix: "k_dyn_scs s' = k_dyn_scs s"
    and sc: "\<And>i. sc_live (k_scs s' i) = sc_live (k_scs s i) \<and> sc_root (k_scs s' i) = sc_root (k_scs s i)
           \<and> sc_cpu (k_scs s' i) = sc_cpu (k_scs s i) \<and> sc_parent (k_scs s' i) = sc_parent (k_scs s i)
           \<and> sc_share_ppm (k_scs s' i) = sc_share_ppm (k_scs s i)"
    and ca: "k_sc_carved_live s' = k_sc_carved_live s" and mx: "k_max_tasks s' = k_max_tasks s"
    and tk: "\<And>t. t_sc_index (k_tasks s' t) = t_sc_index (k_tasks s t)"
    and st: "k_sc_stamp_idx s' = k_sc_stamp_idx s"
  shows "sched_inv s'"
proof (rule sched_inv_frame[OF inv sc_by_index_dyn[OF ix] sc ca])
  show "t_sc_index (k_tasks s' t) = 0 \<or> live_sc s (t_sc_index (k_tasks s' t))" if "0 < t" "t < k_max_tasks s'" for t
    using sched_invD(5)[OF inv, of t] that by (simp add: tk mx)
  show "k_sc_stamp_idx s' c = 0 \<or> live_sc s (k_sc_stamp_idx s' c) \<and> sc_cpu (k_scs s (k_sc_stamp_idx s' c)) = int c"
    if "c < MAX_CPUS" for c using sched_invD(6)[OF inv that] by (simp add: st)
qed

section \<open>Carving keeps it\<close>

lemma sched_carve_cases:
  assumes "sched_carve p (Some ch) b per fl s = (r, s')"
  shows "r \<noteq> 0 \<and> s' = s \<or>
    (\<exists>np nc rem. r = 0 \<and> live_sc s p \<and> rust_sc_split (sc_share_ppm (k_scs s p)) b per = Inr (np, nc)
      \<and> (fl AND SC_FLAG_SLACK \<noteq> 0 \<longrightarrow> sc_slack (k_scs s p))
      \<and> rem = sc_remaining_us (k_scs s p) - (int (sc_budget_us (k_scs s p))
               - int (sc_budget_us ((k_scs s p)\<lparr> sc_share_ppm := np \<rparr>)))
      \<and> k_scs s' = (k_scs s)(p := (k_scs s p)\<lparr> sc_share_ppm := np, sc_remaining_us := rem \<rparr>,
                            ch := carved (k_scs s p) p nc per (fl AND SC_FLAG_SLACK \<noteq> 0) (k_clock_us s))
      \<and> k_dyn_scs s' = k_dyn_scs s \<and> k_tasks s' = k_tasks s \<and> k_max_tasks s' = k_max_tasks s
      \<and> k_sc_stamp_idx s' = k_sc_stamp_idx s
      \<and> (0 \<le> sc_cpu (k_scs s p) \<and> sc_cpu (k_scs s p) < int MAX_CPUS \<longrightarrow>
           k_sc_carved_live s' = (k_sc_carved_live s)(nat (sc_cpu (k_scs s p)) :=
              k_sc_carved_live s (nat (sc_cpu (k_scs s p))) + 1)))"
proof (cases "r = 0")
  case False
  thus ?thesis using assms
    by (auto simp: sched_carve_def Let_def split: option.splits if_splits sum.splits prod.splits)
next
  case True
  obtain np nc where sp: "sc_by_index s p = Some p" "sc_live (k_scs s p)"
      "rust_sc_split (sc_share_ppm (k_scs s p)) b per = Inr (np, nc)"
    using assms True
    by (auto simp: sched_carve_def Let_def split: option.splits if_splits sum.splits prod.splits
             dest: sc_by_index_Some)
  show ?thesis
    using assms True sp
    by (auto simp: sched_carve_def Let_def live_sc_def carved_def split: if_splits)
qed

lemma sched_carve_inv:
  assumes inv: "sched_inv s" and run: "sched_carve p (Some ch) b per fl s = (r, s')"
    and ch: "sc_by_index s ch \<noteq> None" "DYN_SC_BASE \<le> ch" "\<not> sc_live (k_scs s ch)"
  shows "sched_inv s'"
proof (cases "r = 0")
  case False thus ?thesis using sched_carve_cases[OF run] inv by auto
next
  case True
  then obtain np nc rem where lp: "live_sc s p"
    and sp: "rust_sc_split (sc_share_ppm (k_scs s p)) b per = Inr (np, nc)"
    and sc': "k_scs s' = (k_scs s)(p := (k_scs s p)\<lparr> sc_share_ppm := np, sc_remaining_us := rem \<rparr>,
                ch := carved (k_scs s p) p nc per (fl AND SC_FLAG_SLACK \<noteq> 0) (k_clock_us s))"
    and fr: "k_dyn_scs s' = k_dyn_scs s" "k_tasks s' = k_tasks s" "k_max_tasks s' = k_max_tasks s"
      "k_sc_stamp_idx s' = k_sc_stamp_idx s"
    and ca: "0 \<le> sc_cpu (k_scs s p) \<and> sc_cpu (k_scs s p) < int MAX_CPUS \<longrightarrow>
           k_sc_carved_live s' = (k_sc_carved_live s)(nat (sc_cpu (k_scs s p)) :=
              k_sc_carved_live s (nat (sc_cpu (k_scs s p))) + 1)"
    using sched_carve_cases[OF run] by blast
  have pch: "p \<noteq> ch" using lp ch by (auto simp: live_sc_def)
  have okp: "ctx_ok s p" using sched_invD(2)[OF inv lp] .
  define cp where "cp = nat (sc_cpu (k_scs s p))"
  have cp: "sc_cpu (k_scs s p) = int cp" "cp < MAX_CPUS" using okp by (auto simp: ctx_ok_def cp_def)
  have ix: "sc_by_index s' i = sc_by_index s i" for i using fr(1) by (rule sc_by_index_dyn)
  have live: "live_sc s' i \<longleftrightarrow> live_sc s i \<or> i = ch" for i
    using ch pch lp by (auto simp: live_sc_def ix sc' carved_def)
  have nch: "\<not> live_sc s ch" using ch by (simp add: live_sc_def)
  have cpu: "sc_cpu (k_scs s' i) = (if i = ch then int cp else sc_cpu (k_scs s i))" for i
    using pch cp by (simp add: sc' carved_def)
  have par: "sc_parent (k_scs s' i) = (if i = ch then p else sc_parent (k_scs s i))" for i
    by (simp add: sc' carved_def)
  have rt: "sc_root (k_scs s' i) = (if i = ch then False else sc_root (k_scs s i))" for i
    by (simp add: sc' carved_def)
  show ?thesis
  proof (rule sched_invI)
    show "live_sc s' (SC_ROOT_BASE + c)" if "c < MAX_CPUS" for c
      using sched_invD(1)[OF inv that] by (simp add: live)
    show "ctx_ok s' i" if "live_sc s' i" for i
    proof (cases "i = ch")
      case True
      thus ?thesis using ch lp cp by (simp add: ctx_ok_def live cpu par rt)
    next
      case False
      hence "ctx_ok s i" using that sched_invD(2)[OF inv] by (simp add: live)
      moreover have "sc_parent (k_scs s i) \<noteq> ch" if "DYN_SC_BASE \<le> i"
        using calculation nch that by (auto simp: ctx_ok_def)
      ultimately show ?thesis using False by (auto simp: ctx_ok_def live cpu par rt)
    qed
    show "share_on s' c = SC_PPM_WHOLE" if c: "c < MAX_CPUS" for c
    proof -
      have "share_on s' c = share_on s c"
        unfolding share_on_def
      proof (rule sum_two_changed[where p = p and q = ch])
        show "p \<in> {SC_ROOT_BASE..<SC_INDEX_MAX}" "ch \<in> {SC_ROOT_BASE..<SC_INDEX_MAX}"
          using live_sc_range[OF lp] sc_by_index_range[OF ch(1)] by auto
        show "share_of s' c p + share_of s' c ch = share_of s c p + share_of s c ch"
          using rust_sc_split_ok(1)[OF sp] lp nch pch cp(1)
          by (auto simp: share_of_def live cpu) (auto simp: sc' carved_def)
        fix i assume "i \<noteq> p" "i \<noteq> ch"
        thus "share_of s' c i = share_of s c i" by (simp add: share_of_def live cpu) (simp add: sc')
      qed (use pch in simp_all)
      thus ?thesis using sched_invD(3)[OF inv c] by simp
    qed
    show "k_sc_carved_live s' c = card (carved_on s' c)" if c: "c < MAX_CPUS" for c
    proof -
      have "carved_on s' c = (if c = cp then insert ch (carved_on s c) else carved_on s c)"
        using ch nch by (auto simp: carved_on_def live cpu)
      moreover have "ch \<notin> carved_on s c" using nch by (simp add: carved_on_def)
      ultimately show ?thesis using ca cp sched_invD(4)[OF inv c] by auto
    qed
    show "t_sc_index (k_tasks s' t) = 0 \<or> live_sc s' (t_sc_index (k_tasks s' t))"
      if "0 < t" "t < k_max_tasks s'" for t
      using sched_invD(5)[OF inv, of t] that fr by (auto simp: live)
    show "k_sc_stamp_idx s' c = 0 \<or> live_sc s' (k_sc_stamp_idx s' c) \<and> sc_cpu (k_scs s' (k_sc_stamp_idx s' c)) = int c"
      if "c < MAX_CPUS" for c
      using sched_invD(6)[OF inv that] nch fr by (auto simp: live cpu)
    obtain rank :: "nat \<Rightarrow> nat" where rk: "\<And>i. live_sc s i \<Longrightarrow> DYN_SC_BASE \<le> i \<Longrightarrow> rank (sc_parent (k_scs s i)) < rank i"
      using sched_invD(7)[OF inv] unfolding rooted_def by blast
    have np: "sc_parent (k_scs s i) \<noteq> ch" if "live_sc s i" "DYN_SC_BASE \<le> i" for i
      using sched_invD(2)[OF inv that(1)] that nch by (auto simp: ctx_ok_def)
    show "rooted s'"
      unfolding rooted_def
      by (rule exI[of _ "rank(ch := Suc (rank p))"]) (use rk np pch in \<open>auto simp: live par\<close>)
  qed
qed

section \<open>Destruction keeps it\<close>

lemma reparent_ctx_sel:
  "k_scs (reparent_ctx idx h x s) i =
     (if i = x \<and> live_sc s i \<and> sc_parent (k_scs s i) = idx then (k_scs s i)\<lparr> sc_parent := h \<rparr> else k_scs s i)"
  "k_dyn_scs (reparent_ctx idx h x s) = k_dyn_scs s" "k_tasks (reparent_ctx idx h x s) = k_tasks s"
  "k_max_tasks (reparent_ctx idx h x s) = k_max_tasks s"
  "k_sc_stamp_idx (reparent_ctx idx h x s) = k_sc_stamp_idx s"
  "k_sc_carved_live (reparent_ctx idx h x s) = k_sc_carved_live s"
  by (auto simp: reparent_ctx_def live_sc_def split: option.splits dest: sc_by_index_Some)

lemma reparent_ctx_live: "live_sc (reparent_ctx idx h x s) i = live_sc s i"
  unfolding live_sc_def sc_by_index_dyn[OF reparent_ctx_sel(2)] by (simp add: reparent_ctx_sel)

lemma fold_reparent:
  assumes "h \<noteq> idx"
  shows "k_scs (fold (reparent_ctx idx h) xs s) i =
     (if i \<in> set xs \<and> live_sc s i \<and> sc_parent (k_scs s i) = idx then (k_scs s i)\<lparr> sc_parent := h \<rparr> else k_scs s i)"
  using assms by (induction xs arbitrary: s) (auto simp: reparent_ctx_sel(1) reparent_ctx_live)

lemma fold_reparent_frame:
  "k_dyn_scs (fold (reparent_ctx idx h) xs s) = k_dyn_scs s"
  "k_tasks (fold (reparent_ctx idx h) xs s) = k_tasks s"
  "k_max_tasks (fold (reparent_ctx idx h) xs s) = k_max_tasks s"
  "k_sc_stamp_idx (fold (reparent_ctx idx h) xs s) = k_sc_stamp_idx s"
  "k_sc_carved_live (fold (reparent_ctx idx h) xs s) = k_sc_carved_live s"
  by (induction xs arbitrary: s) (simp_all add: reparent_ctx_sel)

lemma fold_unbind:
  assumes "idx \<noteq> 0"
  shows "t_sc_index (k_tasks (fold (unbind_task idx) ts s) t) =
     (if t \<in> set ts \<and> t_sc_index (k_tasks s t) = idx then 0 else t_sc_index (k_tasks s t))"
  using assms by (induction ts arbitrary: s) (auto simp: unbind_task_def)

lemma fold_unbind_frame:
  "k_dyn_scs (fold (unbind_task idx) ts s) = k_dyn_scs s" "k_scs (fold (unbind_task idx) ts s) = k_scs s"
  "k_max_tasks (fold (unbind_task idx) ts s) = k_max_tasks s"
  "k_sc_stamp_idx (fold (unbind_task idx) ts s) = k_sc_stamp_idx s"
  "k_sc_carved_live (fold (unbind_task idx) ts s) = k_sc_carved_live s"
  by (induction ts arbitrary: s) (simp_all add: unbind_task_def upd_task_def)

lemma fold_clear:
  assumes "idx \<noteq> 0"
  shows "k_sc_stamp_idx (fold (clear_stamp idx) cs s) c =
     (if c \<in> set cs \<and> k_sc_stamp_idx s c = idx then 0 else k_sc_stamp_idx s c)"
  using assms by (induction cs arbitrary: s) (auto simp: clear_stamp_def)

lemma fold_clear_frame:
  "k_dyn_scs (fold (clear_stamp idx) cs s) = k_dyn_scs s" "k_scs (fold (clear_stamp idx) cs s) = k_scs s"
  "k_max_tasks (fold (clear_stamp idx) cs s) = k_max_tasks s"
  "k_tasks (fold (clear_stamp idx) cs s) = k_tasks s"
  "k_sc_carved_live (fold (clear_stamp idx) cs s) = k_sc_carved_live s"
  by (induction cs arbitrary: s) (simp_all add: clear_stamp_def)

lemma uncount_carved_sel [simp]:
  "k_scs (uncount_carved c s) = k_scs s" "k_dyn_scs (uncount_carved c s) = k_dyn_scs s"
  "k_tasks (uncount_carved c s) = k_tasks s" "k_max_tasks (uncount_carved c s) = k_max_tasks s"
  "k_sc_stamp_idx (uncount_carved c s) = k_sc_stamp_idx s"
  by (simp_all add: uncount_carved_def)

lemma uncount_carved_live:
  "k_sc_carved_live (uncount_carved (int c) s) = (k_sc_carved_live s)(c := k_sc_carved_live s c - 1)"
  if "c < MAX_CPUS"
  using that by (auto simp: uncount_carved_def)

lemma find_heir_live:
  "0 < n \<Longrightarrow> 0 < h \<Longrightarrow> sc_by_index s h = Some h \<Longrightarrow> sc_live (k_scs s h) \<Longrightarrow> find_heir n s h = Some h"
  by (cases n) auto

text \<open>Under the invariant the parent is the heir, and the state after is explicit.\<close>

lemma destroyed_state:
  assumes inv: "sched_inv s" and live: "live_sc s idx" and dyn: "DYN_SC_BASE \<le> idx"
  defines "h \<equiv> sc_parent (k_scs s idx)" and "s' \<equiv> sched_context_destroyed idx s"
    and "c \<equiv> nat (sc_cpu (k_scs s idx))"
  shows "h \<noteq> idx" "live_sc s h" "sc_cpu (k_scs s idx) = int c" "sc_cpu (k_scs s h) = int c" "c < MAX_CPUS"
    "k_dyn_scs s' = k_dyn_scs s" "k_max_tasks s' = k_max_tasks s"
    "k_sc_carved_live s' = (k_sc_carved_live s)(c := k_sc_carved_live s c - 1)"
    "\<And>t. t_sc_index (k_tasks s' t) = (if 0 < t \<and> t < k_max_tasks s \<and> t_sc_index (k_tasks s t) = idx
           then 0 else t_sc_index (k_tasks s t))"
    "\<And>x. x < MAX_CPUS \<Longrightarrow> k_sc_stamp_idx s' x = (if k_sc_stamp_idx s x = idx then 0 else k_sc_stamp_idx s x)"
    "\<And>i. k_scs s' i = (let x = (if i = idx then (k_scs s i)\<lparr> sc_live := False \<rparr>
                 else if i = h then (k_scs s i)\<lparr> sc_share_ppm :=
                    rust_sc_reclaim (sc_share_ppm (k_scs s i)) (sc_share_ppm (k_scs s idx)) \<rparr> else k_scs s i)
            in if DYN_SC_BASE \<le> i \<and> live_sc s i \<and> i \<noteq> idx \<and> sc_parent (k_scs s i) = idx
               then x\<lparr> sc_parent := h \<rparr> else x)"
proof -
  have ok: "ctx_ok s idx" using sched_invD(2)[OF inv live] .
  obtain rank :: "nat \<Rightarrow> nat" where rk: "\<And>i. live_sc s i \<Longrightarrow> DYN_SC_BASE \<le> i \<Longrightarrow> rank (sc_parent (k_scs s i)) < rank i"
    using sched_invD(7)[OF inv] unfolding rooted_def by blast
  show hi: "h \<noteq> idx" using rk[OF live dyn] by (auto simp: h_def)
  show lh: "live_sc s h" and cc: "sc_cpu (k_scs s idx) = int c" "sc_cpu (k_scs s h) = int c" "c < MAX_CPUS"
    using ok dyn by (auto simp: ctx_ok_def h_def c_def)
  have idx: "idx \<noteq> 0" "idx < SC_INDEX_MAX" "sc_live (k_scs s idx)" "\<not> sc_root (k_scs s idx)"
    using live_sc_range[OF live] live ok dyn by (auto simp: live_sc_def ctx_ok_def)
  define s1 where "s1 = uncount_carved (int c) (upd_sc idx (\<lambda>x. x\<lparr> sc_live := False \<rparr>) s)"
  have ix1: "sc_by_index s1 j = sc_by_index s j" for j by (rule sc_by_index_dyn) (simp add: s1_def)
  have "sc_by_index s h = Some h" using lh sc_by_index_Some by (auto simp: live_sc_def)
  hence heir: "find_heir SC_INDEX_MAX s1 h = Some h"
    using lh hi live_sc_range[OF lh]
    by (intro find_heir_live) (simp_all add: ix1, simp add: s1_def live_sc_def)
  define s2 where "s2 = upd_sc h (\<lambda>x. x\<lparr> sc_share_ppm := rust_sc_reclaim (sc_share_ppm x) (sc_share_ppm (k_scs s idx)) \<rparr>) s1"
  define s3 where "s3 = fold (reparent_ctx idx h) dyn_sc_indices s2"
  have s': "s' = fold (clear_stamp idx) all_cpus (fold (unbind_task idx) [1..<k_max_tasks s3] s3)"
    using idx heir cc
    by (simp add: s'_def sched_context_destroyed_def s1_def[symmetric] s2_def[symmetric]
          s3_def[symmetric] h_def[symmetric] Let_def)
  have mx: "k_max_tasks s3 = k_max_tasks s" by (simp add: s3_def fold_reparent_frame s2_def s1_def)
  show "k_dyn_scs s' = k_dyn_scs s" "k_max_tasks s' = k_max_tasks s"
    by (simp_all add: s' fold_clear_frame fold_unbind_frame s3_def fold_reparent_frame s2_def s1_def)
  show "k_sc_carved_live s' = (k_sc_carved_live s)(c := k_sc_carved_live s c - 1)"
    using cc(3) by (simp add: s' fold_clear_frame fold_unbind_frame s3_def fold_reparent_frame s2_def s1_def
        uncount_carved_live)
  show "t_sc_index (k_tasks s' t) = (if 0 < t \<and> t < k_max_tasks s \<and> t_sc_index (k_tasks s t) = idx
           then 0 else t_sc_index (k_tasks s t))" for t
    unfolding s' fold_clear_frame fold_unbind[OF idx(1)] mx
    by (auto simp: s3_def fold_reparent_frame s2_def s1_def)
  show "k_sc_stamp_idx s' x = (if k_sc_stamp_idx s x = idx then 0 else k_sc_stamp_idx s x)" if "x < MAX_CPUS" for x
    using that unfolding s' fold_clear[OF idx(1)]
    by (simp add: fold_unbind_frame s3_def fold_reparent_frame s2_def s1_def)
  have l2: "live_sc s2 i \<longleftrightarrow> live_sc s i \<and> i \<noteq> idx" for i
    using hi by (simp add: live_sc_def s2_def ix1) (auto simp: s1_def)
  have k2: "k_scs s2 i = (if i = idx then (k_scs s i)\<lparr> sc_live := False \<rparr>
                 else if i = h then (k_scs s i)\<lparr> sc_share_ppm :=
                    rust_sc_reclaim (sc_share_ppm (k_scs s i)) (sc_share_ppm (k_scs s idx)) \<rparr> else k_scs s i)" for i
    using hi by (simp add: s2_def s1_def)
  show "k_scs s' i = (let x = (if i = idx then (k_scs s i)\<lparr> sc_live := False \<rparr>
                 else if i = h then (k_scs s i)\<lparr> sc_share_ppm :=
                    rust_sc_reclaim (sc_share_ppm (k_scs s i)) (sc_share_ppm (k_scs s idx)) \<rparr> else k_scs s i)
            in if DYN_SC_BASE \<le> i \<and> live_sc s i \<and> i \<noteq> idx \<and> sc_parent (k_scs s i) = idx
               then x\<lparr> sc_parent := h \<rparr> else x)" for i
    unfolding s' fold_clear_frame fold_unbind_frame s3_def fold_reparent[OF hi] l2 Let_def
    using live_sc_range[of s i] by (auto simp: k2)
qed

lemma sched_context_destroyed_inv:
  assumes inv: "sched_inv s" and ix: "sc_by_index s idx \<noteq> None" and dyn: "DYN_SC_BASE \<le> idx"
  shows "sched_inv (sched_context_destroyed idx s)"
proof (cases "live_sc s idx")
  case False
  thus ?thesis using ix inv by (simp add: sched_context_destroyed_def live_sc_def)
next
  case live: True
  let ?s = "sched_context_destroyed idx s"
  define h c where hc: "h = sc_parent (k_scs s idx)" "c = nat (sc_cpu (k_scs s idx))"
  note d = destroyed_state[OF inv live dyn, folded hc]
  have ixe: "sc_by_index ?s j = sc_by_index s j" for j by (rule sc_by_index_dyn[OF d(6)])
  have lv: "live_sc ?s i \<longleftrightarrow> live_sc s i \<and> i \<noteq> idx" for i
    using d(1) by (auto simp: live_sc_def ixe d(11) Let_def)
  have cpu: "sc_cpu (k_scs ?s i) = sc_cpu (k_scs s i)" for i by (simp add: d(11) Let_def)
  have rt: "sc_root (k_scs ?s i) = sc_root (k_scs s i)" for i by (simp add: d(11) Let_def)
  have par: "sc_parent (k_scs ?s i) = (if DYN_SC_BASE \<le> i \<and> live_sc s i \<and> i \<noteq> idx \<and> sc_parent (k_scs s i) = idx
      then h else sc_parent (k_scs s i))" for i by (simp add: d(11) Let_def)
  have sum: "sc_share_ppm (k_scs s h) + sc_share_ppm (k_scs s idx) \<le> SC_PPM_WHOLE"
    by (rule share_le_whole[OF inv d(2) live d(1) d(4) d(3) d(5)])
  have shr: "sc_share_ppm (k_scs ?s i) = (if i = h then sc_share_ppm (k_scs s h) + sc_share_ppm (k_scs s idx)
      else sc_share_ppm (k_scs s i))" for i
    using d(1) by (auto simp: d(11) Let_def rust_sc_reclaim_exact[OF sum])
  show ?thesis
  proof (rule sched_invI)
    show "live_sc ?s (SC_ROOT_BASE + x)" if "x < MAX_CPUS" for x
      using sched_invD(1)[OF inv that] dyn that by (simp add: lv)
    show "ctx_ok ?s i" if li: "live_sc ?s i" for i
    proof -
      have "live_sc s i" "i \<noteq> idx" using li by (auto simp: lv)
      hence "ctx_ok s i" using sched_invD(2)[OF inv] by blast
      thus ?thesis using \<open>live_sc s i\<close> \<open>i \<noteq> idx\<close> d(1,2,3,4)
        by (auto simp: ctx_ok_def lv cpu rt par)
    qed
    show "share_on ?s x = SC_PPM_WHOLE" if x: "x < MAX_CPUS" for x
    proof -
      have "share_on ?s x = share_on s x"
        unfolding share_on_def
      proof (rule sum_two_changed[where p = h and q = idx])
        show "h \<in> {SC_ROOT_BASE..<SC_INDEX_MAX}" "idx \<in> {SC_ROOT_BASE..<SC_INDEX_MAX}"
          using live_sc_range[OF d(2)] live_sc_range[OF live] by auto
        show "share_of ?s x h + share_of ?s x idx = share_of s x h + share_of s x idx"
          using d(1-4) live by (simp add: share_of_def lv cpu shr)
        fix i assume "i \<noteq> h" "i \<noteq> idx"
        thus "share_of ?s x i = share_of s x i" by (simp add: share_of_def lv cpu shr)
      qed (use d(1) in simp_all)
      thus ?thesis using sched_invD(3)[OF inv x] by simp
    qed
    show "k_sc_carved_live ?s x = card (carved_on ?s x)" if x: "x < MAX_CPUS" for x
    proof -
      have "carved_on ?s x = carved_on s x - {idx}" by (auto simp: carved_on_def lv cpu)
      moreover have "idx \<in> carved_on s x \<longleftrightarrow> x = c" using live dyn d(3) by (auto simp: carved_on_def)
      ultimately have "card (carved_on ?s x) = (if x = c then card (carved_on s x) - 1 else card (carved_on s x))"
        by (cases "x = c") (simp_all add: card_Diff_singleton)
      thus ?thesis unfolding d(8) using sched_invD(4)[OF inv x] by auto
    qed
    show "t_sc_index (k_tasks ?s t) = 0 \<or> live_sc ?s (t_sc_index (k_tasks ?s t))"
      if "0 < t" "t < k_max_tasks ?s" for t
      using sched_invD(5)[OF inv, of t] that d(7,9) by (auto simp: lv)
    show "k_sc_stamp_idx ?s x = 0 \<or> live_sc ?s (k_sc_stamp_idx ?s x) \<and> sc_cpu (k_scs ?s (k_sc_stamp_idx ?s x)) = int x"
      if "x < MAX_CPUS" for x
      using sched_invD(6)[OF inv that] d(10)[OF that] by (auto simp: lv cpu)
    obtain rank :: "nat \<Rightarrow> nat" where rk: "\<And>i. live_sc s i \<Longrightarrow> DYN_SC_BASE \<le> i \<Longrightarrow> rank (sc_parent (k_scs s i)) < rank i"
      using sched_invD(7)[OF inv] unfolding rooted_def by blast
    have "rank h < rank idx" using rk[OF live dyn] hc by simp
    thus "rooted ?s" unfolding rooted_def using rk
      by (intro exI[of _ rank]) (auto simp: lv par dest: order.strict_trans)
  qed
qed

section \<open>Charging and binding keep it\<close>

lemma sc_refresh_keeps [simp]:
  "sc_live (sc_refresh c now x) = sc_live x" "sc_root (sc_refresh c now x) = sc_root x"
  "sc_cpu (sc_refresh c now x) = sc_cpu x" "sc_parent (sc_refresh c now x) = sc_parent x"
  "sc_share_ppm (sc_refresh c now x) = sc_share_ppm x" "sc_period_us (sc_refresh c now x) = sc_period_us x"
  "sc_consumed_us (sc_refresh c now x) = sc_consumed_us x"
  by (simp_all add: sc_refresh_def split_beta Let_def)

lemma charge_run_keeps [simp]:
  "sc_live (charge_run c st now x) = sc_live x" "sc_root (charge_run c st now x) = sc_root x"
  "sc_cpu (charge_run c st now x) = sc_cpu x" "sc_parent (charge_run c st now x) = sc_parent x"
  "sc_share_ppm (charge_run c st now x) = sc_share_ppm x"
  "sc_consumed_us (charge_run c st now x) = sc_consumed_us x + (now - st)"
  "sc_charged_cpu (charge_run c st now x) = c"
  by (simp_all add: charge_run_def Let_def)

lemma sc_charge_sel [simp]:
  "k_dyn_scs (sc_charge c now s) = k_dyn_scs s" "k_tasks (sc_charge c now s) = k_tasks s"
  "k_max_tasks (sc_charge c now s) = k_max_tasks s" "k_sc_stamp_idx (sc_charge c now s) = k_sc_stamp_idx s"
  "k_sc_carved_live (sc_charge c now s) = k_sc_carved_live s" "k_percpu_cur (sc_charge c now s) = k_percpu_cur s"
  by (simp_all add: sc_charge_def Let_def split: option.splits)

lemma sc_charge_scs:
  "k_scs (sc_charge c now s) =
     (if live_sc s (k_sc_stamp_idx s c) \<and> k_sc_stamp_us s c < now
      then (k_scs s)(k_sc_stamp_idx s c := charge_run (int c) (k_sc_stamp_us s c) now (k_scs s (k_sc_stamp_idx s c)))
      else k_scs s)"
  by (auto simp: sc_charge_def Let_def live_sc_def split: option.splits dest: sc_by_index_Some)

lemma sc_charge_inv: "sched_inv s \<Longrightarrow> sched_inv (sc_charge c now s)"
  by (erule sched_inv_same) (simp_all add: sc_charge_scs)

lemma task_sc_live: "task_sc s t = Some i \<Longrightarrow> live_sc s i \<and> i = t_sc_index (k_tasks s (nat t))"
  by (auto simp: task_sc_def live_sc_def Let_def split: if_splits option.splits dest: sc_by_index_Some)

lemma sc_account_stamp_cases:
  assumes "sc_account_stamp c chosen now s = (r, s')"
  defines "s1 \<equiv> sc_charge c now s"
  shows "k_dyn_scs s' = k_dyn_scs s1 \<and> k_tasks s' = k_tasks s1 \<and> k_max_tasks s' = k_max_tasks s1
     \<and> k_sc_carved_live s' = k_sc_carved_live s1
     \<and> (k_scs s' = k_scs s1 \<and> k_sc_stamp_idx s' = (k_sc_stamp_idx s1)(c := 0)
        \<or> (\<exists>i. live_sc s1 i \<and> sc_cpu (k_scs s1 i) = int c
             \<and> k_scs s' = (k_scs s1)(i := sc_refresh (int c) now (k_scs s1 i))
             \<and> (k_sc_stamp_idx s' = (k_sc_stamp_idx s1)(c := 0) \<or> k_sc_stamp_idx s' = (k_sc_stamp_idx s1)(c := i))))"
proof -
  define s2 where "s2 = s1\<lparr> k_sc_stamp_idx := (k_sc_stamp_idx s1)(c := 0), k_sc_stamp_us := (k_sc_stamp_us s1)(c := now) \<rparr>"
  have l2: "live_sc s2 i = live_sc s1 i" for i
    by (simp add: live_sc_def s2_def sc_by_index_def sc_dyn_by_index_def)
  have s2f: "k_scs s2 = k_scs s1" "k_dyn_scs s2 = k_dyn_scs s1" "k_tasks s2 = k_tasks s1"
    "k_max_tasks s2 = k_max_tasks s1" "k_sc_carved_live s2 = k_sc_carved_live s1"
    "k_sc_stamp_idx s2 = (k_sc_stamp_idx s1)(c := 0)" by (simp_all add: s2_def)
  obtain who where "r = 0 \<and> s' = s2 \<or> (\<exists>i. task_sc s2 who = Some i \<and> sc_cpu (k_scs s2 i) = int c
      \<and> (let s3 = upd_sc i (sc_refresh (int c) now) s2 in
          s' = s3 \<or> s' = s3\<lparr> k_sc_stamp_idx := (k_sc_stamp_idx s3)(c := t_sc_index (k_tasks s3 (nat who))) \<rparr>))"
    using assms(1) unfolding sc_account_stamp_def Let_def s1_def[symmetric] s2_def[symmetric]
    by (auto split: if_splits option.splits)
  thus ?thesis
    using task_sc_live[of s2 who] by (auto simp: s2f Let_def l2)
qed

lemma sc_account_stamp_inv:
  assumes inv: "sched_inv s" and run: "sc_account_stamp c chosen now s = (r, s')"
  shows "sched_inv s'"
proof -
  define s1 where "s1 = sc_charge c now s"
  have i1: "sched_inv s1" using sc_charge_inv[OF inv] by (simp add: s1_def)
  note f = sc_account_stamp_cases[OF run, folded s1_def]
  show ?thesis
  proof (rule sched_inv_frame[OF i1])
    show "sc_by_index s' i = sc_by_index s1 i" for i using f by (intro sc_by_index_dyn) blast
    show "k_sc_stamp_idx s' x = 0 \<or> live_sc s1 (k_sc_stamp_idx s' x) \<and> sc_cpu (k_scs s1 (k_sc_stamp_idx s' x)) = int x"
      if "x < MAX_CPUS" for x
      using f sched_invD(6)[OF i1 that] by (cases "x = c") auto
    show "t_sc_index (k_tasks s' t) = 0 \<or> live_sc s1 (t_sc_index (k_tasks s' t))" if "0 < t" "t < k_max_tasks s'" for t
      using f sched_invD(5)[OF i1, of t] that by auto
  qed (use f in \<open>auto split: if_splits\<close>)
qed

lemma rq_unlink_sched:
  "k_scs (rq_unlink t s) = k_scs s" "k_dyn_scs (rq_unlink t s) = k_dyn_scs s"
  "k_sc_carved_live (rq_unlink t s) = k_sc_carved_live s" "k_sc_stamp_idx (rq_unlink t s) = k_sc_stamp_idx s"
  "t_sc_index (k_tasks (rq_unlink t s) x) = t_sc_index (k_tasks s x)"
  by (auto simp: rq_unlink_def Let_def upd_task_def)

lemma rq_home_on_sched:
  "k_scs (rq_home_on t c s) = k_scs s" "k_dyn_scs (rq_home_on t c s) = k_dyn_scs s"
  "k_sc_carved_live (rq_home_on t c s) = k_sc_carved_live s" "k_sc_stamp_idx (rq_home_on t c s) = k_sc_stamp_idx s"
  "k_max_tasks (rq_home_on t c s) = k_max_tasks s"
  "t_sc_index (k_tasks (rq_home_on t c s) x) = t_sc_index (k_tasks s x)"
  by (auto simp: rq_home_on_def Let_def upd_task_def rq_unlink_sched rq_unlink_frame)

lemma sched_bind_inv:
  assumes inv: "sched_inv s" and run: "sched_bind target idx s = (r, s')"
  shows "sched_inv s'"
proof (cases "r = 0")
  case False thus ?thesis using run inv by (auto simp: sched_bind_def split: if_splits option.splits)
next
  case True
  have s': "s' = sc_bind_locked (nat target) idx s" and l: "live_sc s idx"
    using run True by (auto simp: sched_bind_def live_sc_def split: if_splits option.splits dest: sc_by_index_Some)
  show ?thesis unfolding s'
    by (rule sched_inv_frame[OF inv])
      (use l sched_invD(5,6)[OF inv] in \<open>auto simp: sc_bind_locked_def Let_def rq_home_on_sched upd_task_def
         intro!: sc_by_index_dyn split: if_splits\<close>)
qed

lemma sched_set_priority_inv:
  "sched_inv s \<Longrightarrow> sched_set_priority a t p m s = (r, s') \<Longrightarrow> sched_inv s'"
  by (erule sched_inv_same) (auto simp: sched_set_priority_def upd_task_def split: if_splits)

section \<open>Initialisation establishes it\<close>

lemma fold_init_root:
  "k_scs (fold (init_root now) cs s) i = (if i \<noteq> 0 \<and> i - 1 \<in> set cs then root_context (i - 1) now else k_scs s i)"
  "k_sc_stamp_idx (fold (init_root now) cs s) c = (if c \<in> set cs then 0 else k_sc_stamp_idx s c)"
  by (induction cs arbitrary: s) (auto simp: init_root_def)

lemma fold_init_root_frame:
  "k_dyn_scs (fold (init_root now) cs s) = k_dyn_scs s" "k_tasks (fold (init_root now) cs s) = k_tasks s"
  "k_max_tasks (fold (init_root now) cs s) = k_max_tasks s"
  "k_sc_carved_live (fold (init_root now) cs s) = k_sc_carved_live s"
  by (induction cs arbitrary: s) (simp_all add: init_root_def)

lemma sched_contexts_init_inv:
  assumes dyn: "\<And>i. DYN_SC_BASE \<le> i \<Longrightarrow> \<not> live_sc s i"
    and tk: "\<And>t. t_sc_index (k_tasks s t) = 0" and ca: "\<And>c. k_sc_carved_live s c = 0"
  shows "sched_inv (sched_contexts_init s)"
proof -
  let ?s = "sched_contexts_init s"
  have k: "k_scs ?s i = (if 1 \<le> i \<and> i < DYN_SC_BASE then root_context (i - 1) (k_clock_us s) else k_scs s i)" for i
    by (auto simp: sched_contexts_init_def fold_init_root Let_def)
  have fr: "k_dyn_scs ?s = k_dyn_scs s" "k_tasks ?s = k_tasks s" "k_sc_carved_live ?s = k_sc_carved_live s"
    "\<And>c. c < MAX_CPUS \<Longrightarrow> k_sc_stamp_idx ?s c = 0"
    by (simp_all add: sched_contexts_init_def fold_init_root fold_init_root_frame Let_def)
  have ix: "sc_by_index ?s i = sc_by_index s i" for i by (rule sc_by_index_dyn[OF fr(1)])
  have lv: "live_sc ?s i \<longleftrightarrow> 1 \<le> i \<and> i < DYN_SC_BASE" for i
  proof (cases "1 \<le> i \<and> i < DYN_SC_BASE")
    case True
    hence "sc_by_index s i = Some i" by (auto simp: sc_by_index_def)
    thus ?thesis using True by (simp add: live_sc_def ix k root_context_def)
  next
    case False
    have "\<not> live_sc s i" using False dyn[of i] live_sc_range[of s i] by auto
    thus ?thesis using False by (auto simp: live_sc_def ix k)
  qed
  show ?thesis
  proof (rule sched_invI)
    show "share_on ?s c = SC_PPM_WHOLE" if c: "c < MAX_CPUS" for c
    proof -
      have "share_of ?s c i = (if i = Suc c then SC_PPM_WHOLE else 0)" for i
        using c by (auto simp: share_of_def lv k root_context_def)
      hence "share_on ?s c = (\<Sum>i = SC_ROOT_BASE..<SC_INDEX_MAX. if i = Suc c then SC_PPM_WHOLE else 0)"
        by (simp add: share_on_def)
      thus ?thesis using c by (simp del: sum.atLeastLessThan_Suc)
    qed
    show "k_sc_carved_live ?s c = card (carved_on ?s c)" for c
      by (simp add: fr ca carved_on_def lv)
    show "rooted ?s" by (simp add: rooted_def lv)
  qed (use tk fr in \<open>auto simp: lv ctx_ok_def k root_context_def\<close>)
qed

section \<open>Budgets over time\<close>

lemma periods_ge: "0 < p \<Longrightarrow> st \<le> now \<Longrightarrow> k \<le> (now - st) div p \<longleftrightarrow> st + k * p \<le> (now::nat)"
  by (simp add: less_eq_div_iff_mult_less_eq) linarith

lemma debt_periods:
  fixes r b n :: int
  assumes "r < 0" "0 < b"
  shows "n \<le> (- r) div b \<longleftrightarrow> r + n * b \<le> 0"
proof -
  have "n \<le> (- r) div b" if "n * b \<le> - r"
    using zdiv_mono1[OF that assms(2)] assms(2) by simp
  moreover have "n * b \<le> - r" if "n \<le> (- r) div b"
  proof -
    have "n * b \<le> (- r) div b * b" using that assms(2) by simp
    also have "\<dots> \<le> - r" using assms(2) by (simp add: minus_mod_eq_div_mult[symmetric])
    finally show ?thesis .
  qed
  ultimately show ?thesis by force
qed

section \<open>Properties\<close>

definition sample_ks :: kstate where
  "sample_ks = zero_kstate\<lparr> k_dyn_scs := (k_dyn_scs zero_kstate)[0 := zero_slot\<lparr> ks_mem := 4096 \<rparr>],
     k_tasks := (\<lambda>_. zero_tcb)(1 := zero_tcb\<lparr> t_state := 1, t_priority := 9, t_max_priority := 20 \<rparr>,
                              2 := zero_tcb\<lparr> t_state := 1, t_priority := 5, t_max_priority := 5 \<rparr>) \<rparr>"

definition sample_sched :: kstate where
  "sample_sched = sched_contexts_init sample_ks"

lemma sample_sched_inv: "sched_inv sample_sched"
  unfolding sample_sched_def
  by (rule sched_contexts_init_inv) (auto simp: sample_ks_def zero_kstate_def zero_tcb_def live_sc_def zero_sc_def)

text \<open>C11. The shares the living contexts hold of a CPU always add up to exactly one
  whole CPU, every living context hangs below the root of its CPU, the count of
  carved contexts is right, and no task is bound to and no CPU is stamped with a
  context that is not alive: boot establishes it, and carving, destruction,
  binding, a change of priority, and the accounting at a choice keep it.\<close>

theorem shares_conserved:
  assumes "sched_inv s"
  shows "(sc_by_index s ch \<noteq> None \<and> DYN_SC_BASE \<le> ch \<and> \<not> sc_live (k_scs s ch) \<longrightarrow>
            sched_inv (snd (sched_carve p (Some ch) b per fl s)))
    \<and> (sc_by_index s idx \<noteq> None \<and> DYN_SC_BASE \<le> idx \<longrightarrow> sched_inv (sched_context_destroyed idx s))
    \<and> sched_inv (snd (sched_bind t i s)) \<and> sched_inv (snd (sched_set_priority a t pr mx s))
    \<and> sched_inv (snd (sc_account_stamp c t now s))"
  using sched_carve_inv[OF assms] sched_context_destroyed_inv[OF assms] sched_bind_inv[OF assms]
    sched_set_priority_inv[OF assms] sc_account_stamp_inv[OF assms]
  by (metis prod.collapse)

theorem shares_conserved_witness:
  "sched_inv (snd (sched_carve 1 (Some 9) 20000 100000 0 sample_sched))"
proof -
  have "sc_by_index sample_sched 9 \<noteq> None \<and> \<not> sc_live (k_scs sample_sched 9)"
    by (simp add: sample_sched_def sched_contexts_init_def sample_ks_def sc_by_index_def sc_dyn_by_index_def
          Let_def all_cpus_def init_root_def upd_sc_def upt_rec zero_kstate_def zero_slot_def zero_sc_def
          nth_list_update)
  thus ?thesis using shares_conserved[OF sample_sched_inv, of 9 1 20000 100000 0] by simp
qed

text \<open>C36. The refill time is exact: a context with a budget that has spent it has
  budget again at \<open>sc_refill_at\<close>, not before, and at every later time.  The timer
  armed for it therefore neither wakes a CPU early nor leaves the task waiting.\<close>

theorem refill_time_exact:
  assumes b: "0 < sc_budget_us sc" and p: "0 < sc_period_us sc" and r: "sc_remaining_us sc \<le> 0"
    and st: "sc_period_start_us sc \<le> now"
  shows "sc_has_budget sc now \<longleftrightarrow> sc_refill_at sc \<le> now"
proof -
  define bb r n where brn: "bb = int (sc_budget_us sc)" "r = sc_remaining_us sc"
    "n = (now - sc_period_start_us sc) div sc_period_us sc"
  have b0: "0 < bb" using b brn by simp
  note ge = periods_ge[OF p st, folded brn(3)]
  show ?thesis
  proof (cases "r < 0")
    case True
    have "sc_has_budget sc now \<longleftrightarrow> n \<noteq> 0 \<and> \<not> int n \<le> (- r) div bb"
      using True b0 p st debt_periods[OF True b0, of "int n"]
      by (simp add: sc_has_budget_def sc_projected_def Let_def brn[symmetric])
    also have "\<dots> \<longleftrightarrow> nat ((- r) div bb) + 1 \<le> n"
      using True b0 pos_imp_zdiv_nonneg_iff[OF b0, of "- r"] by linarith
    also have "\<dots> \<longleftrightarrow> sc_refill_at sc \<le> now"
      unfolding ge using True b0 p by (simp add: sc_refill_at_def Let_def brn[symmetric])
    finally show ?thesis .
  next
    case False
    hence r0: "r = 0" using r brn by simp
    have "sc_has_budget sc now \<longleftrightarrow> 1 \<le> n"
      using r0 b0 p st by (simp add: sc_has_budget_def sc_projected_def Let_def brn[symmetric])
    thus ?thesis unfolding ge using r0 b0 p by (simp add: sc_refill_at_def Let_def brn[symmetric])
  qed
qed

definition sample_ctx :: sched_context where
  "sample_ctx = zero_sc\<lparr> sc_live := True, sc_share_ppm := 200000, sc_period_us := 100000,
     sc_remaining_us := -25000, sc_period_start_us := 1000 \<rparr>"

theorem refill_time_exact_witness:
  "sc_has_budget sample_ctx 201000 \<and> \<not> sc_has_budget sample_ctx 200999"
proof -
  have "0 < sc_budget_us sample_ctx" "0 < sc_period_us sample_ctx" "sc_remaining_us sample_ctx \<le> 0"
    "sc_period_start_us sample_ctx \<le> 200999" "sc_period_start_us sample_ctx \<le> 201000"
    "sc_refill_at sample_ctx = 201000"
    by (simp_all add: sample_ctx_def zero_sc_def sc_budget_us_def sc_refill_at_def)
  thus ?thesis using refill_time_exact[of sample_ctx 200999] refill_time_exact[of sample_ctx 201000] by simp
qed

text \<open>A refill never banks more than one budget and never leaves less than debt
  plus refills; it is exactly that value, capped at one budget, unless the debt
  was about to be paid off within the last refill, where the code rounds the
  remainder up to a whole budget and so forgives less than one budget of debt.\<close>

theorem refill_bounds:
  assumes "sc_projected sc now = (v, n)" and "0 < n" and "0 < sc_budget_us sc"
  defines "b \<equiv> int (sc_budget_us sc)" and "owed \<equiv> sc_remaining_us sc + int n * int (sc_budget_us sc)"
  shows "v \<le> b \<and> min b owed \<le> v \<and> v < min b owed + b
     \<and> (v = min b owed \<longleftrightarrow> \<not> (sc_remaining_us sc < 0 \<and> 0 < owed \<and> owed < b))"
proof -
  have b0: "0 < b" using assms(3) by (simp add: b_def)
  have v: "v = (if sc_remaining_us sc < 0 \<and> int n \<le> (- sc_remaining_us sc) div b
                then owed else b)"
    using assms(1,2) b0
    by (auto simp: sc_projected_def Let_def b_def owed_def split: if_splits)
  show ?thesis
  proof (cases "sc_remaining_us sc < 0")
    case True
    have "int n \<le> (- sc_remaining_us sc) div b \<longleftrightarrow> owed \<le> 0"
      using debt_periods[OF True b0, of "int n"] by (simp add: owed_def b_def)
    thus ?thesis using v True b0 by auto
  next
    case False
    have "b \<le> owed"
    proof -
      have "1 * b \<le> int n * b" using assms(2) b0 by (intro mult_right_mono) auto
      thus ?thesis using False by (simp add: owed_def b_def)
    qed
    thus ?thesis using v False b0 by auto
  qed
qed

theorem refill_bounds_witness:
  "sc_projected sample_ctx 201000 = (20000, 2)
   \<and> int (sc_budget_us sample_ctx) = 20000
   \<and> sc_remaining_us sample_ctx + 2 * 20000 = 15000
   \<and> (20000::int) \<noteq> min 20000 15000"
proof -
  have a: "sc_projected sample_ctx 201000 = (20000, 2)" and b: "sc_budget_us sample_ctx = 20000"
    by (simp_all add: sample_ctx_def zero_sc_def sc_budget_us_def sc_projected_def)
  show ?thesis using refill_bounds[OF a] a b by (simp add: sample_ctx_def zero_sc_def)
qed

text \<open>A budget is charged and refilled only by the CPU it belongs to, and time is
  charged exactly: at a choice, the accounting of CPU \<open>c\<close> changes no context of
  another CPU, and the total charged to each context grows by the whole time since
  the stamp for the one context the CPU had stamped, and by nothing for any other.\<close>

theorem charged_by_own_cpu:
  assumes inv: "sched_inv s" and c: "c < MAX_CPUS" and run: "sc_account_stamp c chosen now s = (r, s')"
  shows "(\<forall>i. k_scs s' i \<noteq> k_scs s i \<longrightarrow> sc_cpu (k_scs s i) = int c)
     \<and> (\<forall>i. sc_consumed_us (k_scs s' i) = sc_consumed_us (k_scs s i)
            + (if i = k_sc_stamp_idx s c \<and> i \<noteq> 0 then now - k_sc_stamp_us s c else 0))"
proof -
  define s1 where "s1 = sc_charge c now s"
  note f = sc_account_stamp_cases[OF run, folded s1_def]
  have st: "k_sc_stamp_idx s c = 0 \<or> live_sc s (k_sc_stamp_idx s c)
      \<and> sc_cpu (k_scs s (k_sc_stamp_idx s c)) = int c" using sched_invD(6)[OF inv c] .
  have n0: "\<not> live_sc s 0" using live_sc_range by blast
  have cpu1: "sc_cpu (k_scs s1 i) = sc_cpu (k_scs s i)" for i by (simp add: s1_def sc_charge_scs)
  have ch1: "k_scs s1 i \<noteq> k_scs s i \<Longrightarrow> sc_cpu (k_scs s i) = int c" for i
    using st n0 by (auto simp: s1_def sc_charge_scs split: if_splits)
  have co1: "sc_consumed_us (k_scs s1 i) = sc_consumed_us (k_scs s i)
      + (if i = k_sc_stamp_idx s c \<and> i \<noteq> 0 then now - k_sc_stamp_us s c else 0)" for i
    using st n0 by (auto simp: s1_def sc_charge_scs)
  consider "k_scs s' = k_scs s1"
    | j where "sc_cpu (k_scs s1 j) = int c" "k_scs s' = (k_scs s1)(j := sc_refresh (int c) now (k_scs s1 j))"
    using f by blast
  thus ?thesis
  proof cases
    case 1 thus ?thesis using ch1 co1 by simp
  next
    case 2
    have "k_scs s' i \<noteq> k_scs s i \<Longrightarrow> sc_cpu (k_scs s i) = int c" for i
      using 2 ch1[of i] cpu1[of i] by (cases "i = j") auto
    moreover have "sc_consumed_us (k_scs s' i) = sc_consumed_us (k_scs s1 i)" for i using 2 by simp
    ultimately show ?thesis using co1 by simp
  qed
qed

theorem charged_by_own_cpu_witness:
  "\<exists>r s'. sc_account_stamp 0 1 50 sample_sched = (r, s')
     \<and> (\<forall>i. k_scs s' i \<noteq> k_scs sample_sched i \<longrightarrow> sc_cpu (k_scs sample_sched i) = 0)"
proof -
  obtain r s' where run: "sc_account_stamp 0 1 50 sample_sched = (r, s')" by (metis prod.exhaust)
  have "\<forall>i. k_scs s' i \<noteq> k_scs sample_sched i \<longrightarrow> sc_cpu (k_scs sample_sched i) = int 0"
    using charged_by_own_cpu[OF sample_sched_inv _ run] by simp
  thus ?thesis using run by auto
qed

text \<open>Destroying a context gives its whole share to its parent, hands its children
  to its parent, and leaves every task that was bound to it bound to nothing, so
  that no CPU may run it, as budgeted work or as slack, until it is bound again.\<close>

theorem destroyed_returns_share:
  assumes inv: "sched_inv s" and live: "live_sc s idx" and dyn: "DYN_SC_BASE \<le> idx"
  defines "h \<equiv> sc_parent (k_scs s idx)" and "s' \<equiv> sched_context_destroyed idx s"
  shows "\<not> live_sc s' idx
     \<and> sc_share_ppm (k_scs s' h) = sc_share_ppm (k_scs s h) + sc_share_ppm (k_scs s idx)
     \<and> (\<forall>i. live_sc s' i \<and> DYN_SC_BASE \<le> i \<longrightarrow>
            sc_parent (k_scs s' i) = (if sc_parent (k_scs s i) = idx then h else sc_parent (k_scs s i)))
     \<and> (\<forall>t cpu now. t_sc_index (k_tasks s (nat t)) = idx \<longrightarrow> sc_eligible s' t cpu now = SC_RUN_NONE)"
proof -
  note d = destroyed_state[OF inv live dyn, folded h_def s'_def]
  have ixe: "sc_by_index s' j = sc_by_index s j" for j by (rule sc_by_index_dyn[OF d(6)])
  have lv: "live_sc s' i \<longleftrightarrow> live_sc s i \<and> i \<noteq> idx" for i
    using d(1) by (auto simp: live_sc_def ixe d(11) Let_def)
  have sum: "sc_share_ppm (k_scs s h) + sc_share_ppm (k_scs s idx) \<le> SC_PPM_WHOLE"
    by (rule share_le_whole[OF inv d(2) live d(1) d(4) d(3) d(5)])
  have "sc_share_ppm (k_scs s' h) = sc_share_ppm (k_scs s h) + sc_share_ppm (k_scs s idx)"
    using d(1) by (simp add: d(11) Let_def rust_sc_reclaim_exact[OF sum])
  moreover have "sc_parent (k_scs s' i) = (if sc_parent (k_scs s i) = idx then h else sc_parent (k_scs s i))"
    if "live_sc s' i" "DYN_SC_BASE \<le> i" for i using that by (auto simp: lv d(11) Let_def)
  moreover have "sc_eligible s' t cpu now = SC_RUN_NONE" if b: "t_sc_index (k_tasks s (nat t)) = idx" for t cpu now
  proof -
    have "task_sc s' t = None"
      using b d(7) d(9)[of "nat t"] by (auto simp: task_sc_def sc_by_index_def)
    thus ?thesis by (simp add: sc_eligible_def)
  qed
  ultimately show ?thesis using lv by blast
qed

text \<open>Priorities: a call succeeds exactly when both tasks exist, neither value is
  above the caller's own maximum and the target is alive; then only the target's
  two values change and reading them back returns what was set.  Every other call
  changes nothing.\<close>

theorem priority_bounded:
  assumes run: "sched_set_priority caller target p m s = (r, s')"
  shows "(r = 0 \<longleftrightarrow> 0 < caller \<and> caller < int (k_max_tasks s) \<and> 0 < target \<and> target < int (k_max_tasks s)
            \<and> p \<le> t_max_priority (k_tasks s (nat caller)) \<and> m \<le> t_max_priority (k_tasks s (nat caller))
            \<and> t_state (k_tasks s (nat target)) \<noteq> 0)
    \<and> (r = 0 \<longrightarrow> k_tasks s' = (k_tasks s)(nat target := (k_tasks s (nat target))\<lparr> t_priority := p, t_max_priority := m \<rparr>))
    \<and> (r = 0 \<and> p \<le> SCHED_PRIO_MAX \<and> m \<le> SCHED_PRIO_MAX \<longrightarrow> sched_get_priority target s' = int (m * 256 + p))
    \<and> (r \<noteq> 0 \<longrightarrow> s' = s \<and> (r = SYS_ERR_PERM \<or> r = SYS_ERR_INVAL))"
  using run pack_bytes[of p m]
  by (auto simp: sched_set_priority_def sched_get_priority_def Let_def split: if_splits)

theorem priority_bounded_witness:
  "\<exists>s'. sched_set_priority 1 2 7 20 sample_sched = (0, s') \<and> sched_get_priority 2 s' = 20 * 256 + 7"
proof -
  obtain r s' where run: "sched_set_priority 1 2 7 20 sample_sched = (r, s')" by (metis prod.exhaust)
  have "k_tasks sample_sched = k_tasks sample_ks" "k_max_tasks sample_sched = k_max_tasks sample_ks"
    by (simp_all add: sample_sched_def sched_contexts_init_def fold_init_root_frame Let_def)
  hence "r = 0" using priority_bounded[OF run] by (simp add: sample_ks_def zero_kstate_def)
  thus ?thesis using priority_bounded[OF run] run by simp
qed

theorem destroyed_returns_share_witness:
  "let s = snd (sched_carve 1 (Some 9) 20000 100000 0 sample_sched) in
   sc_share_ppm (k_scs s 1) = 800000 \<and> live_sc s 9
   \<and> sc_share_ppm (k_scs (sched_context_destroyed 9 s) 1) = 1000000"
proof -
  define s where s: "s = snd (sched_carve 1 (Some 9) 20000 100000 0 sample_sched)"
  have k: "k_scs sample_sched 1 = root_context 0 0" "k_scs sample_sched 9 = zero_sc"
    "k_dyn_scs sample_sched = k_dyn_scs sample_ks"
    by (simp_all add: sample_sched_def sched_contexts_init_def fold_init_root fold_init_root_frame Let_def
          sample_ks_def zero_kstate_def)
  have ix: "sc_by_index sample_sched 9 = Some 9" "sc_by_index sample_sched 1 = Some 1"
    by (simp_all add: sc_by_index_def sc_dyn_by_index_def k(3) sample_ks_def zero_kstate_def)
  have sp: "rust_sc_split 1000000 20000 100000 = Inr (800000, 200000)"
    by (simp add: rust_sc_split_def child_share_def split_with_share_def)
  have k': "k_scs s 1 = (root_context 0 0)\<lparr> sc_share_ppm := 800000, sc_remaining_us := 80000 \<rparr>"
    "k_scs s 9 = carved (root_context 0 0) 1 200000 100000 False (k_clock_us sample_sched)"
    "k_dyn_scs s = k_dyn_scs sample_sched"
    by (simp_all add: s sched_carve_def ix[simplified] k[simplified] root_context_def sp sc_budget_us_def Let_def)
  have lv: "live_sc s 9" using ix(1) sc_by_index_dyn[OF k'(3), of 9] by (simp add: live_sc_def k' carved_def)
  have inv: "sched_inv s"
    using sched_carve_inv[OF sample_sched_inv, of 1 9 20000 100000 0 _ s] ix k(2) s
    by (metis prod.collapse option.distinct(1) order_refl sched_context.select_convs(1) zero_sc_def)
  show ?thesis unfolding Let_def s[symmetric] using destroyed_returns_share[OF inv lv] lv k'
    by (simp add: root_context_def carved_def)
qed

end
