(* ===== verification/Sched_Pick.thy ===== *)
theory Sched_Pick
  imports Sched_Ctx
begin

text \<open>
  Choosing what a CPU runs next (\<^verbatim>\<open>src/kernel/scheduler.c\<close>, the multiprocessor
  build): the walk of one run list, the search of the other CPUs' lists, the rule
  that the task a CPU is running keeps it against anything no more urgent, and
  \<open>sched_pick_after\<close>, which charges, chooses and stamps.  The theorems say that the
  choice is the most urgent budgeted task of any list, that slack runs only when
  no budgeted task is waiting, and that a CPU is left with nothing only when
  nothing may run on it.
\<close>

section \<open>The walks\<close>

definition sched_selectable :: "kstate \<Rightarrow> nat \<Rightarrow> bool" where
  "sched_selectable s t \<longleftrightarrow>
     t_state (k_tasks s t) = TASK_RUNNABLE \<and> t_cr3 (k_tasks s t) \<noteq> 0 \<and> t_runnable_ctx (k_tasks s t)
     \<and> t_saved_ksp (k_tasks s t) \<noteq> 0 \<and> \<not> t_pager_hold (k_tasks s t) \<and> k_running_cpu s t < 0"

definition prio_better :: "kstate \<Rightarrow> int \<Rightarrow> int \<Rightarrow> bool" where
  "prio_better s cand best \<longleftrightarrow>
     cand > 0 \<and> (best \<le> 0 \<or> t_priority (k_tasks s (nat cand)) > t_priority (k_tasks s (nat best)))"

definition prio_top :: "kstate \<Rightarrow> int \<Rightarrow> bool" where
  "prio_top s t \<longleftrightarrow> t > 0 \<and> t_priority (k_tasks s (nat t)) \<ge> SCHED_PRIO_MAX"

definition start_keeps_cpu :: "kstate \<Rightarrow> int \<Rightarrow> int \<Rightarrow> nat \<Rightarrow> nat \<Rightarrow> bool" where
  "start_keeps_cpu s start best cpu now_us \<longleftrightarrow>
     \<not> (start \<le> 0 \<or> start \<ge> int (k_max_tasks s) \<or> cpu \<ge> MAX_CPUS)
     \<and> k_percpu_cur s cpu = start
     \<and> \<not> (t_state (k_tasks s (nat start)) \<noteq> TASK_RUNNABLE \<or> t_pending_block (k_tasks s (nat start)) \<noteq> 0
          \<or> t_pager_hold (k_tasks s (nat start)))
     \<and> sc_eligible s start (int cpu) now_us = SC_RUN_BUDGET
     \<and> (best \<le> 0 \<or> prio_better s start best)"

text \<open>What the walk accepts of a task.\<close>

definition acceptable :: "kstate \<Rightarrow> int \<Rightarrow> nat \<Rightarrow> sc_run \<Rightarrow> nat \<Rightarrow> nat \<Rightarrow> bool" where
  "acceptable s start cpu want now t \<longleftrightarrow>
     int t \<noteq> start \<and> sched_selectable s t
     \<and> (let e = sc_eligible s (int t) (int cpu) now in e \<noteq> SC_RUN_NONE \<and> (want = SC_RUN_SLACK \<or> e = want))"

primrec rq_walk :: "nat \<Rightarrow> kstate \<Rightarrow> int \<Rightarrow> nat \<Rightarrow> sc_run \<Rightarrow> nat \<Rightarrow> nat \<Rightarrow> nat \<Rightarrow> int \<Rightarrow> int" where
  "rq_walk 0 s start cpu want now origin t best = best"
| "rq_walk (Suc n) s start cpu want now origin t best =
    (let nxt = t_rq_next (k_tasks s t);
         go = (\<lambda>b. if nxt = origin then b else rq_walk n s start cpu want now origin nxt b)
     in if acceptable s start cpu want now t
        then (if want = SC_RUN_SLACK then int t
              else let best' = (if prio_better s (int t) best then int t else best)
                   in if prio_top s best' then best' else go best')
        else go best)"

definition rq_first_selectable :: "kstate \<Rightarrow> nat \<Rightarrow> int \<Rightarrow> nat \<Rightarrow> sc_run \<Rightarrow> nat \<Rightarrow> int" where
  "rq_first_selectable s c start cpu want now =
    (let h = k_rq_head s c in
     if h < 0 then -1
     else let on_c = (start > 0 \<and> start < int (k_max_tasks s) \<and> t_rq_home (k_tasks s (nat start)) = int c);
              origin = (if on_c then t_rq_next (k_tasks s (nat start)) else nat h)
          in rq_walk (k_max_tasks s) s start cpu want now origin origin (-1))"

primrec steal_walk :: "nat list \<Rightarrow> kstate \<Rightarrow> nat \<Rightarrow> int \<Rightarrow> bool \<Rightarrow> u64 \<Rightarrow> sc_run \<Rightarrow> nat \<Rightarrow> int \<Rightarrow> int" where
  "steal_walk [] s cpu start stalled_only now want now_us best = best"
| "steal_walk (k # ks) s cpu start stalled_only now want now_us best =
    (let c = (cpu + k) mod MAX_CPUS;
         go = steal_walk ks s cpu start stalled_only now want now_us
     in if k_rq_head s c < 0 then go best
        else if stalled_only \<and> now - k_pick_tick s c \<le> 2 then go best
        else let t = rq_first_selectable s c start cpu want now_us in
             if t \<le> 0 then go best
             else if want = SC_RUN_SLACK then t
             else let best' = (if prio_better s t best then t else best)
                  in if prio_top s best' then best' else go best')"

definition rq_steal_find :: "kstate \<Rightarrow> nat \<Rightarrow> int \<Rightarrow> bool \<Rightarrow> u64 \<Rightarrow> sc_run \<Rightarrow> nat \<Rightarrow> int" where
  "rq_steal_find s cpu start stalled_only now want now_us =
     steal_walk [1..<MAX_CPUS] s cpu start stalled_only now want now_us (-1)"

definition rq_steal :: "nat \<Rightarrow> int \<Rightarrow> bool \<Rightarrow> u64 \<Rightarrow> sc_run \<Rightarrow> nat \<Rightarrow> kstate \<Rightarrow> int \<times> kstate" where
  "rq_steal cpu start stalled_only now want now_us s =
    (let t = rq_steal_find s cpu start stalled_only now want now_us
     in (t, if t > 0 then rq_home_on t (int cpu) s else s))"

section \<open>The choice\<close>

definition pick_slack :: "nat \<Rightarrow> int \<Rightarrow> bool \<Rightarrow> u64 \<Rightarrow> nat \<Rightarrow> kstate \<Rightarrow> int \<times> kstate" where
  "pick_slack cpu start include_start now now_us s =
    (let (t, s1) = rq_steal cpu start True now SC_RUN_SLACK now_us s in
     if t > 0 then (t, s1)
     else let t = rq_first_selectable s1 cpu start cpu SC_RUN_SLACK now_us in
     if t > 0 then (t, s1)
     else let (t, s2) = rq_steal cpu start False now SC_RUN_SLACK now_us s1 in
     if t > 0 then (t, s2)
     else if include_start \<and> start > 0 \<and> start < int (k_max_tasks s2) \<and> sched_selectable s2 (nat start)
             \<and> sc_eligible s2 start (int cpu) now_us \<noteq> SC_RUN_NONE then (start, s2)
     else (-1, s2))"

definition pick_budget :: "nat \<Rightarrow> int \<Rightarrow> bool \<Rightarrow> u64 \<Rightarrow> nat \<Rightarrow> kstate \<Rightarrow> int" where
  "pick_budget cpu start include_start now now_us s =
    (let best = rq_steal_find s cpu start True now SC_RUN_BUDGET now_us;
         best = (if \<not> prio_top s best
                 then let t = rq_first_selectable s cpu start cpu SC_RUN_BUDGET now_us
                      in if prio_better s t best then t else best
                 else best);
         best = (if \<not> prio_top s best
                 then let t = rq_steal_find s cpu start False now SC_RUN_BUDGET now_us
                      in if prio_better s t best then t else best
                 else best)
     in if include_start \<and> start > 0 \<and> start < int (k_max_tasks s) \<and> sched_selectable s (nat start)
           \<and> sc_eligible s start (int cpu) now_us = SC_RUN_BUDGET \<and> prio_better s start best
        then start else best)"

definition this_cpu_or_0 :: "kstate \<Rightarrow> nat" where
  "this_cpu_or_0 s = (if k_this_cpu s < 0 \<or> k_this_cpu s \<ge> int MAX_CPUS then 0 else nat (k_this_cpu s))"

definition sched_pick_after_list :: "int \<Rightarrow> bool \<Rightarrow> nat \<Rightarrow> kstate \<Rightarrow> int \<times> kstate" where
  "sched_pick_after_list start include_start now_us s =
    (let cpu = this_cpu_or_0 s;
         now = k_ticks s;
         s1 = s\<lparr> k_pick_tick := (k_pick_tick s)(cpu := now) \<rparr>;
         best = pick_budget cpu start include_start now now_us s1
     in if start_keeps_cpu s1 start best cpu now_us then (-1, s1)
        else if best > 0
        then (best, if best \<noteq> start \<and> t_rq_home (k_tasks s1 (nat best)) \<noteq> int cpu
                    then rq_home_on best (int cpu) s1 else s1)
        else pick_slack cpu start include_start now now_us s1)"

section \<open>The deadline armed after a choice\<close>

primrec refill_walk :: "nat \<Rightarrow> kstate \<Rightarrow> nat \<Rightarrow> int \<Rightarrow> nat \<Rightarrow> nat \<Rightarrow> nat \<Rightarrow> nat \<Rightarrow> nat" where
  "refill_walk 0 s cpu over now h t best = best"
| "refill_walk (Suc n) s cpu over now h t best =
    (let waiting = (sched_selectable s t
                    \<or> k_running_cpu s t = int cpu \<and> t_state (k_tasks s t) = TASK_RUNNABLE
                      \<and> t_pending_block (k_tasks s t) = 0);
         best' = (if int (t_priority (k_tasks s t)) > over \<and> waiting
                  then case task_sc s (int t) of
                         None \<Rightarrow> best
                       | Some i \<Rightarrow>
                           let sc = k_scs s i in
                           if sc_cpu sc = int cpu \<and> \<not> sc_root sc \<and> \<not> sc_has_budget sc now
                           then let at = sc_refill_at sc
                                in if at > now \<and> (best = 0 \<or> at < best) then at else best
                           else best
                  else best);
         nxt = t_rq_next (k_tasks s t)
     in if nxt = h then best' else refill_walk n s cpu over now h nxt best')"

definition sc_next_refill :: "kstate \<Rightarrow> nat \<Rightarrow> int \<Rightarrow> nat \<Rightarrow> nat" where
  "sc_next_refill s cpu over now =
    (if cpu \<ge> MAX_CPUS \<or> k_sc_carved_live s cpu = 0 \<or> over \<ge> int SCHED_PRIO_MAX then 0
     else let h = k_rq_head s cpu in
          if h < 0 then 0 else refill_walk (k_max_tasks s) s cpu over now (nat h) (nat h) 0)"

text \<open>\<open>sc_account\<close> stamps the choice and arms the timer; the number is the deadline
  handed to the timer, 0 to disarm it.\<close>

definition sc_account :: "int \<Rightarrow> int \<Rightarrow> nat \<Rightarrow> kstate \<Rightarrow> nat option \<times> kstate" where
  "sc_account cpu_i chosen now s =
    (if cpu_i < 0 \<or> cpu_i \<ge> int MAX_CPUS then (None, s)
     else
       let cpu = nat cpu_i;
           (stamped, s1) = sc_account_stamp cpu chosen now s;
           (dl, over) =
             (case sc_by_index s1 (k_sc_stamp_idx s1 cpu) of
                None \<Rightarrow> (0, -1)
              | Some i \<Rightarrow>
                  let sc = k_scs s1 i in
                  if sc_live sc \<and> sc_cpu sc = cpu_i \<and> stamped > 0
                  then (if \<not> sc_root sc \<and> sc_remaining_us sc > 0 then now + nat (sc_remaining_us sc) else 0,
                        int (t_priority (k_tasks s1 (nat stamped))))
                  else (0, -1));
           rf = sc_next_refill s1 cpu over now
       in (Some (if rf \<noteq> 0 \<and> (dl = 0 \<or> rf < dl) then rf else dl), s1))"

definition sched_pick_after :: "int \<Rightarrow> bool \<Rightarrow> kstate \<Rightarrow> int \<times> nat option \<times> kstate" where
  "sched_pick_after start include_start s =
    (let now_us = k_clock_us s;
         s1 = (if k_this_cpu s \<ge> 0 \<and> k_this_cpu s < int MAX_CPUS then sc_charge (nat (k_this_cpu s)) now_us s else s);
         (t, s2) = sched_pick_after_list start include_start now_us s1;
         (dl, s3) = sc_account (k_this_cpu s2) t now_us s2
     in (t, dl, s3))"

section \<open>The walks as scans of lists\<close>

primrec scan :: "kstate \<Rightarrow> int \<Rightarrow> nat \<Rightarrow> sc_run \<Rightarrow> nat \<Rightarrow> nat list \<Rightarrow> int \<Rightarrow> int" where
  "scan s start cpu want now [] best = best"
| "scan s start cpu want now (t # ts) best =
    (if acceptable s start cpu want now t
     then (if want = SC_RUN_SLACK then int t
           else let best' = (if prio_better s (int t) best then int t else best)
                in if prio_top s best' then best' else scan s start cpu want now ts best')
     else scan s start cpu want now ts best)"

lemma rq_walk_scan:
  assumes "successively (\<lambda>x y. t_rq_next (k_tasks s x) = y) (zs @ [origin])" "zs \<noteq> []"
    and "origin \<notin> set (tl zs)" "length zs \<le> n"
  shows "rq_walk n s start cpu want now origin (hd zs) best = scan s start cpu want now zs best"
  using assms
proof (induction zs arbitrary: n best)
  case (Cons t ts)
  obtain m where n: "n = Suc m" using Cons.prems(4) by (cases n) auto
  show ?case
  proof (cases ts)
    case Nil
    thus ?thesis using Cons.prems(1) by (auto simp: n Let_def)
  next
    case (Cons u us)
    have nx: "t_rq_next (k_tasks s t) = u" "u \<noteq> origin" using Cons.prems(1,3) Cons by auto
    have ih: "rq_walk m s start cpu want now origin u b = scan s start cpu want now ts b" for b
      using Cons.IH[of m b] Cons.prems n Cons by auto
    show ?thesis by (simp add: n nx ih Let_def)
  qed
qed simp

lemma ringed_rotate: "ringed ts (us @ vs) \<Longrightarrow> ringed ts (vs @ us)"
proof (cases "us = [] \<or> vs = []")
  case False
  assume "ringed ts (us @ vs)"
  thus ?thesis using False by (auto simp: ringed_def successively_append_iff)
qed auto

lemma ringed_next:
  "ringed ts xs \<Longrightarrow> xs \<noteq> [] \<Longrightarrow> successively (\<lambda>x y. t_rq_next (ts x) = y) (xs @ [hd xs])"
  by (rule successively_mono[of "linked ts"]) (auto simp: ringed_def linked_def)

lemma run_list_short:
  assumes "run_lists_ok s L" "c < MAX_CPUS"
  shows "length (L c) \<le> k_max_tasks s"
proof -
  have "set (L c) \<subseteq> {..<k_max_tasks s}" using run_lists_okD(4)[OF assms] by auto
  hence "card (set (L c)) \<le> k_max_tasks s" using card_mono[of "{..<k_max_tasks s}"] by fastforce
  thus ?thesis using run_lists_okD(2)[OF assms] by (simp add: distinct_card)
qed

lemma first_selectable_scan:
  assumes ok: "run_lists_ok s L" and c: "c < MAX_CPUS"
  obtains ys where "set ys = set (L c)"
    "rq_first_selectable s c start cpu want now = scan s start cpu want now ys (-1)"
proof (cases "L c = []")
  case True
  have "rq_first_selectable s c start cpu want now = -1"
    using run_lists_okD(1)[OF ok c] True by (simp add: rq_first_selectable_def)
  thus thesis using that[of "[]"] True by simp
next
  case ne: False
  note found = that
  have h: "k_rq_head s c = int (hd (L c))" using run_lists_okD(1)[OF ok c] ne by simp
  have go: thesis if ys: "ringed (k_tasks s) ys" "distinct ys" "set ys = set (L c)" "length ys = length (L c)" "ys \<noteq> []"
      "rq_first_selectable s c start cpu want now = rq_walk (k_max_tasks s) s start cpu want now (hd ys) (hd ys) (-1)" for ys
  proof -
    have "hd ys \<notin> set (tl ys)" using ys(2,5) by (cases ys) auto
    hence "rq_walk (k_max_tasks s) s start cpu want now (hd ys) (hd ys) (-1) = scan s start cpu want now ys (-1)"
      using rq_walk_scan[OF ringed_next[OF ys(1,5)] ys(5)] run_list_short[OF ok c] ys(4) by simp
    thus thesis using found[OF ys(3)] ys(6) by simp
  qed
  note d = run_lists_okD(2,3)[OF ok c]
  show thesis
  proof (cases "start > 0 \<and> start < int (k_max_tasks s) \<and> t_rq_home (k_tasks s (nat start)) = int c")
    case False
    show thesis
      by (rule go[of "L c"]) (use d ne False h in \<open>auto simp: rq_first_selectable_def Let_def\<close>)
  next
    case on: True
    define st where "st = nat start"
    have "st \<in> set (L c)" using run_lists_okD(5)[OF ok c] on st_def by blast
    then obtain us vs where L: "L c = us @ st # vs" by (meson split_list)
    have r: "ringed (k_tasks s) (vs @ us @ [st])"
      using ringed_rotate[of "k_tasks s" "us @ [st]" vs] d(2) L by simp
    have nx: "t_rq_next (k_tasks s st) = hd (vs @ us @ [st])"
      using r by (simp add: ringed_def successively_append_iff linked_def)
    show thesis
      by (rule go[of "vs @ us @ [st]"])
        (use d L r nx on h in \<open>auto simp: rq_first_selectable_def Let_def st_def[symmetric]\<close>)
  qed
qed

section \<open>Picks\<close>

text \<open>The outcome of a search over a set of candidates: none, or one that no other
  candidate outranks.\<close>

definition picks :: "kstate \<Rightarrow> nat set \<Rightarrow> int \<Rightarrow> bool" where
  "picks s A r \<longleftrightarrow>
     (if A = {} then r = -1
      else \<exists>t\<in>A. r = int t \<and> (\<forall>u\<in>A. t_priority (k_tasks s u) \<le> t_priority (k_tasks s t)))"

definition finds :: "nat set \<Rightarrow> int \<Rightarrow> bool" where
  "finds A r \<longleftrightarrow> (if A = {} then r = -1 else \<exists>t\<in>A. r = int t)"

lemma picks_finds: "picks s A r \<Longrightarrow> finds A r"
  by (auto simp: picks_def finds_def split: if_splits)

lemma picks_join:
  assumes "picks s A r" "picks s B q" "\<And>t. t \<in> A \<union> B \<Longrightarrow> 0 < t"
  shows "picks s (A \<union> B) (if prio_better s q r then q else r)"
proof (cases "A = {} \<or> B = {}")
  case True
  thus ?thesis using assms by (auto simp: picks_def prio_better_def split: if_splits)
next
  case False
  then obtain t u where t: "t \<in> A" "r = int t" "\<forall>x\<in>A. t_priority (k_tasks s x) \<le> t_priority (k_tasks s t)"
    and u: "u \<in> B" "q = int u" "\<forall>x\<in>B. t_priority (k_tasks s x) \<le> t_priority (k_tasks s u)"
    using assms(1,2) by (auto simp: picks_def)
  have "0 < t" "0 < u" using t u assms(3) by auto
  thus ?thesis using t u False
    by (auto simp: picks_def prio_better_def intro: order.trans less_imp_le)
qed

lemma picks_top:
  assumes "picks s A r" "prio_top s r" "\<And>u. u \<in> B \<Longrightarrow> t_priority (k_tasks s u) \<le> SCHED_PRIO_MAX"
  shows "picks s (A \<union> B) r"
proof -
  have "A \<noteq> {}" using assms(1,2) by (auto simp: picks_def prio_top_def)
  then obtain t where t: "t \<in> A" "r = int t" "\<forall>x\<in>A. t_priority (k_tasks s x) \<le> t_priority (k_tasks s t)"
    using assms(1) by (auto simp: picks_def)
  have "t_priority (k_tasks s t) \<ge> SCHED_PRIO_MAX" using assms(2) t by (simp add: prio_top_def)
  hence "\<forall>u\<in>A \<union> B. t_priority (k_tasks s u) \<le> t_priority (k_tasks s t)"
    using t(3) assms(3) order.trans by blast
  thus ?thesis using t(1,2) unfolding picks_def by auto
qed

lemma picks_single: "picks s {t} (int t)"
  by (simp add: picks_def)

section \<open>What the walks pick\<close>

definition prios_ok :: "kstate \<Rightarrow> bool" where
  "prios_ok s \<longleftrightarrow> (\<forall>t. t_priority (k_tasks s t) \<le> SCHED_PRIO_MAX)"

lemma scan_budget:
  assumes pr: "prios_ok s" and w: "want \<noteq> SC_RUN_SLACK" and pos: "\<forall>t\<in>set xs \<union> A. 0 < t"
    and b: "picks s A best"
  shows "picks s (A \<union> {t \<in> set xs. acceptable s start cpu want now t}) (scan s start cpu want now xs best)"
  using pos b
proof (induction xs arbitrary: A best)
  case (Cons t ts)
  let ?acc = "\<lambda>xs. {t \<in> set xs. acceptable s start cpu want now t}"
  show ?case
  proof (cases "acceptable s start cpu want now t")
    case False
    hence e: "?acc (t # ts) = ?acc ts" by auto
    show ?thesis unfolding e using Cons False by simp
  next
    case True
    define best' where "best' = (if prio_better s (int t) best then int t else best)"
    have b': "picks s (A \<union> {t}) best'"
      unfolding best'_def by (rule picks_join[OF Cons.prems(2) picks_single]) (use Cons.prems(1) in auto)
    have e: "A \<union> ?acc (t # ts) = (A \<union> {t}) \<union> ?acc ts" using True by auto
    show ?thesis
    proof (cases "prio_top s best'")
      case top: True
      have "scan s start cpu want now (t # ts) best = best'" using True top w by (simp add: best'_def)
      thus ?thesis unfolding e using picks_top[OF b' top] pr by (simp add: prios_ok_def)
    next
      case False
      have "scan s start cpu want now (t # ts) best = scan s start cpu want now ts best'"
        using True False w by (simp add: best'_def)
      thus ?thesis unfolding e using Cons.IH[OF _ b'] Cons.prems(1) by simp
    qed
  qed
qed simp

lemma scan_slack:
  "finds {t \<in> set xs. acceptable s start cpu SC_RUN_SLACK now t} (scan s start cpu SC_RUN_SLACK now xs (-1))"
proof (induction xs)
  case (Cons t ts)
  show ?case
  proof (cases "acceptable s start cpu SC_RUN_SLACK now t")
    case False
    hence "{u \<in> set (t # ts). acceptable s start cpu SC_RUN_SLACK now u}
           = {u \<in> set ts. acceptable s start cpu SC_RUN_SLACK now u}" by auto
    thus ?thesis using False Cons.IH by simp
  qed (auto simp: finds_def)
qed (simp add: finds_def)

text \<open>The candidates of a CPU's list, and of a set of CPUs' lists.\<close>

definition cands :: "kstate \<Rightarrow> run_lists \<Rightarrow> int \<Rightarrow> nat \<Rightarrow> sc_run \<Rightarrow> nat \<Rightarrow> nat set \<Rightarrow> nat set" where
  "cands s L start cpu want now C = {t. (\<exists>c\<in>C. t \<in> set (L c)) \<and> acceptable s start cpu want now t}"

lemma cands_simps:
  "cands s L start cpu want now {} = {}"
  "cands s L start cpu want now (insert c C) =
     {t \<in> set (L c). acceptable s start cpu want now t} \<union> cands s L start cpu want now C"
  "cands s L start cpu want now (C \<union> D) = cands s L start cpu want now C \<union> cands s L start cpu want now D"
  by (auto simp: cands_def)

lemma first_selectable_picks:
  assumes "run_lists_ok s L" "c < MAX_CPUS" "prios_ok s" "want \<noteq> SC_RUN_SLACK"
  shows "picks s (cands s L start cpu want now {c}) (rq_first_selectable s c start cpu want now)"
proof -
  obtain ys where ys: "set ys = set (L c)"
    "rq_first_selectable s c start cpu want now = scan s start cpu want now ys (-1)"
    by (rule first_selectable_scan[OF assms(1,2)])
  have "picks s {} (-1)" by (simp add: picks_def)
  hence "picks s ({} \<union> {t \<in> set ys. acceptable s start cpu want now t}) (scan s start cpu want now ys (-1))"
    by (intro scan_budget[OF assms(3,4)]) (use ys run_lists_okD(4)[OF assms(1,2)] in auto)
  thus ?thesis by (simp add: ys cands_simps)
qed

lemma first_selectable_finds:
  assumes "run_lists_ok s L" "c < MAX_CPUS"
  shows "finds (cands s L start cpu SC_RUN_SLACK now {c}) (rq_first_selectable s c start cpu SC_RUN_SLACK now)"
proof -
  obtain ys where "set ys = set (L c)"
    "rq_first_selectable s c start cpu SC_RUN_SLACK now = scan s start cpu SC_RUN_SLACK now ys (-1)"
    by (rule first_selectable_scan[OF assms])
  thus ?thesis using scan_slack[of ys s start cpu now] by (simp add: cands_simps)
qed

lemma cands_pos:
  assumes "run_lists_ok s L" "C \<subseteq> {..<MAX_CPUS}" "t \<in> cands s L start cpu want now C"
  shows "0 < t"
  using assms run_lists_okD(4)[OF assms(1)] by (auto simp: cands_def)

lemma picks_step:
  assumes "picks s A r" "picks s B q" "\<And>t. t \<in> A \<union> B \<Longrightarrow> 0 < t" "prios_ok s"
  shows "picks s (A \<union> B) (if \<not> prio_top s r then let t = q in if prio_better s t r then t else r else r)"
  using picks_join[OF assms(1-3)] picks_top[OF assms(1), of B] assms(4) by (simp add: prios_ok_def)

definition considered :: "kstate \<Rightarrow> nat \<Rightarrow> bool \<Rightarrow> u64 \<Rightarrow> nat list \<Rightarrow> nat set" where
  "considered s cpu stalled_only now ks =
     {c. \<exists>k\<in>set ks. c = (cpu + k) mod MAX_CPUS \<and> \<not> (stalled_only \<and> now - k_pick_tick s c \<le> 2)}"

lemma considered_simps:
  "considered s cpu so now [] = {}"
  "considered s cpu so now (k # ks) =
     (if so \<and> now - k_pick_tick s ((cpu + k) mod MAX_CPUS) \<le> 2 then {} else {(cpu + k) mod MAX_CPUS})
     \<union> considered s cpu so now ks"
  "considered s cpu so now ks \<subseteq> {..<MAX_CPUS}"
  by (auto simp: considered_def)

lemma considered_others:
  assumes "cpu < MAX_CPUS"
  shows "considered s cpu False now [1..<MAX_CPUS] = {..<MAX_CPUS} - {cpu}"
proof -
  have "\<exists>k\<in>{1..<8}. c = (cpu + k) mod 8" if "c < 8" "c \<noteq> cpu" for c
    by (rule bexI[of _ "if cpu < c then c - cpu else c + 8 - cpu"]) (use that assms in auto)
  moreover have "(cpu + k) mod 8 \<noteq> cpu" if "1 \<le> k" "k < 8" for k
    using that assms by (cases "cpu + k < 8") (auto simp: mod_if)
  ultimately show ?thesis by (fastforce simp: considered_def)
qed

lemma empty_list_cands:
  assumes "run_lists_ok s L" "c < MAX_CPUS" "k_rq_head s c < 0"
  shows "cands s L start cpu want now {c} = {}"
  using run_lists_okD(1)[OF assms(1,2)] assms(3) by (auto simp: cands_def split: if_splits)

lemma steal_walk_picks:
  assumes ok: "run_lists_ok s L" and pr: "prios_ok s" and w: "want \<noteq> SC_RUN_SLACK"
    and b: "picks s A best" and pos: "\<forall>t\<in>A. 0 < t" and nt: "\<not> prio_top s best"
  shows "picks s (A \<union> cands s L start cpu want now_us (considered s cpu so now ks))
           (steal_walk ks s cpu start so now want now_us best)"
  using b pos nt
proof (induction ks arbitrary: A best)
  case Nil
  thus ?case by (simp add: considered_simps cands_simps)
next
  case (Cons k ks)
  define c where "c = (cpu + k) mod MAX_CPUS"
  have c8: "c < MAX_CPUS" by (simp add: c_def)
  let ?C = "considered s cpu so now ks"
  let ?K = "\<lambda>C. cands s L start cpu want now_us C"
  show ?case
  proof (cases "k_rq_head s c < 0 \<or> so \<and> now - k_pick_tick s c \<le> 2")
    case True
    have e: "?K (considered s cpu so now (k # ks)) = ?K ?C"
      using True empty_list_cands[OF ok c8, of start cpu want now_us]
      by (auto simp: considered_simps c_def[symmetric] cands_simps)
    show ?thesis unfolding e using True Cons by (auto simp: c_def[symmetric] Let_def)
  next
    case False
    let ?t = "rq_first_selectable s c start cpu want now_us"
    define best' where "best' = (if prio_better s ?t best then ?t else best)"
    have t: "picks s (?K {c}) ?t" by (rule first_selectable_picks[OF ok c8 pr w])
    have pc: "\<forall>t\<in>?K {c}. 0 < t" using cands_pos[OF ok, of "{c}"] c8 by blast
    have pA: "\<forall>t\<in>A \<union> ?K {c}. 0 < t" using Cons.prems(2) pc by auto
    have b': "picks s (A \<union> ?K {c}) best'"
      unfolding best'_def by (rule picks_join[OF Cons.prems(1) t]) (use pA in auto)
    have e: "A \<union> ?K (considered s cpu so now (k # ks)) = (A \<union> ?K {c}) \<union> ?K ?C"
      using False by (auto simp: considered_simps c_def[symmetric] cands_simps)
    have go: "steal_walk (k # ks) s cpu start so now want now_us best =
        (if prio_top s best' then best' else steal_walk ks s cpu start so now want now_us best')"
    proof (cases "?t \<le> 0")
      case True
      hence "best' = best" by (auto simp: best'_def prio_better_def)
      thus ?thesis using True False Cons.prems(3) by (auto simp: c_def[symmetric] Let_def)
    next
      case t0: False
      thus ?thesis using False w by (auto simp: best'_def c_def[symmetric] Let_def)
    qed
    show ?thesis
    proof (cases "prio_top s best'")
      case True
      thus ?thesis unfolding e go using picks_top[OF b' True] pr by (simp add: prios_ok_def)
    next
      case False
      thus ?thesis unfolding e go using Cons.IH[OF b' pA False] by simp
    qed
  qed
qed

lemma steal_walk_finds:
  assumes ok: "run_lists_ok s L"
  shows "finds (cands s L start cpu SC_RUN_SLACK now_us (considered s cpu so now ks))
           (steal_walk ks s cpu start so now SC_RUN_SLACK now_us (-1))"
proof (induction ks)
  case Nil
  thus ?case by (simp add: considered_simps cands_simps finds_def)
next
  case (Cons k ks)
  define c where "c = (cpu + k) mod MAX_CPUS"
  have c8: "c < MAX_CPUS" by (simp add: c_def)
  let ?K = "\<lambda>C. cands s L start cpu SC_RUN_SLACK now_us C"
  let ?t = "rq_first_selectable s c start cpu SC_RUN_SLACK now_us"
  have t: "finds (?K {c}) ?t" by (rule first_selectable_finds[OF ok c8])
  have pc: "\<forall>t\<in>?K {c}. 0 < t" using cands_pos[OF ok, of "{c}"] c8 by blast
  show ?case
  proof (cases "k_rq_head s c < 0 \<or> so \<and> now - k_pick_tick s c \<le> 2 \<or> ?K {c} = {}")
    case True
    have "?K (considered s cpu so now (k # ks)) = ?K (considered s cpu so now ks)"
      using True empty_list_cands[OF ok c8, of start cpu SC_RUN_SLACK now_us]
      by (auto simp: considered_simps c_def[symmetric] cands_simps)
    moreover have "?t \<le> 0" if "?K {c} = {}" using t that by (simp add: finds_def)
    ultimately show ?thesis using True Cons by (auto simp: c_def[symmetric] Let_def)
  next
    case False
    hence "?t > 0" "nat ?t \<in> ?K {c}" using t pc by (auto simp: finds_def split: if_splits)
    moreover have "?K {c} \<subseteq> ?K (considered s cpu so now (k # ks))"
      using False by (auto simp: considered_simps c_def[symmetric] cands_simps)
    ultimately have "finds (?K (considered s cpu so now (k # ks))) ?t"
      by (auto simp: finds_def intro!: bexI[of _ "nat ?t"])
    thus ?thesis using False \<open>?t > 0\<close> by (auto simp: c_def[symmetric] Let_def)
  qed
qed

section \<open>What the choice picks\<close>

text \<open>The starting task, when the caller lets it be chosen again.\<close>

definition start_cand :: "kstate \<Rightarrow> int \<Rightarrow> bool \<Rightarrow> nat \<Rightarrow> sc_run \<Rightarrow> nat \<Rightarrow> nat set" where
  "start_cand s start include_start cpu want now =
    (if include_start \<and> start > 0 \<and> start < int (k_max_tasks s) \<and> sched_selectable s (nat start)
        \<and> (let e = sc_eligible s start (int cpu) now in e \<noteq> SC_RUN_NONE \<and> (want = SC_RUN_SLACK \<or> e = want))
     then {nat start} else {})"

lemma pick_budget_picks:
  assumes ok: "run_lists_ok s L" and pr: "prios_ok s" and cpu: "cpu < MAX_CPUS"
  shows "picks s (cands s L start cpu SC_RUN_BUDGET now_us {..<MAX_CPUS}
                  \<union> start_cand s start incl cpu SC_RUN_BUDGET now_us)
           (pick_budget cpu start incl now now_us s)"
proof -
  let ?K = "\<lambda>C. cands s L start cpu SC_RUN_BUDGET now_us C"
  let ?S = "considered s cpu True now [1..<MAX_CPUS]" and ?O = "{..<MAX_CPUS} - {cpu}"
  have e0: "picks s {} (-1)" "\<not> prio_top s (-1)" by (simp_all add: picks_def prio_top_def)
  have st: "picks s (?K (considered s cpu so now [1..<MAX_CPUS])) (rq_steal_find s cpu start so now SC_RUN_BUDGET now_us)"
    for so using steal_walk_picks[OF ok pr _ e0(1) _ e0(2)] by (simp add: rq_steal_find_def)
  have pos: "\<And>C t. C \<subseteq> {..<MAX_CPUS} \<Longrightarrow> t \<in> ?K C \<Longrightarrow> 0 < t" using cands_pos[OF ok] by blast
  define b1 where "b1 = rq_steal_find s cpu start True now SC_RUN_BUDGET now_us"
  define b2 where "b2 = (if \<not> prio_top s b1 then let t = rq_first_selectable s cpu start cpu SC_RUN_BUDGET now_us
                      in if prio_better s t b1 then t else b1 else b1)"
  define b3 where "b3 = (if \<not> prio_top s b2 then let t = rq_steal_find s cpu start False now SC_RUN_BUDGET now_us
                      in if prio_better s t b2 then t else b2 else b2)"
  have p1: "picks s (?K ?S) b1" unfolding b1_def by (rule st)
  have p2: "picks s (?K ?S \<union> ?K {cpu}) b2"
    unfolding b2_def
    by (rule picks_step[OF p1 first_selectable_picks[OF ok cpu pr] _ pr])
      (use pos[OF considered_simps(3)] pos[of "{cpu}"] cpu in auto)
  have p3: "picks s ((?K ?S \<union> ?K {cpu}) \<union> ?K ?O) b3"
    unfolding b3_def
    by (rule picks_step[OF p2 st[of False, unfolded considered_others[OF cpu]] _ pr])
      (use pos[OF considered_simps(3)] pos[of "{cpu}"] pos[of ?O] cpu in auto)
  have "(?K ?S \<union> ?K {cpu}) \<union> ?K ?O = ?K {..<MAX_CPUS}"
    using considered_simps(3)[of s cpu True now "[1..<MAX_CPUS]"] cpu by (auto simp: cands_def)
  hence p3': "picks s (?K {..<MAX_CPUS}) b3" using p3 by simp
  have r: "pick_budget cpu start incl now now_us s =
     (if start_cand s start incl cpu SC_RUN_BUDGET now_us \<noteq> {} \<and> prio_better s start b3 then start else b3)"
    unfolding pick_budget_def Let_def b1_def[symmetric] b2_def[unfolded Let_def, symmetric]
      b3_def[unfolded Let_def, symmetric]
    by (auto simp: start_cand_def Let_def)
  show ?thesis
  proof (cases "start_cand s start incl cpu SC_RUN_BUDGET now_us = {}")
    case True thus ?thesis using p3' r by simp
  next
    case False
    hence sc: "start_cand s start incl cpu SC_RUN_BUDGET now_us = {nat start}" "start > 0"
      by (auto simp: start_cand_def split: if_splits)
    have "picks s {nat start} start" using picks_single[of s "nat start"] sc(2) by simp
    hence "picks s (?K {..<MAX_CPUS} \<union> {nat start}) (if prio_better s start b3 then start else b3)"
      by (rule picks_join[OF p3']) (use pos[of "{..<MAX_CPUS}"] sc(2) in auto)
    thus ?thesis using r sc by simp
  qed
qed

lemma finds_sub: "finds A t \<Longrightarrow> 0 < t \<Longrightarrow> A \<subseteq> B \<Longrightarrow> finds B t"
  by (auto simp: finds_def split: if_splits)

lemma finds_none: "finds A t \<Longrightarrow> \<forall>u\<in>A. 0 < u \<Longrightarrow> t \<le> 0 \<Longrightarrow> A = {} \<and> t = -1"
  by (auto simp: finds_def split: if_splits)

lemma pick_slack_finds:
  assumes ok: "run_lists_ok s L" and cpu: "cpu < MAX_CPUS" and run: "pick_slack cpu start incl now now_us s = (t, s')"
  shows "finds (cands s L start cpu SC_RUN_SLACK now_us {..<MAX_CPUS}
                \<union> start_cand s start incl cpu SC_RUN_SLACK now_us) t
    \<and> (s' = s \<or> (t > 0 \<and> s' = rq_home_on t (int cpu) s))"
proof -
  let ?K = "\<lambda>C. cands s L start cpu SC_RUN_SLACK now_us C"
  let ?all = "?K {..<MAX_CPUS} \<union> start_cand s start incl cpu SC_RUN_SLACK now_us"
  let ?S = "considered s cpu True now [1..<MAX_CPUS]" and ?O = "{..<MAX_CPUS} - {cpu}"
  have st: "finds (?K (considered s cpu so now [1..<MAX_CPUS])) (rq_steal_find s cpu start so now SC_RUN_SLACK now_us)"
    for so using steal_walk_finds[OF ok] by (simp add: rq_steal_find_def)
  have pos: "\<And>C. C \<subseteq> {..<MAX_CPUS} \<Longrightarrow> \<forall>t\<in>?K C. 0 < t" using cands_pos[OF ok] by blast
  have mono: "C \<subseteq> {..<MAX_CPUS} \<Longrightarrow> ?K C \<subseteq> ?all" for C by (auto simp: cands_def)
  define t1 where "t1 = rq_steal_find s cpu start True now SC_RUN_SLACK now_us"
  define t2 where "t2 = rq_first_selectable s cpu start cpu SC_RUN_SLACK now_us"
  define t3 where "t3 = rq_steal_find s cpu start False now SC_RUN_SLACK now_us"
  have f1: "finds (?K ?S) t1" and f2: "finds (?K {cpu}) t2" and f3: "finds (?K ?O) t3"
    using st[of True] first_selectable_finds[OF ok cpu] st[of False] considered_others[OF cpu]
    by (simp_all add: t1_def t2_def t3_def)
  consider (a) "t1 > 0" | (b) "t1 \<le> 0" "t2 > 0" | (c) "t1 \<le> 0" "t2 \<le> 0" "t3 > 0"
    | (d) "t1 \<le> 0" "t2 \<le> 0" "t3 \<le> 0" by linarith
  thus ?thesis
  proof cases
    case a
    thus ?thesis using run finds_sub[OF f1 a mono[OF considered_simps(3)]]
      by (auto simp: pick_slack_def rq_steal_def t1_def[symmetric] Let_def)
  next
    case b
    have "t = t2" "s' = s" using run b
      by (auto simp: pick_slack_def rq_steal_def t1_def[symmetric] t2_def[symmetric] Let_def)
    thus ?thesis using finds_sub[OF f2 b(2) mono] cpu by simp
  next
    case c
    have "t = t3" "s' = rq_home_on t (int cpu) s" using run c
      by (auto simp: pick_slack_def rq_steal_def t1_def[symmetric] t2_def[symmetric] t3_def[symmetric] Let_def)
    thus ?thesis using finds_sub[OF f3 c(3) mono] c(3) by simp
  next
    case d
    have "?K {cpu} = {}" "?K ?O = {}" using finds_none[OF f2 pos] finds_none[OF f3 pos] d cpu by auto
    hence none: "?K {..<MAX_CPUS} = {}" by (auto simp: cands_def)
    have "s' = s" "t = (if start_cand s start incl cpu SC_RUN_SLACK now_us \<noteq> {} then start else -1)" using run d
      by (auto simp: pick_slack_def rq_steal_def t1_def[symmetric] t2_def[symmetric] t3_def[symmetric] Let_def
            start_cand_def split: if_splits)
    thus ?thesis by (auto simp: finds_def none start_cand_def)
  qed
qed

section \<open>Properties\<close>

lemma pick_tick_frame:
  "run_lists_ok (s\<lparr> k_pick_tick := f \<rparr>) L = run_lists_ok s L" "prios_ok (s\<lparr> k_pick_tick := f \<rparr>) = prios_ok s"
  "sc_eligible (s\<lparr> k_pick_tick := f \<rparr>) = sc_eligible s"
  "acceptable (s\<lparr> k_pick_tick := f \<rparr>) = acceptable s"
  "start_cand (s\<lparr> k_pick_tick := f \<rparr>) = start_cand s"
  "cands (s\<lparr> k_pick_tick := f \<rparr>) = cands s"
  "start_keeps_cpu (s\<lparr> k_pick_tick := f \<rparr>) = start_keeps_cpu s"
  "picks (s\<lparr> k_pick_tick := f \<rparr>) = picks s"
proof -
  show e: "sc_eligible (s\<lparr> k_pick_tick := f \<rparr>) = sc_eligible s"
    by (intro ext) (simp add: sc_eligible_def task_sc_def sc_by_index_def sc_dyn_by_index_def Let_def cong: if_cong option.case_cong)
  show a: "acceptable (s\<lparr> k_pick_tick := f \<rparr>) = acceptable s"
    by (intro ext) (simp add: acceptable_def e sched_selectable_def)
  show "start_cand (s\<lparr> k_pick_tick := f \<rparr>) = start_cand s"
    by (intro ext) (simp add: start_cand_def e sched_selectable_def)
  show "cands (s\<lparr> k_pick_tick := f \<rparr>) = cands s" by (intro ext) (simp add: cands_def a)
  show "start_keeps_cpu (s\<lparr> k_pick_tick := f \<rparr>) = start_keeps_cpu s"
    by (intro ext) (simp add: start_keeps_cpu_def e prio_better_def)
  show "picks (s\<lparr> k_pick_tick := f \<rparr>) = picks s" by (intro ext) (simp add: picks_def)
qed (simp_all add: run_lists_ok_def prios_ok_def)

text \<open>C22. A CPU runs its most urgent budgeted work and is never left idle while work
  waits.  With the run lists linked as the abstract lists \<open>L\<close> and every priority in
  range, the task the selection returns is runnable, unclaimed and eligible on the
  CPU; if any waiting task has budget there, the choice is one that none of them
  outranks, or the running task keeps the CPU because it outranks them all; slack
  is chosen only when none has; and nothing is chosen only when the running task
  keeps the CPU or no task on any list may run there.  The lists stay linked.\<close>

theorem pick_most_urgent:
  assumes ok: "run_lists_ok s L" and pr: "prios_ok s" and cpu: "0 \<le> k_this_cpu s" "k_this_cpu s < int MAX_CPUS"
    and run: "sched_pick_after_list start incl now s = (t, s')"
  defines "c \<equiv> nat (k_this_cpu s)"
  defines "B \<equiv> cands s L start c SC_RUN_BUDGET now {..<MAX_CPUS} \<union> start_cand s start incl c SC_RUN_BUDGET now"
    and "W \<equiv> cands s L start c SC_RUN_SLACK now {..<MAX_CPUS} \<union> start_cand s start incl c SC_RUN_SLACK now"
  shows "(t = -1 \<and> (W = {} \<or> (\<exists>best. start_keeps_cpu s start best c now \<and> picks s B best))
         \<or> t > 0 \<and> nat t \<in> W \<and> (B \<noteq> {} \<longrightarrow> picks s B t))
     \<and> (\<exists>L'. run_lists_ok s' L')"
proof -
  define s1 where "s1 = s\<lparr> k_pick_tick := (k_pick_tick s)(c := k_ticks s) \<rparr>"
  have c8: "c < MAX_CPUS" and tc: "this_cpu_or_0 s = c" using cpu by (auto simp: c_def this_cpu_or_0_def)
  note fr = pick_tick_frame[of "(k_pick_tick s)(c := k_ticks s)" s, folded s1_def]
  have ok1: "run_lists_ok s1 L" and pr1: "prios_ok s1" using ok pr fr by auto
  define best where "best = pick_budget c start incl (k_ticks s) now s1"
  have pb: "picks s B best"
    using pick_budget_picks[OF ok1 pr1 c8, of start now incl "k_ticks s"] unfolding best_def B_def fr .
  have BW: "B \<subseteq> W" by (auto simp: B_def W_def cands_def acceptable_def start_cand_def Let_def split: if_splits)
  have mx: "k_max_tasks s1 = k_max_tasks s" by (simp add: s1_def)
  have home: "run_lists_ok (rq_home_on u (int c) s1) (rl_home_on (nat u) c L)"
    if "0 < u" "u < int (k_max_tasks s)" for u
    using rq_home_on_refines[OF ok1 _ _ c8, of "nat u"] that mx by auto
  have Wrange: "int u < int (k_max_tasks s)" if "u \<in> W" for u
    using that run_lists_okD(4)[OF ok] by (auto simp: W_def cands_def start_cand_def split: if_splits)
  have Wpos: "0 < u" if "u \<in> W" for u
    using that cands_pos[OF ok order_refl] by (auto simp: W_def start_cand_def split: if_splits)
  note run' = run[unfolded sched_pick_after_list_def Let_def tc, folded s1_def, folded best_def]
  show ?thesis
  proof (cases "start_keeps_cpu s start best c now")
    case True
    hence "t = -1" "s' = s1" using run' by (simp_all add: fr)
    thus ?thesis using True pb ok1 by blast
  next
    case keep: False
    show ?thesis
    proof (cases "best > 0")
      case True
      have t: "t = best" and s': "s' = s1 \<or> s' = rq_home_on best (int c) s1"
        using run' keep True by (auto simp: fr split: if_splits)
      have inB: "nat best \<in> B" using pb True by (auto simp: picks_def split: if_splits)
      have "int (nat best) < int (k_max_tasks s)" using Wrange inB BW by blast
      hence "\<exists>L'. run_lists_ok s' L'" using s' ok1 home[OF True] True by auto
      thus ?thesis using t True inB BW pb by auto
    next
      case False
      hence B0: "B = {}" using pb Wpos BW by (auto simp: picks_def split: if_splits)
      have ps: "pick_slack c start incl (k_ticks s) now s1 = (t, s')" using run' keep False by (simp add: fr)
      note f = pick_slack_finds[OF ok1 c8 ps, unfolded fr, folded W_def]
      show ?thesis
      proof (cases "W = {}")
        case True
        thus ?thesis using f B0 ok1 by (auto simp: finds_def)
      next
        case W: False
        then obtain u where u: "u \<in> W" "t = int u" using f by (auto simp: finds_def)
        have "0 < t" "t < int (k_max_tasks s)" using Wpos[OF u(1)] Wrange[OF u(1)] u(2) by auto
        moreover have "\<exists>L'. run_lists_ok s' L'" using f ok1 home[OF calculation] by auto
        ultimately show ?thesis using B0 u by auto
      qed
    qed
  qed
qed

definition demo_tcb :: "nat \<Rightarrow> tcb" where
  "demo_tcb p = zero_tcb\<lparr> t_state := TASK_RUNNABLE, t_cr3 := 4096, t_runnable_ctx := True, t_saved_ksp := 8192,
     t_sc_index := 1, t_priority := p, t_max_priority := p \<rparr>"

definition demo_sched :: kstate where
  "demo_sched = sample_sched\<lparr> k_tasks := (\<lambda>_. zero_tcb)(1 := demo_tcb 9, 2 := demo_tcb 5) \<rparr>"

definition demo_lists :: run_lists where
  "demo_lists = rl_home_on 2 0 (rl_home_on 1 0 (\<lambda>_. []))"

definition demo_homed :: kstate where
  "demo_homed = rq_home_on 2 0 (rq_home_on 1 0 demo_sched)"

lemma demo_sched_sel:
  "k_max_tasks demo_sched = 64" "k_rq_head demo_sched = (\<lambda>_. -1)" "k_this_cpu demo_sched = 0"
  "k_scs demo_sched 1 = root_context 0 0" "k_tasks demo_sched = (\<lambda>_. zero_tcb)(1 := demo_tcb 9, 2 := demo_tcb 5)"
  "k_running_cpu demo_sched = (\<lambda>_. -1)"
  by (simp_all add: demo_sched_def sample_sched_def sched_contexts_init_def fold_init_root fold_init_root_frame
      Let_def sample_ks_def zero_kstate_def all_cpus_def init_root_def upd_sc_def upt_rec)

lemma demo_homed_lists: "run_lists_ok demo_homed demo_lists"
proof -
  have z: "run_lists_ok demo_sched (\<lambda>_. [])"
    by (rule run_lists_okI) (auto simp: demo_sched_sel ringed_def demo_tcb_def zero_tcb_def)
  have a: "run_lists_ok (rq_home_on (int 1) (int 0) demo_sched) (rl_home_on 1 0 (\<lambda>_. []))"
    by (rule rq_home_on_refines[OF z]) (simp_all add: demo_sched_sel)
  show ?thesis unfolding demo_homed_def demo_lists_def
    using rq_home_on_refines[OF a, of 2 0] by (simp add: rq_home_on_sched demo_sched_sel)
qed

definition choice_view :: "kstate \<Rightarrow> nat \<Rightarrow> bool \<times> nat \<times> int" where
  "choice_view s x = (sched_selectable s x, t_priority (k_tasks s x), k_this_cpu s)"

lemma choice_view_upd:
  assumes "\<And>x. t_state (f x) = t_state x \<and> t_cr3 (f x) = t_cr3 x \<and> t_runnable_ctx (f x) = t_runnable_ctx x
      \<and> t_saved_ksp (f x) = t_saved_ksp x \<and> t_pager_hold (f x) = t_pager_hold x \<and> t_priority (f x) = t_priority x"
  shows "choice_view (upd_task u f s) x = choice_view s x"
  using assms by (simp add: choice_view_def sched_selectable_def upd_task_def)

lemma choice_view_head: "choice_view (s\<lparr> k_rq_head := h \<rparr>) x = choice_view s x"
  by (simp add: choice_view_def sched_selectable_def)

lemma rq_home_on_keeps: "choice_view (rq_home_on t c s) x = choice_view s x"
proof -
  have "choice_view (rq_unlink u s) x = choice_view s x" for u s
    by (simp add: rq_unlink_def Let_def choice_view_upd choice_view_head)
  thus ?thesis by (simp add: rq_home_on_def Let_def choice_view_upd choice_view_head)
qed

lemma demo_view: "choice_view demo_homed x = choice_view demo_sched x"
  by (simp add: demo_homed_def rq_home_on_keeps)

theorem pick_most_urgent_witness:
  "\<exists>t s'. sched_pick_after_list 0 False 0 demo_homed = (t, s') \<and> t > 0"
proof -
  obtain t s' where run: "sched_pick_after_list 0 False 0 demo_homed = (t, s')" by (metis prod.exhaust)
  note v = demo_view[unfolded choice_view_def prod.inject]
  have cpu: "k_this_cpu demo_homed = 0" using v by (simp add: demo_sched_sel)
  have pr: "prios_ok demo_homed"
    using v by (simp add: prios_ok_def demo_sched_sel demo_tcb_def zero_tcb_def)
  have el: "sc_eligible demo_homed 1 0 0 = SC_RUN_BUDGET"
    by (simp add: sc_eligible_def task_sc_def demo_homed_def rq_home_on_sched demo_sched_sel demo_sched_sel(4)[simplified]
        demo_tcb_def sc_by_index_def root_context_def sc_has_budget_def sc_projected_def Let_def)
  have sel: "sched_selectable demo_homed 1"
    using v[of 1] by (simp add: sched_selectable_def[of demo_sched] demo_sched_sel demo_tcb_def zero_tcb_def)
  have "1 \<in> cands demo_homed demo_lists 0 0 SC_RUN_SLACK 0 {..<MAX_CPUS}"
    using el sel by (auto simp: cands_def acceptable_def demo_lists_def rl_home_on_def rl_unlink_def Let_def
        intro!: bexI[of _ 0])
  moreover have "\<not> start_keeps_cpu demo_homed 0 best 0 0" for best by (simp add: start_keeps_cpu_def)
  ultimately show ?thesis using pick_most_urgent[OF demo_homed_lists pr _ _ run] cpu run by auto
qed

end
