(* ===== verification/Kobj.thy ===== *)
theory Kobj
  imports Sched_Ctx
begin

text \<open>
  Kernel objects carved from untyped memory (\<^verbatim>\<open>src/kernel/untyped.c\<close>): the bump
  allocator of a region, the descriptor tables of retyped endpoints,
  notifications, frames and scheduling contexts, their allocation and
  destruction, and the collector that destroys what no capability names.  An
  object's contents live in the table of its kind, at its index; the arena
  itself is addresses only, so zeroing a range is the reset of the object that
  lies there.  The pages pinned for the shared library are the list \<open>k_shlib\<close>.
  Lifting the device mappings of a destroyed frame (\<open>iommu_unmap_all\<close>) touches
  no state modelled here.
\<close>

section \<open>Sizes\<close>

abbreviation (input) KOBJ_CNODE :: nat where "KOBJ_CNODE \<equiv> 1"
abbreviation (input) KOBJ_ENDPOINT :: nat where "KOBJ_ENDPOINT \<equiv> 2"
abbreviation (input) KOBJ_NOTIFICATION :: nat where "KOBJ_NOTIFICATION \<equiv> 3"
abbreviation (input) KOBJ_FRAME :: nat where "KOBJ_FRAME \<equiv> 4"
abbreviation (input) KOBJ_TASKTABLE :: nat where "KOBJ_TASKTABLE \<equiv> 5"
abbreviation (input) KOBJ_REVOKE_SPACES :: nat where "KOBJ_REVOKE_SPACES \<equiv> 6"
abbreviation (input) KOBJ_TASK_RUNNING_CPU :: nat where "KOBJ_TASK_RUNNING_CPU \<equiv> 7"
abbreviation (input) KOBJ_KSTACK_INFLIGHT :: nat where "KOBJ_KSTACK_INFLIGHT \<equiv> 8"
abbreviation (input) KOBJ_SCHED_CONTEXT :: nat where "KOBJ_SCHED_CONTEXT \<equiv> 9"

abbreviation (input) MAX_TASKS :: nat where "MAX_TASKS \<equiv> 256"
abbreviation (input) PHYS_KVA_BASE :: u64 where "PHYS_KVA_BASE \<equiv> 0xFFFFFF8080000000"

text \<open>The sizes of the C structures on x86-64: a capability 40 bytes, an endpoint 1280,
  a notification 8, a scheduling context 56, a task control block 1184 and a
  cspace descriptor 24.\<close>

definition kobj_size :: "nat \<Rightarrow> nat \<Rightarrow> u64" where
  "kobj_size kobj_type pages =
    (if kobj_type = KOBJ_CNODE then of_nat (CNODE_SIZE * 40)
     else if kobj_type = KOBJ_ENDPOINT then 1280
     else if kobj_type = KOBJ_NOTIFICATION then 8
     else if kobj_type = KOBJ_SCHED_CONTEXT then 56
     else if kobj_type = KOBJ_FRAME
       then (if pages = 0 \<or> pages > MAX_FRAME_PAGES then 0 else of_nat (pages * PAGE_SIZE))
     else if kobj_type = KOBJ_TASKTABLE then of_nat (MAX_TASKS * 1184)
     else if kobj_type = KOBJ_REVOKE_SPACES then of_nat ((MAX_TASKS + 1) * 24)
     else if kobj_type = KOBJ_TASK_RUNNING_CPU then of_nat (MAX_TASKS * 4)
     else if kobj_type = KOBJ_KSTACK_INFLIGHT then of_nat ((MAX_TASKS + 63) div 64 * 8)
     else 0)"

definition kobj_align :: "nat \<Rightarrow> u64" where
  "kobj_align kobj_type = (if kobj_type = KOBJ_FRAME then of_nat PAGE_SIZE else 64)"

definition align_up :: "u64 \<Rightarrow> u64 \<Rightarrow> u64" where
  "align_up v a = (v + a - 1) AND NOT (a - 1)"

section \<open>The bump allocator\<close>

text \<open>The address carved from region \<open>ui\<close>, 0 when it cannot be.\<close>

definition untyped_bump :: "nat \<Rightarrow> u64 \<Rightarrow> u64 \<Rightarrow> kstate \<Rightarrow> u64 \<times> kstate" where
  "untyped_bump ui bytes align s =
    (let u = k_untypeds s ! ui in
     if \<not> ut_in_use u \<or> k_arena s = 0 then (0, s)
     else if align = 0 \<or> align AND (align - 1) \<noteq> 0 then (0, s)
     else let abs_base = k_arena s + ut_base u; start = ut_watermark u in
       if start \<ge> ut_size u then (0, s)
       else let room = ut_size u - start;
                pad = (align - ((abs_base + start) AND (align - 1))) AND (align - 1)
            in if pad > room then (0, s)
               else let start = start + pad; room = room - pad in
                 if bytes > room then (0, s)
                 else (k_arena s + ut_base u + start,
                       s\<lparr> k_untypeds := (k_untypeds s)[ui := u\<lparr> ut_watermark := start + bytes \<rparr>] \<rparr>))"

section \<open>Descriptor tables\<close>

definition dyn_ep_alloc_index :: "kstate \<Rightarrow> nat option" where
  "dyn_ep_alloc_index s = find_idx (\<lambda>k. ks_mem k = 0) (k_dyn_eps s)"

definition dyn_notif_alloc_index :: "kstate \<Rightarrow> nat option" where
  "dyn_notif_alloc_index s = find_idx (\<lambda>k. ks_mem k = 0) (k_dyn_notifs s)"

definition dyn_frame_alloc_index :: "kstate \<Rightarrow> nat option" where
  "dyn_frame_alloc_index s = find_idx (\<lambda>k. ks_mem k = 0) (k_dyn_frames s)"

definition dyn_sc_alloc_index :: "kstate \<Rightarrow> nat option" where
  "dyn_sc_alloc_index s = find_idx (\<lambda>k. ks_mem k = 0) (k_dyn_scs s)"

text \<open>The index of an object that exists.  A static endpoint or notification always
  does.\<close>

definition endpoint_by_index :: "kstate \<Rightarrow> nat \<Rightarrow> nat option" where
  "endpoint_by_index s idx =
    (if idx < MAX_ENDPOINTS then Some idx
     else if idx \<ge> EP_INDEX_MAX then None
     else if ks_mem (k_dyn_eps s ! (idx - DYN_EP_BASE)) = 0 then None else Some idx)"

definition notification_by_index :: "kstate \<Rightarrow> nat \<Rightarrow> nat option" where
  "notification_by_index s idx =
    (if idx < MAX_NOTIFICATIONS then Some idx
     else if idx \<ge> NOTIF_INDEX_MAX then None
     else if ks_mem (k_dyn_notifs s ! (idx - DYN_NOTIF_BASE)) = 0 then None else Some idx)"

definition frame_by_index :: "kstate \<Rightarrow> nat \<Rightarrow> u64" where
  "frame_by_index s idx =
    (if idx < DYN_FRAME_BASE \<or> idx \<ge> FRAME_INDEX_MAX then 0
     else ks_mem (k_dyn_frames s ! (idx - DYN_FRAME_BASE)))"

definition phys_in_untyped_arena :: "kstate \<Rightarrow> u64 \<Rightarrow> bool" where
  "phys_in_untyped_arena s phys \<longleftrightarrow>
    k_arena s \<noteq> 0 \<and> (let base = k_arena s - PHYS_KVA_BASE
                      in phys \<ge> base \<and> phys < base + of_nat UNTYPED_ARENA_BYTES)"

definition frame_pages_by_index :: "kstate \<Rightarrow> nat \<Rightarrow> nat" where
  "frame_pages_by_index s idx =
    (if idx < DYN_FRAME_BASE \<or> idx \<ge> FRAME_INDEX_MAX then 0
     else let k = k_dyn_frames s ! (idx - DYN_FRAME_BASE) in
          if ks_mem k = 0 then 0 else if ks_pages k = 0 then 1 else ks_pages k)"

definition frame_phys_by_index :: "kstate \<Rightarrow> nat \<Rightarrow> u64" where
  "frame_phys_by_index s idx =
    (let mem = frame_by_index s idx in if mem = 0 then 0 else mem - PHYS_KVA_BASE)"

definition kobj_live_count :: "nat \<Rightarrow> kstate \<Rightarrow> nat" where
  "kobj_live_count kobj_type s =
    (let live = (\<lambda>tbl. length (filter (\<lambda>k. ks_mem k \<noteq> 0) tbl)) in
     if kobj_type = KOBJ_ENDPOINT then live (k_dyn_eps s)
     else if kobj_type = KOBJ_NOTIFICATION then live (k_dyn_notifs s)
     else if kobj_type = KOBJ_FRAME then live (k_dyn_frames s)
     else if kobj_type = KOBJ_SCHED_CONTEXT then live (k_dyn_scs s)
     else 0)"

section \<open>Allocation\<close>

definition fresh_endpoint :: endpoint where
  "fresh_endpoint = zero_endpoint\<lparr> ep_last_sender := -1, ep_blocked_waiter := -1,
     ep_q := map (\<lambda>m. m\<lparr> em_len := 0, em_sender := -1 \<rparr>) (ep_q zero_endpoint) \<rparr>"

definition fresh_notification :: notification where
  "fresh_notification = zero_notification\<lparr> nt_blocked_waiter := -1 \<rparr>"

text \<open>Whether the kind has a descriptor to spare; the kinds without a table need none.\<close>

definition kobj_index :: "nat \<Rightarrow> kstate \<Rightarrow> nat option" where
  "kobj_index kobj_type s =
    (if kobj_type = KOBJ_ENDPOINT then dyn_ep_alloc_index s
     else if kobj_type = KOBJ_NOTIFICATION then dyn_notif_alloc_index s
     else if kobj_type = KOBJ_FRAME then dyn_frame_alloc_index s
     else if kobj_type = KOBJ_SCHED_CONTEXT then dyn_sc_alloc_index s
     else Some 0)"

text \<open>The part of \<open>kobj_alloc\<close> after the memory is carved: the object and its
  descriptor, pinned, and the index the caller receives.\<close>

definition kobj_place :: "nat \<Rightarrow> nat \<Rightarrow> nat \<Rightarrow> nat \<Rightarrow> u64 \<Rightarrow> kstate \<Rightarrow> nat \<times> kstate" where
  "kobj_place kobj_type untyped_index pages idx mem s =
    (let slot = (\<lambda>k. k\<lparr> ks_mem := mem, ks_untyped := untyped_index mod 2 ^ 16, ks_pinned := True \<rparr>) in
     if kobj_type = KOBJ_ENDPOINT then
       (DYN_EP_BASE + idx,
        s\<lparr> k_eps := (k_eps s)(DYN_EP_BASE + idx := fresh_endpoint),
           k_dyn_eps := (k_dyn_eps s)[idx := slot (k_dyn_eps s ! idx)] \<rparr>)
     else if kobj_type = KOBJ_NOTIFICATION then
       (DYN_NOTIF_BASE + idx,
        s\<lparr> k_notifs := (k_notifs s)(DYN_NOTIF_BASE + idx := fresh_notification),
           k_dyn_notifs := (k_dyn_notifs s)[idx := slot (k_dyn_notifs s ! idx)] \<rparr>)
     else if kobj_type = KOBJ_FRAME then
       (DYN_FRAME_BASE + idx,
        s\<lparr> k_pool := fold (\<lambda>pg. frame_pin_refcount (unat (mem - PHYS_KVA_BASE + of_nat (pg * PAGE_SIZE))))
                         [0..<pages] (k_pool s),
           k_dyn_frames := (k_dyn_frames s)[idx := (slot (k_dyn_frames s ! idx))\<lparr> ks_pages := pages \<rparr>] \<rparr>)
     else if kobj_type = KOBJ_SCHED_CONTEXT then
       (DYN_SC_BASE + idx,
        s\<lparr> k_scs := (k_scs s)(DYN_SC_BASE + idx := zero_sc),
           k_dyn_scs := (k_dyn_scs s)[idx := slot (k_dyn_scs s ! idx)] \<rparr>)
     else (0, s))"

definition upd_untyped :: "nat \<Rightarrow> (untyped \<Rightarrow> untyped) \<Rightarrow> kstate \<Rightarrow> kstate" where
  "upd_untyped ui f s = s\<lparr> k_untypeds := (k_untypeds s)[ui := f (k_untypeds s ! ui)] \<rparr>"

definition kobj_alloc :: "nat \<Rightarrow> nat \<Rightarrow> nat \<Rightarrow> kstate \<Rightarrow> (u64 \<times> nat) option \<times> kstate" where
  "kobj_alloc untyped_index kobj_type pages s =
    (if untyped_index \<ge> MAX_UNTYPED then (None, s)
     else let pages = (if kobj_type \<noteq> KOBJ_FRAME then 1 else if pages = 0 then 1 else pages);
              need = kobj_size kobj_type pages in
       if need = 0 then (None, s)
       else case kobj_index kobj_type s of
         None \<Rightarrow> (None, s)
       | Some idx \<Rightarrow>
           let (mem, s1) = untyped_bump untyped_index need (kobj_align kobj_type) s in
           if mem = 0 then (None, s1)
           else let (out, s2) = kobj_place kobj_type untyped_index pages idx mem s1
                in (Some (mem, out), upd_untyped untyped_index (\<lambda>u. u\<lparr> ut_objects := ut_objects u + 1 \<rparr>) s2))"

section \<open>Marking\<close>

record gc_marks =
  gm_eps :: "bool list"
  gm_notifs :: "bool list"
  gm_frames :: "bool list"
  gm_scs :: "bool list"

definition mark_cap :: "capability \<Rightarrow> gc_marks \<Rightarrow> gc_marks" where
  "mark_cap c m =
    (let obj = unat (c_object c) in
     if c_serial c = 0 then m
     else if c_typ c = CAP_ENDPOINT then
       (if obj \<ge> DYN_EP_BASE \<and> obj < EP_INDEX_MAX then m\<lparr> gm_eps := (gm_eps m)[obj - DYN_EP_BASE := True] \<rparr> else m)
     else if c_typ c = CAP_NOTIFICATION then
       (if obj \<ge> DYN_NOTIF_BASE \<and> obj < NOTIF_INDEX_MAX
        then m\<lparr> gm_notifs := (gm_notifs m)[obj - DYN_NOTIF_BASE := True] \<rparr> else m)
     else if c_typ c = CAP_FRAME then
       (if obj \<ge> DYN_FRAME_BASE \<and> obj < FRAME_INDEX_MAX
        then m\<lparr> gm_frames := (gm_frames m)[obj - DYN_FRAME_BASE := True] \<rparr> else m)
     else if c_typ c = CAP_SCHED_CONTEXT then
       (if obj \<ge> DYN_SC_BASE \<and> obj < SC_INDEX_MAX then m\<lparr> gm_scs := (gm_scs m)[obj - DYN_SC_BASE := True] \<rparr> else m)
     else m)"

definition mark_shlib :: "nat \<Rightarrow> gc_marks \<Rightarrow> gc_marks" where
  "mark_shlib idx m =
    (if idx \<ge> DYN_FRAME_BASE \<and> idx < FRAME_INDEX_MAX
     then m\<lparr> gm_frames := (gm_frames m)[idx - DYN_FRAME_BASE := True] \<rparr> else m)"

text \<open>The slots the marking visits: those of every living task with a cspace, in the
  order of the tasks, then the root cnode.\<close>

definition task_gc_slots :: "kstate \<Rightarrow> nat \<Rightarrow> caddr list" where
  "task_gc_slots s t =
    (if t_state (k_tasks s t) = 0 then []
     else case t_cspace (k_tasks s t) of
       None \<Rightarrow> []
     | Some cs \<Rightarrow> map (Slot cs) [0..<(if get_sz s t > CNODE_SIZE then CNODE_SIZE else get_sz s t)])"

definition gc_slots :: "kstate \<Rightarrow> caddr list" where
  "gc_slots s = concat (map (task_gc_slots s) [0..<k_max_tasks s]) @ map (Slot RootC) [0..<CNODE_SIZE]"

definition no_gc_marks :: gc_marks where
  "no_gc_marks = \<lparr> gm_eps = replicate MAX_DYN_ENDPOINTS False, gm_notifs = replicate MAX_DYN_NOTIFICATIONS False,
     gm_frames = replicate MAX_DYN_FRAMES False, gm_scs = replicate MAX_DYN_SCHED_CONTEXTS False \<rparr>"

definition mark_reachable :: "kstate \<Rightarrow> gc_marks" where
  "mark_reachable s = fold mark_shlib (k_shlib s) (fold (\<lambda>a. mark_cap (k_mem s a)) (gc_slots s) no_gc_marks)"

section \<open>Destruction\<close>

text \<open>One object less in the region the descriptor names.\<close>

definition uncount_object :: "nat \<Rightarrow> kstate \<Rightarrow> kstate" where
  "uncount_object ui s =
    (if ui < MAX_UNTYPED \<and> ut_objects (k_untypeds s ! ui) > 0
     then upd_untyped ui (\<lambda>u. u\<lparr> ut_objects := ut_objects u - 1 \<rparr>) s else s)"

definition destroy_dyn_endpoint :: "nat \<Rightarrow> kstate \<Rightarrow> kstate" where
  "destroy_dyn_endpoint i s =
    (let k = k_dyn_eps s ! i in
     if ks_mem k = 0 then s
     else let e = k_eps s (DYN_EP_BASE + i);
              w = ep_blocked_waiter e;
              s1 = (if w > 0 \<and> w < int (k_max_tasks s) \<and> t_state (k_tasks s (nat w)) \<noteq> 0
                    then upd_task (nat w) (\<lambda>t. t\<lparr> t_state := TASK_RUNNABLE, t_runnable_ctx := True,
                                                 t_blocked_on := -1 \<rparr>) s else s);
              s2 = uncount_object (ks_untyped k) (s1\<lparr> k_eps := (k_eps s1)(DYN_EP_BASE + i := zero_endpoint) \<rparr>)
          in s2\<lparr> k_dyn_eps := (k_dyn_eps s2)[i := k\<lparr> ks_mem := 0, ks_pinned := False \<rparr>] \<rparr>)"

definition destroy_dyn_notification :: "nat \<Rightarrow> kstate \<Rightarrow> kstate" where
  "destroy_dyn_notification i s =
    (let k = k_dyn_notifs s ! i in
     if ks_mem k = 0 then s
     else let n = k_notifs s (DYN_NOTIF_BASE + i);
              w = nt_blocked_waiter n;
              s1 = (if w > 0 \<and> w < int (k_max_tasks s) \<and> t_state (k_tasks s (nat w)) \<noteq> 0
                    then upd_task (nat w) (\<lambda>t. t\<lparr> t_state := TASK_RUNNABLE, t_runnable_ctx := True,
                                                 t_blocked_on_notif := -1 \<rparr>) s else s);
              s2 = uncount_object (ks_untyped k)
                     (s1\<lparr> k_notifs := (k_notifs s1)(DYN_NOTIF_BASE + i := zero_notification) \<rparr>)
          in s2\<lparr> k_dyn_notifs := (k_dyn_notifs s2)[i := k\<lparr> ks_mem := 0, ks_pinned := False \<rparr>] \<rparr>)"

definition frame_page_phys :: "kobj_slot \<Rightarrow> nat \<Rightarrow> nat" where
  "frame_page_phys k pg = unat (ks_mem k - PHYS_KVA_BASE + of_nat (pg * PAGE_SIZE))"

definition destroy_dyn_frame :: "nat \<Rightarrow> kstate \<Rightarrow> kstate" where
  "destroy_dyn_frame i s =
    (let k = k_dyn_frames s ! i in
     if ks_mem k = 0 then s
     else let pages = (if ks_pages k = 0 then 1 else ks_pages k) in
       if \<exists>pg\<in>set [0..<pages]. frame_map_refcount (frame_page_phys k pg) (k_pool s) > 1 then s
       else let s1 = s\<lparr> k_pool := fold (\<lambda>pg. frame_unpin_refcount (frame_page_phys k pg)) [0..<pages] (k_pool s) \<rparr>;
                s2 = uncount_object (ks_untyped k) s1
            in s2\<lparr> k_dyn_frames := (k_dyn_frames s2)[i := k\<lparr> ks_mem := 0, ks_pages := 0, ks_pinned := False \<rparr>] \<rparr>)"

definition destroy_dyn_sc :: "nat \<Rightarrow> kstate \<Rightarrow> kstate" where
  "destroy_dyn_sc i s =
    (let k = k_dyn_scs s ! i in
     if ks_mem k = 0 then s
     else let s1 = sched_context_destroyed (DYN_SC_BASE + i) s;
              s2 = uncount_object (ks_untyped k) (s1\<lparr> k_scs := (k_scs s1)(DYN_SC_BASE + i := zero_sc) \<rparr>)
          in s2\<lparr> k_dyn_scs := (k_dyn_scs s2)[i := (k_dyn_scs s2 ! i)\<lparr> ks_mem := 0, ks_pinned := False \<rparr>] \<rparr>)"

section \<open>Pins\<close>

definition unpin_slot :: "nat \<Rightarrow> nat \<Rightarrow> nat \<Rightarrow> kobj_slot list \<Rightarrow> kobj_slot list" where
  "unpin_slot n base idx tbl =
    (if idx \<ge> base \<and> idx < base + n
     then tbl[idx - base := (tbl ! (idx - base))\<lparr> ks_pinned := False \<rparr>] else tbl)"

definition kobj_unpin :: "nat \<Rightarrow> nat \<Rightarrow> kstate \<Rightarrow> kstate" where
  "kobj_unpin kobj_type idx s =
    (if kobj_type = KOBJ_ENDPOINT then
       s\<lparr> k_dyn_eps := unpin_slot MAX_DYN_ENDPOINTS DYN_EP_BASE idx (k_dyn_eps s) \<rparr>
     else if kobj_type = KOBJ_NOTIFICATION then
       s\<lparr> k_dyn_notifs := unpin_slot MAX_DYN_NOTIFICATIONS DYN_NOTIF_BASE idx (k_dyn_notifs s) \<rparr>
     else if kobj_type = KOBJ_FRAME then
       s\<lparr> k_dyn_frames := unpin_slot MAX_DYN_FRAMES DYN_FRAME_BASE idx (k_dyn_frames s) \<rparr>
     else if kobj_type = KOBJ_SCHED_CONTEXT then
       s\<lparr> k_dyn_scs := unpin_slot MAX_DYN_SCHED_CONTEXTS DYN_SC_BASE idx (k_dyn_scs s) \<rparr>
     else s)"

definition kobj_note_named :: "u32 \<Rightarrow> u64 \<Rightarrow> kstate \<Rightarrow> kstate" where
  "kobj_note_named cap_type object s =
    (if object > 0xFFFFFFFF then s
     else let kt = (if cap_type = CAP_ENDPOINT then KOBJ_ENDPOINT
                    else if cap_type = CAP_NOTIFICATION then KOBJ_NOTIFICATION
                    else if cap_type = CAP_FRAME then KOBJ_FRAME
                    else if cap_type = CAP_SCHED_CONTEXT then KOBJ_SCHED_CONTEXT else 0)
          in if kt \<noteq> 0 then kobj_unpin kt (unat object) s else s)"

section \<open>The collector\<close>

text \<open>One table: every live descriptor that is neither pinned nor marked is destroyed.\<close>

definition sweep_step :: "(kstate \<Rightarrow> kobj_slot list) \<Rightarrow> bool list \<Rightarrow> (nat \<Rightarrow> kstate \<Rightarrow> kstate) \<Rightarrow> nat \<Rightarrow> kstate \<Rightarrow> kstate" where
  "sweep_step tbl marks destroy i s =
    (if ks_mem (tbl s ! i) \<noteq> 0 \<and> \<not> ks_pinned (tbl s ! i) \<and> \<not> marks ! i then destroy i s else s)"

definition gc_sweep :: "(kstate \<Rightarrow> kobj_slot list) \<Rightarrow> bool list \<Rightarrow> (nat \<Rightarrow> kstate \<Rightarrow> kstate) \<Rightarrow> nat \<Rightarrow> kstate \<Rightarrow> kstate" where
  "gc_sweep tbl marks destroy n s = fold (sweep_step tbl marks destroy) [0..<n] s"

definition kobj_gc_locked :: "kstate \<Rightarrow> kstate" where
  "kobj_gc_locked s =
    (let m = mark_reachable s;
         s1 = gc_sweep k_dyn_eps (gm_eps m) destroy_dyn_endpoint MAX_DYN_ENDPOINTS s;
         s2 = gc_sweep k_dyn_notifs (gm_notifs m) destroy_dyn_notification MAX_DYN_NOTIFICATIONS s1;
         s3 = gc_sweep k_dyn_frames (gm_frames m) destroy_dyn_frame MAX_DYN_FRAMES s2
     in gc_sweep k_dyn_scs (gm_scs m) destroy_dyn_sc MAX_DYN_SCHED_CONTEXTS s3)"

section \<open>Boot\<close>

definition untyped_init :: "kstate \<Rightarrow> kstate" where
  "untyped_init s =
    (let clear = map (\<lambda>k. k\<lparr> ks_mem := 0, ks_untyped := 0 \<rparr>);
         kernel_half = align_up (of_nat UNTYPED_KERNEL_BYTES) (of_nat PAGE_SIZE);
         us = (replicate MAX_UNTYPED zero_untyped)
                [UNTYPED_KERNEL := \<lparr> ut_base = 0, ut_size = kernel_half, ut_watermark = 0, ut_objects = 0, ut_in_use = True \<rparr>,
                 UNTYPED_ROOT := \<lparr> ut_base = kernel_half, ut_size = of_nat UNTYPED_ARENA_BYTES - kernel_half,
                                   ut_watermark = 0, ut_objects = 0, ut_in_use = True \<rparr>]
     in s\<lparr> k_untypeds := us, k_dyn_eps := clear (k_dyn_eps s), k_dyn_notifs := clear (k_dyn_notifs s) \<rparr>)"

definition untyped_reserve_task_capacity :: "kstate \<Rightarrow> nat" where
  "untyped_reserve_task_capacity s =
    (let u = k_untypeds s ! UNTYPED_KERNEL in
     if \<not> ut_in_use u \<or> ut_size u \<le> ut_watermark u then 0
     else let per_task = align_up (kobj_size KOBJ_CNODE 1) 64 in
          if per_task = 0 then 0
          else let n = unat ((ut_size u - ut_watermark u) div per_task) in
               if n > MAX_TASKS then MAX_TASKS else n)"

section \<open>Lemmas on the bump allocator\<close>

lemma unat_and_mask: "unat (x AND (2 ^ n - 1) :: u64) = unat x mod 2 ^ n" if "n < 64"
proof -
  have "(2 ^ n - 1 :: u64) = mask n" by (simp add: mask_eq_exp_minus_1)
  hence "unat (x AND (2 ^ n - 1)) = unat (take_bit n x)" by (simp only: take_bit_eq_mask)
  also have "\<dots> = take_bit n (unat x)" by (rule unsigned_take_bit_eq)
  finally show ?thesis by (simp only: take_bit_eq_mod)
qed

lemma kobj_align_cases: "\<exists>n. kobj_align ty = 2 ^ n \<and> n < 64 \<and> 6 \<le> n"
  unfolding kobj_align_def by (cases "ty = KOBJ_FRAME") (auto intro: exI[of _ 12] exI[of _ 6])

lemma unat_of_nat64: "k < 2 ^ 64 \<Longrightarrow> unat (of_nat k :: u64) = k"
  by (simp only: unat_of_nat) simp

lemma unat_pow2_word: "n < 64 \<Longrightarrow> unat (2 ^ n :: u64) = 2 ^ n"
proof -
  assume "n < 64"
  hence "(2::nat) ^ n < 2 ^ 64" by (intro power_strict_increasing) auto
  hence "unat (of_nat (2 ^ n) :: u64) = 2 ^ n" by (simp only: unat_of_nat) simp
  thus ?thesis by simp
qed

text \<open>The padding brings an address to the next multiple of the alignment.\<close>

lemma pad_align:
  fixes x :: u64
  assumes n: "n < 64"
  defines "pad \<equiv> (2 ^ n - (x AND (2 ^ n - 1))) AND (2 ^ n - 1)"
  shows "unat pad < 2 ^ n" "(unat x + unat pad) mod 2 ^ n = 0"
proof -
  have r: "unat (x AND (2 ^ n - 1)) = unat x mod 2 ^ n" using n by (rule unat_and_mask)
  have le: "x AND (2 ^ n - 1) \<le> 2 ^ n"
    using r unat_pow2_word[OF n] by (simp add: word_le_nat_alt less_imp_le)
  have "unat (2 ^ n - (x AND (2 ^ n - 1))) = 2 ^ n - unat x mod 2 ^ n"
    using unat_sub[OF le] r unat_pow2_word[OF n] by simp
  hence p: "unat pad = (2 ^ n - unat x mod 2 ^ n) mod 2 ^ n" using n by (simp add: pad_def unat_and_mask)
  show "unat pad < 2 ^ n" by (simp add: p)
  have "(unat x mod 2 ^ n + (2 ^ n - unat x mod 2 ^ n)) mod 2 ^ n = 0"
    by (simp add: less_imp_le)
  thus "(unat x + unat pad) mod 2 ^ n = 0" unfolding p by (metis mod_add_eq mod_mod_trivial)
qed

text \<open>A region is placed when it lies in the arena and its watermark in the region,
  so that none of the address arithmetic wraps.\<close>

definition region_ok :: "kstate \<Rightarrow> nat \<Rightarrow> bool" where
  "region_ok s ui \<longleftrightarrow>
    (let u = k_untypeds s ! ui in
     unat (ut_base u) + unat (ut_size u) \<le> UNTYPED_ARENA_BYTES \<and> ut_watermark u \<le> ut_size u)"

definition arena_placed :: "kstate \<Rightarrow> bool" where
  "arena_placed s \<longleftrightarrow> k_arena s \<noteq> 0 \<and> unat (k_arena s) + UNTYPED_ARENA_BYTES < 2 ^ 64 \<and> length (k_untypeds s) = MAX_UNTYPED"

lemma untyped_bump_cases:
  assumes ar: "arena_placed s" and ok: "ut_in_use (k_untypeds s ! ui) \<Longrightarrow> region_ok s ui" and n: "n < 64"
    and run: "untyped_bump ui bytes (2 ^ n) s = (p, s')"
  shows "p = 0 \<and> s' = s \<or>
    (\<exists>off. ut_in_use (k_untypeds s ! ui) \<and> p \<noteq> 0 \<and> unat p = unat (k_arena s) + unat (ut_base (k_untypeds s ! ui)) + off
       \<and> unat p mod 2 ^ n = 0 \<and> unat (ut_watermark (k_untypeds s ! ui)) \<le> off
       \<and> off + unat bytes \<le> unat (ut_size (k_untypeds s ! ui))
       \<and> s' = upd_untyped ui (\<lambda>u. u\<lparr> ut_watermark := of_nat (off + unat bytes) \<rparr>) s)"
proof (cases "p = 0 \<and> s' = s")
  case False
  define u where "u = k_untypeds s ! ui"
  define pad where "pad = (2 ^ n - ((k_arena s + ut_base u + ut_watermark u) AND (2 ^ n - 1))) AND (2 ^ n - 1)"
  have c: "ut_in_use u" "ut_watermark u < ut_size u" "pad \<le> ut_size u - ut_watermark u"
    "bytes \<le> ut_size u - ut_watermark u - pad"
    and p: "p = k_arena s + ut_base u + (ut_watermark u + pad)"
    and s': "s' = s\<lparr> k_untypeds := (k_untypeds s)[ui := u\<lparr> ut_watermark := ut_watermark u + pad + bytes \<rparr>] \<rparr>"
    using run False unfolding untyped_bump_def Let_def u_def[symmetric] pad_def[symmetric]
    by (auto split: if_splits)
  have ok': "unat (ut_base u) + unat (ut_size u) \<le> UNTYPED_ARENA_BYTES"
    using ok c(1) by (simp add: region_ok_def u_def Let_def)
  have w: "unat (ut_watermark u) < unat (ut_size u)" using c(2) by (simp add: word_less_nat_alt)
  have room: "unat (ut_size u - ut_watermark u) = unat (ut_size u) - unat (ut_watermark u)"
    using c(2) by (intro unat_sub) simp
  have pd: "unat pad \<le> unat (ut_size u) - unat (ut_watermark u)"
    using c(3) by (simp add: word_le_nat_alt room)
  have b: "unat bytes \<le> unat (ut_size u) - unat (ut_watermark u) - unat pad"
    using c(4) unat_sub[OF c(3)] by (simp add: word_le_nat_alt room)
  have small: "unat (k_arena s) + unat (ut_base u) + unat (ut_size u) < 2 ^ 64"
    using ar ok' by (simp add: arena_placed_def)
  define off where "off = unat (ut_watermark u) + unat pad"
  have o: "unat (ut_watermark u + pad) = off" "unat (ut_watermark u + pad + bytes) = off + unat bytes"
    using w pd b small by (auto simp: off_def unat_word_ariths)
  have ab: "unat (k_arena s + ut_base u) = unat (k_arena s) + unat (ut_base u)"
    "unat (k_arena s + ut_base u + ut_watermark u) = unat (k_arena s) + unat (ut_base u) + unat (ut_watermark u)"
    using small w by (auto simp: unat_word_ariths)
  have up: "unat p = unat (k_arena s) + unat (ut_base u) + off"
    unfolding p using small w pd b o(1) ab(1) by (subst unat_word_ariths(1)) (simp add: off_def)
  have "(unat (k_arena s + ut_base u + ut_watermark u) + unat pad) mod 2 ^ n = 0"
    using pad_align(2)[OF n] unfolding pad_def by blast
  hence "unat p mod 2 ^ n = 0" unfolding up ab off_def by (simp add: add.assoc)
  moreover have "p \<noteq> 0" using up ar by (auto simp: arena_placed_def unat_eq_0)
  moreover have "s' = upd_untyped ui (\<lambda>u. u\<lparr> ut_watermark := of_nat (off + unat bytes) \<rparr>) s"
    unfolding s' upd_untyped_def u_def[symmetric] o(2)[symmetric] by simp
  ultimately show ?thesis using c(1) up b pd w unfolding u_def[symmetric] off_def by auto
qed simp

section \<open>The arena is handed out once\<close>

text \<open>The bytes of the arena a region has not handed out, and those an object takes, as
  offsets; \<open>arena_ok\<close> says that the objects carved so far and the free parts of
  the regions never overlap.\<close>

definition free_bytes :: "kstate \<Rightarrow> nat \<Rightarrow> nat set" where
  "free_bytes s ui =
    (let u = k_untypeds s ! ui in
     if ut_in_use u then {unat (ut_base u) + unat (ut_watermark u) ..< unat (ut_base u) + unat (ut_size u)} else {})"

definition obj_bytes :: "nat \<times> nat \<Rightarrow> nat set" where
  "obj_bytes o' = {fst o' ..< fst o' + snd o'}"

definition arena_ok :: "kstate \<Rightarrow> (nat \<times> nat) list \<Rightarrow> bool" where
  "arena_ok s objs \<longleftrightarrow> arena_placed s
     \<and> (\<forall>ui<MAX_UNTYPED. ut_in_use (k_untypeds s ! ui) \<longrightarrow> region_ok s ui)
     \<and> (\<forall>ui<MAX_UNTYPED. \<forall>uj<MAX_UNTYPED. ui \<noteq> uj \<longrightarrow> free_bytes s ui \<inter> free_bytes s uj = {})
     \<and> (\<forall>ob\<in>set objs. fst ob + snd ob \<le> UNTYPED_ARENA_BYTES \<and> (\<forall>ui<MAX_UNTYPED. obj_bytes ob \<inter> free_bytes s ui = {}))
     \<and> sorted_wrt (\<lambda>x y. obj_bytes x \<inter> obj_bytes y = {}) objs"

lemma arena_okD:
  assumes "arena_ok s objs"
  shows "arena_placed s" "\<And>ui. ui < MAX_UNTYPED \<Longrightarrow> ut_in_use (k_untypeds s ! ui) \<Longrightarrow> region_ok s ui"
    "\<And>ui uj. ui < MAX_UNTYPED \<Longrightarrow> uj < MAX_UNTYPED \<Longrightarrow> ui \<noteq> uj \<Longrightarrow> free_bytes s ui \<inter> free_bytes s uj = {}"
    "\<And>ob ui. ob \<in> set objs \<Longrightarrow> ui < MAX_UNTYPED \<Longrightarrow> obj_bytes ob \<inter> free_bytes s ui = {}"
    "sorted_wrt (\<lambda>x y. obj_bytes x \<inter> obj_bytes y = {}) objs"
  using assms unfolding arena_ok_def by blast+

text \<open>What \<open>arena_ok\<close> reads of the state.\<close>

definition arena_view :: "kstate \<Rightarrow> u64 \<times> (u64 \<times> u64 \<times> u64 \<times> bool) list" where
  "arena_view s = (k_arena s, map (\<lambda>u. (ut_base u, ut_size u, ut_watermark u, ut_in_use u)) (k_untypeds s))"

lemma arena_view_nth:
  assumes "arena_view s' = arena_view s"
  shows "k_arena s' = k_arena s" "length (k_untypeds s') = length (k_untypeds s)"
    "ui < length (k_untypeds s) \<Longrightarrow> ut_base (k_untypeds s' ! ui) = ut_base (k_untypeds s ! ui)
       \<and> ut_size (k_untypeds s' ! ui) = ut_size (k_untypeds s ! ui)
       \<and> ut_watermark (k_untypeds s' ! ui) = ut_watermark (k_untypeds s ! ui)
       \<and> ut_in_use (k_untypeds s' ! ui) = ut_in_use (k_untypeds s ! ui)"
proof -
  have m: "map (\<lambda>u. (ut_base u, ut_size u, ut_watermark u, ut_in_use u)) (k_untypeds s')
     = map (\<lambda>u. (ut_base u, ut_size u, ut_watermark u, ut_in_use u)) (k_untypeds s)"
    and "k_arena s' = k_arena s" using assms by (simp_all add: arena_view_def)
  thus "k_arena s' = k_arena s" by simp
  show l: "length (k_untypeds s') = length (k_untypeds s)" using arg_cong[OF m, of length] by simp
  show "ut_base (k_untypeds s' ! ui) = ut_base (k_untypeds s ! ui)
       \<and> ut_size (k_untypeds s' ! ui) = ut_size (k_untypeds s ! ui)
       \<and> ut_watermark (k_untypeds s' ! ui) = ut_watermark (k_untypeds s ! ui)
       \<and> ut_in_use (k_untypeds s' ! ui) = ut_in_use (k_untypeds s ! ui)" if "ui < length (k_untypeds s)"
    using arg_cong[OF m, of "\<lambda>xs. xs ! ui"] that l by simp
qed

lemma arena_ok_view:
  assumes v: "arena_view s' = arena_view s" and ok: "arena_ok s objs"
  shows "arena_ok s' objs"
proof -
  note a = arena_view_nth[OF v]
  have l: "length (k_untypeds s) = MAX_UNTYPED" using arena_okD(1)[OF ok] by (simp add: arena_placed_def)
  have p: "arena_placed s'" using arena_okD(1)[OF ok] a(1,2) by (simp add: arena_placed_def)
  have f: "free_bytes s' ui = free_bytes s ui" "region_ok s' ui = region_ok s ui"
    "ut_in_use (k_untypeds s' ! ui) = ut_in_use (k_untypeds s ! ui)" if "ui < MAX_UNTYPED" for ui
    using a(3)[of ui] that l by (simp_all add: free_bytes_def region_ok_def Let_def)
  show ?thesis unfolding arena_ok_def
  proof (intro conjI p allI impI ballI)
    show "region_ok s' ui" if "ui < MAX_UNTYPED" "ut_in_use (k_untypeds s' ! ui)" for ui
      using arena_okD(2)[OF ok that(1)] f[OF that(1)] that(2) by simp
    show "free_bytes s' a \<inter> free_bytes s' b = {}" if "a < MAX_UNTYPED" "b < MAX_UNTYPED" "a \<noteq> b" for a b
      using arena_okD(3)[OF ok that] f(1) that by simp
    show "obj_bytes ob \<inter> free_bytes s' ui = {}" if "ob \<in> set objs" "ui < MAX_UNTYPED" for ob ui
      using arena_okD(4)[OF ok that] f(1) that by simp
    show "fst ob + snd ob \<le> UNTYPED_ARENA_BYTES" if "ob \<in> set objs" for ob
      using ok that by (simp add: arena_ok_def)
  qed (rule arena_okD(5)[OF ok])
qed

text \<open>Taking a prefix of the free part of one region.\<close>

lemma arena_ok_take:
  assumes ok: "arena_ok s objs" and ui: "ui < MAX_UNTYPED" "ut_in_use (k_untypeds s ! ui)"
    and off: "unat (ut_watermark (k_untypeds s ! ui)) \<le> off" "off + len \<le> unat (ut_size (k_untypeds s ! ui))"
    and s': "s' = upd_untyped ui (\<lambda>u. u\<lparr> ut_watermark := of_nat (off + len) \<rparr>) s"
  shows "arena_ok s' ((unat (ut_base (k_untypeds s ! ui)) + off, len) # objs)"
proof -
  define u where "u = k_untypeds s ! ui"
  have l: "length (k_untypeds s) = MAX_UNTYPED" using arena_okD(1)[OF ok] by (simp add: arena_placed_def)
  have r: "unat (ut_base u) + unat (ut_size u) \<le> UNTYPED_ARENA_BYTES"
    using arena_okD(2)[OF ok ui] by (simp add: region_ok_def u_def Let_def)
  have w: "unat (of_nat (off + len) :: u64) = off + len" using off r
    by (intro unat_of_nat64) (simp add: u_def)
  have nth: "k_untypeds s' ! uj = (if uj = ui then u\<lparr> ut_watermark := of_nat (off + len) \<rparr> else k_untypeds s ! uj)"
    if "uj < MAX_UNTYPED" for uj
    using that l ui by (simp add: s' upd_untyped_def u_def nth_list_update)
  have same: "free_bytes s' uj = free_bytes s uj" if "uj < MAX_UNTYPED" "uj \<noteq> ui" for uj
    using that nth by (simp add: free_bytes_def)
  have fu: "free_bytes s' ui = {unat (ut_base u) + (off + len) ..< unat (ut_base u) + unat (ut_size u)}"
    using ui nth[OF ui(1)] w by (simp add: free_bytes_def u_def Let_def)
  have fo: "free_bytes s ui = {unat (ut_base u) + unat (ut_watermark u) ..< unat (ut_base u) + unat (ut_size u)}"
    using ui by (simp add: free_bytes_def u_def Let_def)
  let ?o = "(unat (ut_base u) + off, len)"
  have sub: "free_bytes s' ui \<subseteq> free_bytes s ui" "obj_bytes ?o \<subseteq> free_bytes s ui" "obj_bytes ?o \<inter> free_bytes s' ui = {}"
    using off unfolding fu fo obj_bytes_def by (auto simp: u_def)
  have sub': "free_bytes s' uj \<subseteq> free_bytes s uj" if "uj < MAX_UNTYPED" for uj using sub(1) same that by (cases "uj = ui") auto
  have "arena_placed s'" using arena_okD(1)[OF ok] by (simp add: arena_placed_def s' upd_untyped_def)
  moreover have "region_ok s' uj" if "uj < MAX_UNTYPED" "ut_in_use (k_untypeds s' ! uj)" for uj
    using arena_okD(2)[OF ok, of uj] that nth[OF that(1)] r w off ui
    by (auto simp: region_ok_def u_def Let_def word_le_nat_alt split: if_splits)
  moreover have "free_bytes s' a \<inter> free_bytes s' b = {}" if "a < MAX_UNTYPED" "b < MAX_UNTYPED" "a \<noteq> b" for a b
    using arena_okD(3)[OF ok that] sub'[OF that(1)] sub'[OF that(2)] by blast
  moreover have "obj_bytes ob \<inter> free_bytes s' a = {}" if "ob \<in> set (?o # objs)" "a < MAX_UNTYPED" for ob a
    using arena_okD(4)[OF ok _ that(2), of ob] arena_okD(3)[OF ok ui(1) that(2)] sub sub'[OF that(2)] that(1)
    by (cases "ob = ?o"; cases "a = ui") (auto simp del: subset_iff)
  moreover have "obj_bytes ?o \<inter> obj_bytes ob = {}" if "ob \<in> set objs" for ob
    using arena_okD(4)[OF ok that ui(1)] sub(2) by blast
  moreover have "fst ob + snd ob \<le> UNTYPED_ARENA_BYTES" if "ob \<in> set (?o # objs)" for ob
    using that ok r off by (auto simp: arena_ok_def u_def)
  ultimately show ?thesis using arena_okD(5)[OF ok] unfolding arena_ok_def u_def[symmetric] by auto
qed

lemma kobj_place_view:
  assumes "kobj_place ty ui pg idx mem s = (out, s')"
  shows "arena_view s' = arena_view s"
  using assms by (auto simp: kobj_place_def arena_view_def Let_def split: if_splits)

lemma arena_view_objects:
  "arena_view (upd_untyped ui (\<lambda>u. u\<lparr> ut_objects := f u \<rparr>) s) = arena_view s"
proof (cases "ui < length (k_untypeds s)")
  case True
  thus ?thesis by (simp add: arena_view_def upd_untyped_def map_update list_update_same_conv)
qed (simp add: arena_view_def upd_untyped_def list_update_beyond)

lemma kobj_alloc_cases:
  assumes ok: "arena_ok s objs" and run: "kobj_alloc ui ty pages s = (r, s')"
  shows "r = None \<and> s' = s \<or>
    (\<exists>mem idx out s1 s2 off. r = Some (mem, out) \<and> ui < MAX_UNTYPED \<and> kobj_index ty s = Some idx
       \<and> (let u = k_untypeds s ! ui; pg = (if ty = KOBJ_FRAME \<and> pages \<noteq> 0 then pages else 1) in
          ut_in_use u \<and> mem \<noteq> 0 \<and> kobj_size ty pg \<noteq> 0 \<and> unat mem = unat (k_arena s) + unat (ut_base u) + off
          \<and> unat mem mod unat (kobj_align ty) = 0 \<and> unat (ut_watermark u) \<le> off
          \<and> off + unat (kobj_size ty pg) \<le> unat (ut_size u)
          \<and> s1 = upd_untyped ui (\<lambda>u. u\<lparr> ut_watermark := of_nat (off + unat (kobj_size ty pg)) \<rparr>) s
          \<and> kobj_place ty ui pg idx mem s1 = (out, s2)
          \<and> s' = upd_untyped ui (\<lambda>u. u\<lparr> ut_objects := ut_objects u + 1 \<rparr>) s2))"
proof (cases "r = None")
  case None: True
  show ?thesis
  proof (rule disjI1, intro conjI None)
    obtain n where n: "kobj_align ty = 2 ^ n" "n < 64" using kobj_align_cases by blast
    have z: "t = s" if "\<not> MAX_UNTYPED \<le> ui" "untyped_bump ui b (kobj_align ty) s = (0, t)" for b t
      using untyped_bump_cases[OF arena_okD(1)[OF ok] arena_okD(2)[OF ok] n(2), of ui b 0 t] that n(1) by auto
    show "s' = s" using run None unfolding kobj_alloc_def Let_def
      by (auto split: if_splits option.splits prod.splits dest: z)
  qed
next
  case False
  define pg where "pg = (if ty = KOBJ_FRAME \<and> pages \<noteq> 0 then pages else 1)"
  have pg': "(if ty \<noteq> KOBJ_FRAME then 1 else if pages = 0 then 1 else pages) = pg" by (simp add: pg_def)
  obtain n where n: "kobj_align ty = 2 ^ n" "n < 64" using kobj_align_cases by blast
  obtain idx mem s1 out s2 where c: "ui < MAX_UNTYPED" "kobj_size ty pg \<noteq> 0" "kobj_index ty s = Some idx"
    "untyped_bump ui (kobj_size ty pg) (2 ^ n) s = (mem, s1)" "mem \<noteq> 0" "kobj_place ty ui pg idx mem s1 = (out, s2)"
    "r = Some (mem, out)" "s' = upd_untyped ui (\<lambda>u. u\<lparr> ut_objects := ut_objects u + 1 \<rparr>) s2"
    using run False unfolding kobj_alloc_def Let_def pg' n(1)
    by (auto split: if_splits option.splits prod.splits)
  from untyped_bump_cases[OF arena_okD(1)[OF ok] arena_okD(2)[OF ok c(1)] n(2) c(4)]
  show ?thesis using c n unat_pow2_word[OF n(2)] unfolding Let_def pg_def[symmetric] by auto
qed

lemma kobj_alloc_arena:
  assumes ok: "arena_ok s objs" and run: "kobj_alloc ui ty pages s = (Some (mem, out), s')"
  shows "unat (k_arena s) \<le> unat mem \<and> unat mem mod unat (kobj_align ty) = 0
    \<and> arena_ok s' ((unat mem - unat (k_arena s), unat (kobj_size ty (if ty = KOBJ_FRAME \<and> pages \<noteq> 0 then pages else 1))) # objs)"
proof -
  define pg where "pg = (if ty = KOBJ_FRAME \<and> pages \<noteq> 0 then pages else 1)"
  obtain idx s1 s2 off where a: "ui < MAX_UNTYPED" "ut_in_use (k_untypeds s ! ui)"
    "unat mem = unat (k_arena s) + unat (ut_base (k_untypeds s ! ui)) + off" "unat mem mod unat (kobj_align ty) = 0"
    "unat (ut_watermark (k_untypeds s ! ui)) \<le> off"
    "off + unat (kobj_size ty pg) \<le> unat (ut_size (k_untypeds s ! ui))"
    "s1 = upd_untyped ui (\<lambda>u. u\<lparr> ut_watermark := of_nat (off + unat (kobj_size ty pg)) \<rparr>) s"
    "kobj_place ty ui pg idx mem s1 = (out, s2)" "s' = upd_untyped ui (\<lambda>u. u\<lparr> ut_objects := ut_objects u + 1 \<rparr>) s2"
    using kobj_alloc_cases[OF ok run] unfolding Let_def pg_def[symmetric] by auto
  have "arena_view s' = arena_view s1" unfolding a(9) arena_view_objects using kobj_place_view[OF a(8)] .
  from arena_ok_view[OF this arena_ok_take[OF ok a(1,2,5,6,7)]] show ?thesis using a(3,4) unfolding pg_def[symmetric] by simp
qed

section \<open>What the marking reaches\<close>

definition names :: "u32 \<Rightarrow> nat \<Rightarrow> capability \<Rightarrow> bool" where
  "names ty idx c \<longleftrightarrow> c_serial c \<noteq> 0 \<and> c_typ c = ty \<and> unat (c_object c) = idx"

definition named :: "kstate \<Rightarrow> u32 \<Rightarrow> nat \<Rightarrow> bool" where
  "named s ty idx \<longleftrightarrow> (\<exists>a\<in>set (gc_slots s). names ty idx (k_mem s a))"

definition marks_len :: "gc_marks \<Rightarrow> bool" where
  "marks_len m \<longleftrightarrow> length (gm_eps m) = MAX_DYN_ENDPOINTS \<and> length (gm_notifs m) = MAX_DYN_NOTIFICATIONS
     \<and> length (gm_frames m) = MAX_DYN_FRAMES \<and> length (gm_scs m) = MAX_DYN_SCHED_CONTEXTS"

lemma mark_cap_len: "marks_len m \<Longrightarrow> marks_len (mark_cap c m)"
  by (auto simp: marks_len_def mark_cap_def Let_def)

lemma mark_shlib_len: "marks_len m \<Longrightarrow> marks_len (mark_shlib i m)"
  by (auto simp: marks_len_def mark_shlib_def)

lemma mark_cap_nth:
  assumes "marks_len m"
  shows "i < MAX_DYN_ENDPOINTS \<Longrightarrow> gm_eps (mark_cap c m) ! i \<longleftrightarrow> gm_eps m ! i \<or> names CAP_ENDPOINT (DYN_EP_BASE + i) c"
    "i < MAX_DYN_NOTIFICATIONS \<Longrightarrow> gm_notifs (mark_cap c m) ! i \<longleftrightarrow> gm_notifs m ! i \<or> names CAP_NOTIFICATION (DYN_NOTIF_BASE + i) c"
    "i < MAX_DYN_FRAMES \<Longrightarrow> gm_frames (mark_cap c m) ! i \<longleftrightarrow> gm_frames m ! i \<or> names CAP_FRAME (DYN_FRAME_BASE + i) c"
    "i < MAX_DYN_SCHED_CONTEXTS \<Longrightarrow> gm_scs (mark_cap c m) ! i \<longleftrightarrow> gm_scs m ! i \<or> names CAP_SCHED_CONTEXT (DYN_SC_BASE + i) c"
proof -
  have l: "length (gm_eps m) = MAX_DYN_ENDPOINTS" "length (gm_notifs m) = MAX_DYN_NOTIFICATIONS"
    "length (gm_frames m) = MAX_DYN_FRAMES" "length (gm_scs m) = MAX_DYN_SCHED_CONTEXTS"
    using assms by (auto simp: marks_len_def)
  have put: "(if o' \<ge> b \<and> o' < b + n then xs[o' - b := True] else xs) ! i \<longleftrightarrow> xs ! i \<or> o' = b + i"
    if "i < n" "length xs = n" for o' b n :: nat and xs
    using that by (cases "o' = b + i") (auto simp: nth_list_update)
  define ob where "ob = unat (c_object c)"
  have e: "gm_eps (mark_cap c m) = (if c_serial c \<noteq> 0 \<and> c_typ c = CAP_ENDPOINT then
        (if ob \<ge> DYN_EP_BASE \<and> ob < DYN_EP_BASE + MAX_DYN_ENDPOINTS then (gm_eps m)[ob - DYN_EP_BASE := True] else gm_eps m) else gm_eps m)"
    "gm_notifs (mark_cap c m) = (if c_serial c \<noteq> 0 \<and> c_typ c = CAP_NOTIFICATION then
        (if ob \<ge> DYN_NOTIF_BASE \<and> ob < DYN_NOTIF_BASE + MAX_DYN_NOTIFICATIONS then (gm_notifs m)[ob - DYN_NOTIF_BASE := True] else gm_notifs m) else gm_notifs m)"
    "gm_frames (mark_cap c m) = (if c_serial c \<noteq> 0 \<and> c_typ c = CAP_FRAME then
        (if ob \<ge> DYN_FRAME_BASE \<and> ob < DYN_FRAME_BASE + MAX_DYN_FRAMES then (gm_frames m)[ob - DYN_FRAME_BASE := True] else gm_frames m) else gm_frames m)"
    "gm_scs (mark_cap c m) = (if c_serial c \<noteq> 0 \<and> c_typ c = CAP_SCHED_CONTEXT then
        (if ob \<ge> DYN_SC_BASE \<and> ob < DYN_SC_BASE + MAX_DYN_SCHED_CONTEXTS then (gm_scs m)[ob - DYN_SC_BASE := True] else gm_scs m) else gm_scs m)"
    unfolding mark_cap_def Let_def ob_def[symmetric] by (simp_all split del: if_split cong: if_cong) (auto)
  note p = put[OF _ l(1)] put[OF _ l(2)] put[OF _ l(3)] put[OF _ l(4)]
  show "i < MAX_DYN_ENDPOINTS \<Longrightarrow> gm_eps (mark_cap c m) ! i \<longleftrightarrow> gm_eps m ! i \<or> names CAP_ENDPOINT (DYN_EP_BASE + i) c"
    "i < MAX_DYN_NOTIFICATIONS \<Longrightarrow> gm_notifs (mark_cap c m) ! i \<longleftrightarrow> gm_notifs m ! i \<or> names CAP_NOTIFICATION (DYN_NOTIF_BASE + i) c"
    "i < MAX_DYN_FRAMES \<Longrightarrow> gm_frames (mark_cap c m) ! i \<longleftrightarrow> gm_frames m ! i \<or> names CAP_FRAME (DYN_FRAME_BASE + i) c"
    "i < MAX_DYN_SCHED_CONTEXTS \<Longrightarrow> gm_scs (mark_cap c m) ! i \<longleftrightarrow> gm_scs m ! i \<or> names CAP_SCHED_CONTEXT (DYN_SC_BASE + i) c"
    unfolding names_def ob_def[symmetric] e using p by (simp_all only: if_P if_not_P split: if_split) blast+
qed

lemma fold_mark_cap:
  assumes "marks_len m" and m': "m' = fold (\<lambda>a. mark_cap (f a)) xs m"
  shows "marks_len m'"
    "i < MAX_DYN_ENDPOINTS \<Longrightarrow> gm_eps m' ! i \<longleftrightarrow> gm_eps m ! i \<or> (\<exists>a\<in>set xs. names CAP_ENDPOINT (DYN_EP_BASE + i) (f a))"
    "i < MAX_DYN_NOTIFICATIONS \<Longrightarrow> gm_notifs m' ! i \<longleftrightarrow> gm_notifs m ! i \<or> (\<exists>a\<in>set xs. names CAP_NOTIFICATION (DYN_NOTIF_BASE + i) (f a))"
    "i < MAX_DYN_FRAMES \<Longrightarrow> gm_frames m' ! i \<longleftrightarrow> gm_frames m ! i \<or> (\<exists>a\<in>set xs. names CAP_FRAME (DYN_FRAME_BASE + i) (f a))"
    "i < MAX_DYN_SCHED_CONTEXTS \<Longrightarrow> gm_scs m' ! i \<longleftrightarrow> gm_scs m ! i \<or> (\<exists>a\<in>set xs. names CAP_SCHED_CONTEXT (DYN_SC_BASE + i) (f a))"
  using assms(1) unfolding m'
  by (induction xs arbitrary: m) (simp_all add: mark_cap_len mark_cap_nth disj_assoc)

lemma fold_mark_shlib:
  assumes "marks_len m" and m': "m' = fold mark_shlib xs m"
  shows "marks_len m'" "gm_eps m' = gm_eps m" "gm_notifs m' = gm_notifs m" "gm_scs m' = gm_scs m"
    "i < MAX_DYN_FRAMES \<Longrightarrow> gm_frames m' ! i \<longleftrightarrow> gm_frames m ! i \<or> DYN_FRAME_BASE + i \<in> set xs"
proof -
  have one: "gm_eps (mark_shlib x m) = gm_eps m" "gm_notifs (mark_shlib x m) = gm_notifs m" "gm_scs (mark_shlib x m) = gm_scs m"
    "marks_len m \<Longrightarrow> i < MAX_DYN_FRAMES \<Longrightarrow> gm_frames (mark_shlib x m) ! i \<longleftrightarrow> gm_frames m ! i \<or> x = DYN_FRAME_BASE + i" for x m i
    by (auto simp: mark_shlib_def nth_list_update marks_len_def)
  show "marks_len m'" "gm_eps m' = gm_eps m" "gm_notifs m' = gm_notifs m" "gm_scs m' = gm_scs m"
    "i < MAX_DYN_FRAMES \<Longrightarrow> gm_frames m' ! i \<longleftrightarrow> gm_frames m ! i \<or> DYN_FRAME_BASE + i \<in> set xs"
    using assms(1) unfolding m' by (induction xs arbitrary: m) (auto simp: mark_shlib_len one)
qed

lemma no_gc_marks_len: "marks_len no_gc_marks"
  unfolding marks_len_def no_gc_marks_def by (simp only: gc_marks.select_convs length_replicate simp_thms)

lemma mark_reachable_iff:
  "i < MAX_DYN_ENDPOINTS \<Longrightarrow> gm_eps (mark_reachable s) ! i \<longleftrightarrow> named s CAP_ENDPOINT (DYN_EP_BASE + i)"
  "i < MAX_DYN_NOTIFICATIONS \<Longrightarrow> gm_notifs (mark_reachable s) ! i \<longleftrightarrow> named s CAP_NOTIFICATION (DYN_NOTIF_BASE + i)"
  "i < MAX_DYN_FRAMES \<Longrightarrow> gm_frames (mark_reachable s) ! i \<longleftrightarrow> named s CAP_FRAME (DYN_FRAME_BASE + i) \<or> DYN_FRAME_BASE + i \<in> set (k_shlib s)"
  "i < MAX_DYN_SCHED_CONTEXTS \<Longrightarrow> gm_scs (mark_reachable s) ! i \<longleftrightarrow> named s CAP_SCHED_CONTEXT (DYN_SC_BASE + i)"
proof -
  note c = fold_mark_cap[OF no_gc_marks_len refl, where f = "k_mem s" and xs = "gc_slots s"]
  note h = fold_mark_shlib[OF c(1) refl, where xs = "k_shlib s"]
  have z: "i < MAX_DYN_ENDPOINTS \<Longrightarrow> \<not> gm_eps no_gc_marks ! i" "i < MAX_DYN_NOTIFICATIONS \<Longrightarrow> \<not> gm_notifs no_gc_marks ! i"
    "i < MAX_DYN_FRAMES \<Longrightarrow> \<not> gm_frames no_gc_marks ! i" "i < MAX_DYN_SCHED_CONTEXTS \<Longrightarrow> \<not> gm_scs no_gc_marks ! i"
    unfolding no_gc_marks_def by (simp_all only: gc_marks.select_convs nth_replicate simp_thms)
  show "i < MAX_DYN_ENDPOINTS \<Longrightarrow> gm_eps (mark_reachable s) ! i \<longleftrightarrow> named s CAP_ENDPOINT (DYN_EP_BASE + i)"
    "i < MAX_DYN_NOTIFICATIONS \<Longrightarrow> gm_notifs (mark_reachable s) ! i \<longleftrightarrow> named s CAP_NOTIFICATION (DYN_NOTIF_BASE + i)"
    "i < MAX_DYN_FRAMES \<Longrightarrow> gm_frames (mark_reachable s) ! i \<longleftrightarrow> named s CAP_FRAME (DYN_FRAME_BASE + i) \<or> DYN_FRAME_BASE + i \<in> set (k_shlib s)"
    "i < MAX_DYN_SCHED_CONTEXTS \<Longrightarrow> gm_scs (mark_reachable s) ! i \<longleftrightarrow> named s CAP_SCHED_CONTEXT (DYN_SC_BASE + i)"
    unfolding mark_reachable_def named_def using z by (simp_all only: h c simp_thms)
qed

section \<open>What a destruction touches\<close>

type_synonym dyn_tables = "kobj_slot list \<times> kobj_slot list \<times> kobj_slot list \<times> kobj_slot list"

text \<open>The descriptor tables, with the capabilities and the page pool beside them.\<close>

definition dyn_view :: "kstate \<Rightarrow> dyn_tables \<times> capmem \<times> page_pool" where
  "dyn_view s = ((k_dyn_eps s, k_dyn_notifs s, k_dyn_frames s, k_dyn_scs s), k_mem s, k_pool s)"

lemma dyn_view_eqD:
  assumes "dyn_view s' = dyn_view s"
  shows "k_dyn_eps s' = k_dyn_eps s" "k_dyn_notifs s' = k_dyn_notifs s" "k_dyn_frames s' = k_dyn_frames s"
    "k_dyn_scs s' = k_dyn_scs s" "k_mem s' = k_mem s" "k_pool s' = k_pool s"
  using assms by (simp_all add: dyn_view_def)

lemma dyn_view_small [simp]:
  "dyn_view (upd_task t f s) = dyn_view s" "dyn_view (uncount_object ui s) = dyn_view s"
  "dyn_view (upd_untyped ui g s) = dyn_view s"
  "dyn_view (upd_sc i h s) = dyn_view s" "dyn_view (uncount_carved c s) = dyn_view s"
  "dyn_view (reparent_ctx i j k s) = dyn_view s" "dyn_view (unbind_task i t s) = dyn_view s"
  "dyn_view (clear_stamp i l s) = dyn_view s"
  "dyn_view (s\<lparr> k_eps := e \<rparr>) = dyn_view s" "dyn_view (s\<lparr> k_notifs := n \<rparr>) = dyn_view s"
  "dyn_view (s\<lparr> k_scs := x \<rparr>) = dyn_view s"
  by (simp_all add: dyn_view_def upd_task_def uncount_object_def upd_untyped_def upd_sc_def uncount_carved_def
      reparent_ctx_def unbind_task_def clear_stamp_def split: option.split)

lemma fold_view:
  assumes "\<And>x s. v (f x s) = v s"
  shows "v (fold f xs s) = v s"
  using assms by (induction xs arbitrary: s) auto

lemma dyn_view_destroyed [simp]: "dyn_view (sched_context_destroyed idx s) = dyn_view s"
  unfolding sched_context_destroyed_def Let_def
  by (auto simp: fold_view[of dyn_view] split: option.split)

lemma dyn_view_put:
  "dyn_view (s\<lparr> k_dyn_eps := x \<rparr>) = ((x, snd (fst (dyn_view s))), snd (dyn_view s))"
  "dyn_view (s\<lparr> k_dyn_notifs := x \<rparr>) = ((fst (fst (dyn_view s)), x, snd (snd (fst (dyn_view s)))), snd (dyn_view s))"
  "dyn_view (s\<lparr> k_dyn_frames := x \<rparr>) =
     ((fst (fst (dyn_view s)), fst (snd (fst (dyn_view s))), x, snd (snd (snd (fst (dyn_view s))))), snd (dyn_view s))"
  "dyn_view (s\<lparr> k_dyn_scs := x \<rparr>) =
     ((fst (fst (dyn_view s)), fst (snd (fst (dyn_view s))), fst (snd (snd (fst (dyn_view s)))), x), snd (dyn_view s))"
  "dyn_view (s\<lparr> k_pool := p \<rparr>) = (fst (dyn_view s), fst (snd (dyn_view s)), p)"
  by (simp_all add: dyn_view_def)

lemma dyn_tables_view:
  "k_dyn_eps s = fst (fst (dyn_view s))" "k_dyn_notifs s = fst (snd (fst (dyn_view s)))"
  "k_dyn_frames s = fst (snd (snd (fst (dyn_view s))))" "k_dyn_scs s = snd (snd (snd (fst (dyn_view s))))"
  "k_mem s = fst (snd (dyn_view s))" "k_pool s = snd (snd (dyn_view s))"
  by (simp_all add: dyn_view_def)

lemma destroy_views:
  "dyn_view (destroy_dyn_endpoint i s) = (if ks_mem (k_dyn_eps s ! i) = 0 then dyn_view s
     else dyn_view (s\<lparr> k_dyn_eps := (k_dyn_eps s)[i := (k_dyn_eps s ! i)\<lparr> ks_mem := 0, ks_pinned := False \<rparr>] \<rparr>))"
  "dyn_view (destroy_dyn_notification i s) = (if ks_mem (k_dyn_notifs s ! i) = 0 then dyn_view s
     else dyn_view (s\<lparr> k_dyn_notifs := (k_dyn_notifs s)[i := (k_dyn_notifs s ! i)\<lparr> ks_mem := 0, ks_pinned := False \<rparr>] \<rparr>))"
  "dyn_view (destroy_dyn_sc i s) = (if ks_mem (k_dyn_scs s ! i) = 0 then dyn_view s
     else dyn_view (s\<lparr> k_dyn_scs := (k_dyn_scs s)[i := (k_dyn_scs s ! i)\<lparr> ks_mem := 0, ks_pinned := False \<rparr>] \<rparr>))"
  unfolding destroy_dyn_endpoint_def destroy_dyn_notification_def destroy_dyn_sc_def Let_def
  by (simp_all add: dyn_view_put dyn_tables_view)

text \<open>A frame that some page of is still mapped outlives the sweep.\<close>

definition frame_busy :: "kstate \<Rightarrow> nat \<Rightarrow> bool" where
  "frame_busy s i \<longleftrightarrow> (let k = k_dyn_frames s ! i in
     \<exists>pg\<in>set [0..<if ks_pages k = 0 then 1 else ks_pages k]. frame_map_refcount (frame_page_phys k pg) (k_pool s) > 1)"

lemma destroy_frame_view:
  assumes "ks_mem (k_dyn_frames s ! i) \<noteq> 0"
  obtains ps where "dyn_view (destroy_dyn_frame i s) = (if frame_busy s i then dyn_view s
     else dyn_view (s\<lparr> k_pool := fold frame_unpin_refcount ps (k_pool s),
        k_dyn_frames := (k_dyn_frames s)[i := (k_dyn_frames s ! i)\<lparr> ks_mem := 0, ks_pages := 0, ks_pinned := False \<rparr>] \<rparr>))"
proof -
  define k where "k = k_dyn_frames s ! i"
  define n where "n = (if ks_pages k = 0 then 1 else ks_pages k)"
  have f: "fold (\<lambda>pg. frame_unpin_refcount (frame_page_phys k pg)) xs p = fold frame_unpin_refcount (map (frame_page_phys k) xs) p"
    for xs p by (simp add: fold_map comp_def)
  have "dyn_view (destroy_dyn_frame i s) = (if frame_busy s i then dyn_view s
     else dyn_view (s\<lparr> k_pool := fold frame_unpin_refcount (map (frame_page_phys k) [0..<n]) (k_pool s),
        k_dyn_frames := (k_dyn_frames s)[i := k\<lparr> ks_mem := 0, ks_pages := 0, ks_pinned := False \<rparr>] \<rparr>))"
    using assms unfolding destroy_dyn_frame_def frame_busy_def Let_def k_def[symmetric] n_def[symmetric] f
    by (simp add: dyn_view_put dyn_tables_view)
  thus thesis using that unfolding k_def by blast
qed

lemma unpin_busy:
  "frame_map_refcount a (fold frame_unpin_refcount ps p) > 1 \<longleftrightarrow> frame_map_refcount a p > 1"
proof -
  have "frame_map_refcount a (frame_unpin_refcount b p) > 1 \<longleftrightarrow> frame_map_refcount a p > 1" for b p
    by (auto simp: frame_map_refcount_def frame_unpin_refcount_def Let_def)
  thus ?thesis by (induction ps arbitrary: p) auto
qed

section \<open>The sweep of one table\<close>

text \<open>What a sweep needs of a destruction: it touches only its own descriptor, which it
  frees unless the object has to be kept, and it changes for no other object
  whether that has to be kept.\<close>

locale sweepable =
  fixes tbl :: "kstate \<Rightarrow> kobj_slot list" and destroy :: "nat \<Rightarrow> kstate \<Rightarrow> kstate"
    and keep :: "kstate \<Rightarrow> nat \<Rightarrow> bool" and n :: nat
  assumes destroy_len: "length (tbl (destroy i s)) = length (tbl s)"
    and destroy_other: "j \<noteq> i \<Longrightarrow> tbl (destroy i s) ! j = tbl s ! j"
    and destroy_own: "length (tbl s) = n \<Longrightarrow> i < n \<Longrightarrow> ks_mem (tbl s ! i) \<noteq> 0 \<Longrightarrow>
      (if keep s i then tbl (destroy i s) ! i = tbl s ! i else ks_mem (tbl (destroy i s) ! i) = 0)"
    and destroy_keep: "j \<noteq> i \<Longrightarrow> keep (destroy i s) j = keep s j"
begin

lemma sweep_list:
  assumes "distinct xs" "set xs \<subseteq> {..<n}" "length (tbl s) = n" "s' = fold (sweep_step tbl marks destroy) xs s"
  shows "length (tbl s') = n \<and> (\<forall>i. i \<notin> set xs \<longrightarrow> tbl s' ! i = tbl s ! i \<and> keep s' i = keep s i)
    \<and> (\<forall>i\<in>set xs. ks_mem (tbl s' ! i) =
         (if \<not> ks_pinned (tbl s ! i) \<and> \<not> marks ! i \<and> \<not> keep s i then 0 else ks_mem (tbl s ! i)))"
  using assms
proof (induction xs arbitrary: s)
  case (Cons x xs)
  define t where "t = sweep_step tbl marks destroy x s"
  have len: "length (tbl t) = n" using Cons.prems by (simp add: t_def sweep_step_def destroy_len)
  have oth: "tbl t ! j = tbl s ! j" "keep t j = keep s j" if "j \<noteq> x" for j
    using that by (simp_all add: t_def sweep_step_def destroy_other destroy_keep)
  have own: "ks_mem (tbl t ! x) = (if \<not> ks_pinned (tbl s ! x) \<and> \<not> marks ! x \<and> \<not> keep s x then 0 else ks_mem (tbl s ! x))"
    using destroy_own[of s x] Cons.prems by (auto simp: t_def sweep_step_def split: if_splits)
  have d: "distinct xs" "set xs \<subseteq> {..<n}" "x \<notin> set xs" using Cons.prems by auto
  have t: "s' = fold (sweep_step tbl marks destroy) xs t" using Cons.prems by (simp add: t_def)
  note ih = Cons.IH[OF d(1,2) len t]
  have "tbl s' ! i = tbl s ! i \<and> keep s' i = keep s i" if "i \<notin> set (x # xs)" for i using ih oth[of i] that by auto
  moreover have "ks_mem (tbl s' ! i) = (if \<not> ks_pinned (tbl s ! i) \<and> \<not> marks ! i \<and> \<not> keep s i then 0 else ks_mem (tbl s ! i))"
    if "i \<in> set (x # xs)" for i
  proof (cases "i = x")
    case True thus ?thesis using ih d(3) own by simp
  next
    case False
    hence "i \<in> set xs" using that by simp
    thus ?thesis using ih oth[OF False] by simp
  qed
  ultimately show ?case using ih by blast
qed simp

lemma sweep_exact:
  assumes "length (tbl s) = n" "i < n"
  shows "ks_mem (tbl (gc_sweep tbl marks destroy n s) ! i) \<noteq> 0 \<longleftrightarrow>
    ks_mem (tbl s ! i) \<noteq> 0 \<and> (ks_pinned (tbl s ! i) \<or> marks ! i \<or> keep s i)"
proof -
  have "ks_mem (tbl (gc_sweep tbl marks destroy n s) ! i) =
    (if \<not> ks_pinned (tbl s ! i) \<and> \<not> marks ! i \<and> \<not> keep s i then 0 else ks_mem (tbl s ! i))"
    using sweep_list[OF _ _ assms(1) refl, of "[0..<n]" marks] assms(2) unfolding gc_sweep_def
    by (simp add: atLeast0LessThan)
  thus ?thesis by simp
qed

end

lemma destroy_tables:
  "k_dyn_eps (destroy_dyn_endpoint i s) = (if ks_mem (k_dyn_eps s ! i) = 0 then k_dyn_eps s
     else (k_dyn_eps s)[i := (k_dyn_eps s ! i)\<lparr> ks_mem := 0, ks_pinned := False \<rparr>])"
  "k_dyn_notifs (destroy_dyn_notification i s) = (if ks_mem (k_dyn_notifs s ! i) = 0 then k_dyn_notifs s
     else (k_dyn_notifs s)[i := (k_dyn_notifs s ! i)\<lparr> ks_mem := 0, ks_pinned := False \<rparr>])"
  "k_dyn_scs (destroy_dyn_sc i s) = (if ks_mem (k_dyn_scs s ! i) = 0 then k_dyn_scs s
     else (k_dyn_scs s)[i := (k_dyn_scs s ! i)\<lparr> ks_mem := 0, ks_pinned := False \<rparr>])"
proof -
  show "k_dyn_eps (destroy_dyn_endpoint i s) = (if ks_mem (k_dyn_eps s ! i) = 0 then k_dyn_eps s
     else (k_dyn_eps s)[i := (k_dyn_eps s ! i)\<lparr> ks_mem := 0, ks_pinned := False \<rparr>])"
    unfolding dyn_tables_view(1)[of "destroy_dyn_endpoint i s"] destroy_views(1) by (simp add: dyn_view_def)
  show "k_dyn_notifs (destroy_dyn_notification i s) = (if ks_mem (k_dyn_notifs s ! i) = 0 then k_dyn_notifs s
     else (k_dyn_notifs s)[i := (k_dyn_notifs s ! i)\<lparr> ks_mem := 0, ks_pinned := False \<rparr>])"
    unfolding dyn_tables_view(2)[of "destroy_dyn_notification i s"] destroy_views(2) by (simp add: dyn_view_def)
  show "k_dyn_scs (destroy_dyn_sc i s) = (if ks_mem (k_dyn_scs s ! i) = 0 then k_dyn_scs s
     else (k_dyn_scs s)[i := (k_dyn_scs s ! i)\<lparr> ks_mem := 0, ks_pinned := False \<rparr>])"
    unfolding dyn_tables_view(4)[of "destroy_dyn_sc i s"] destroy_views(3) by (simp add: dyn_view_def)
qed

lemma destroy_frame_table:
  "\<exists>ps. k_dyn_frames (destroy_dyn_frame i s) = (if ks_mem (k_dyn_frames s ! i) = 0 \<or> frame_busy s i then k_dyn_frames s
     else (k_dyn_frames s)[i := (k_dyn_frames s ! i)\<lparr> ks_mem := 0, ks_pages := 0, ks_pinned := False \<rparr>])
   \<and> k_pool (destroy_dyn_frame i s) = fold frame_unpin_refcount ps (k_pool s)"
proof (cases "ks_mem (k_dyn_frames s ! i) = 0 \<or> frame_busy s i")
  case True
  hence "dyn_view (destroy_dyn_frame i s) = dyn_view s"
    by (cases "ks_mem (k_dyn_frames s ! i) = 0")
      (simp add: destroy_dyn_frame_def Let_def, metis destroy_frame_view)
  thus ?thesis using True by (auto simp: dyn_view_def intro: exI[of _ "[]"])
next
  case False
  then obtain ps where "dyn_view (destroy_dyn_frame i s) = dyn_view (s\<lparr> k_pool := fold frame_unpin_refcount ps (k_pool s),
        k_dyn_frames := (k_dyn_frames s)[i := (k_dyn_frames s ! i)\<lparr> ks_mem := 0, ks_pages := 0, ks_pinned := False \<rparr>] \<rparr>)"
    using destroy_frame_view[of s i] by metis
  thus ?thesis using False by (auto simp: dyn_view_def)
qed

interpretation ep_sweep: sweepable k_dyn_eps destroy_dyn_endpoint "\<lambda>_ _. False" MAX_DYN_ENDPOINTS
  by unfold_locales (simp_all add: destroy_tables)

interpretation notif_sweep: sweepable k_dyn_notifs destroy_dyn_notification "\<lambda>_ _. False" MAX_DYN_NOTIFICATIONS
  by unfold_locales (simp_all add: destroy_tables)

interpretation sc_sweep: sweepable k_dyn_scs destroy_dyn_sc "\<lambda>_ _. False" MAX_DYN_SCHED_CONTEXTS
  by unfold_locales (simp_all add: destroy_tables)

lemma frame_busy_destroy:
  assumes "j \<noteq> i"
  shows "frame_busy (destroy_dyn_frame i s) j = frame_busy s j"
proof -
  obtain ps where t: "k_dyn_frames (destroy_dyn_frame i s) ! j = k_dyn_frames s ! j"
    "k_pool (destroy_dyn_frame i s) = fold frame_unpin_refcount ps (k_pool s)"
    using destroy_frame_table[of i s] assms by (auto simp: nth_list_update)
  show ?thesis unfolding frame_busy_def t unpin_busy ..
qed

interpretation frame_sweep: sweepable k_dyn_frames destroy_dyn_frame frame_busy MAX_DYN_FRAMES
proof unfold_locales
  fix i j s
  show "length (k_dyn_frames (destroy_dyn_frame i s)) = length (k_dyn_frames s)"
    using destroy_frame_table[of i s] by auto
  show "j \<noteq> i \<Longrightarrow> k_dyn_frames (destroy_dyn_frame i s) ! j = k_dyn_frames s ! j"
    using destroy_frame_table[of i s] by (auto simp: nth_list_update)
  show "if frame_busy s i then k_dyn_frames (destroy_dyn_frame i s) ! i = k_dyn_frames s ! i
        else ks_mem (k_dyn_frames (destroy_dyn_frame i s) ! i) = 0"
    if "length (k_dyn_frames s) = MAX_DYN_FRAMES" "i < MAX_DYN_FRAMES" "ks_mem (k_dyn_frames s ! i) \<noteq> 0"
    using destroy_frame_table[of i s] that by auto
qed (rule frame_busy_destroy)

lemma sweep_fold:
  assumes "\<And>i s. v (d i s) = v s"
  shows "v (gc_sweep f m d n s) = v s"
  unfolding gc_sweep_def by (rule fold_view) (simp add: sweep_step_def assms)

lemma destroy_ep_frame:
  "k_dyn_notifs (destroy_dyn_endpoint i s) = k_dyn_notifs s" "k_dyn_frames (destroy_dyn_endpoint i s) = k_dyn_frames s"
  "k_dyn_scs (destroy_dyn_endpoint i s) = k_dyn_scs s" "k_mem (destroy_dyn_endpoint i s) = k_mem s"
  "k_pool (destroy_dyn_endpoint i s) = k_pool s"
  using destroy_views(1)[of i s] by (auto simp: dyn_view_def split: if_splits)

lemma destroy_notif_frame:
  "k_dyn_eps (destroy_dyn_notification i s) = k_dyn_eps s" "k_dyn_frames (destroy_dyn_notification i s) = k_dyn_frames s"
  "k_dyn_scs (destroy_dyn_notification i s) = k_dyn_scs s" "k_mem (destroy_dyn_notification i s) = k_mem s"
  "k_pool (destroy_dyn_notification i s) = k_pool s"
  using destroy_views(2)[of i s] by (auto simp: dyn_view_def split: if_splits)

lemma destroy_sc_frame:
  "k_dyn_eps (destroy_dyn_sc i s) = k_dyn_eps s" "k_dyn_notifs (destroy_dyn_sc i s) = k_dyn_notifs s"
  "k_dyn_frames (destroy_dyn_sc i s) = k_dyn_frames s" "k_mem (destroy_dyn_sc i s) = k_mem s"
  using destroy_views(3)[of i s] by (auto simp: dyn_view_def split: if_splits)

lemma destroy_frame_frame:
  "k_dyn_eps (destroy_dyn_frame i s) = k_dyn_eps s" "k_dyn_notifs (destroy_dyn_frame i s) = k_dyn_notifs s"
  "k_dyn_scs (destroy_dyn_frame i s) = k_dyn_scs s" "k_mem (destroy_dyn_frame i s) = k_mem s"
  unfolding destroy_dyn_frame_def Let_def by (auto simp: uncount_object_def upd_untyped_def)

lemmas sweep_frames =
  sweep_fold[where v = k_dyn_notifs and d = destroy_dyn_endpoint, OF destroy_ep_frame(1)]
  sweep_fold[where v = k_dyn_frames and d = destroy_dyn_endpoint, OF destroy_ep_frame(2)]
  sweep_fold[where v = k_dyn_scs and d = destroy_dyn_endpoint, OF destroy_ep_frame(3)]
  sweep_fold[where v = k_mem and d = destroy_dyn_endpoint, OF destroy_ep_frame(4)]
  sweep_fold[where v = k_pool and d = destroy_dyn_endpoint, OF destroy_ep_frame(5)]
  sweep_fold[where v = k_dyn_eps and d = destroy_dyn_notification, OF destroy_notif_frame(1)]
  sweep_fold[where v = k_dyn_frames and d = destroy_dyn_notification, OF destroy_notif_frame(2)]
  sweep_fold[where v = k_dyn_scs and d = destroy_dyn_notification, OF destroy_notif_frame(3)]
  sweep_fold[where v = k_mem and d = destroy_dyn_notification, OF destroy_notif_frame(4)]
  sweep_fold[where v = k_pool and d = destroy_dyn_notification, OF destroy_notif_frame(5)]
  sweep_fold[where v = k_dyn_eps and d = destroy_dyn_frame, OF destroy_frame_frame(1)]
  sweep_fold[where v = k_dyn_notifs and d = destroy_dyn_frame, OF destroy_frame_frame(2)]
  sweep_fold[where v = k_dyn_scs and d = destroy_dyn_frame, OF destroy_frame_frame(3)]
  sweep_fold[where v = k_mem and d = destroy_dyn_frame, OF destroy_frame_frame(4)]
  sweep_fold[where v = k_dyn_eps and d = destroy_dyn_sc, OF destroy_sc_frame(1)]
  sweep_fold[where v = k_dyn_notifs and d = destroy_dyn_sc, OF destroy_sc_frame(2)]
  sweep_fold[where v = k_dyn_frames and d = destroy_dyn_sc, OF destroy_sc_frame(3)]
  sweep_fold[where v = k_mem and d = destroy_dyn_sc, OF destroy_sc_frame(4)]

definition tables_ok :: "kstate \<Rightarrow> bool" where
  "tables_ok s \<longleftrightarrow> length (k_dyn_eps s) = MAX_DYN_ENDPOINTS \<and> length (k_dyn_notifs s) = MAX_DYN_NOTIFICATIONS
     \<and> length (k_dyn_frames s) = MAX_DYN_FRAMES \<and> length (k_dyn_scs s) = MAX_DYN_SCHED_CONTEXTS"

lemma gc_tables:
  assumes ok: "tables_ok s"
  shows "i < MAX_DYN_ENDPOINTS \<Longrightarrow> ks_mem (k_dyn_eps (kobj_gc_locked s) ! i) \<noteq> 0 \<longleftrightarrow>
      ks_mem (k_dyn_eps s ! i) \<noteq> 0 \<and> (ks_pinned (k_dyn_eps s ! i) \<or> named s CAP_ENDPOINT (DYN_EP_BASE + i))"
    "i < MAX_DYN_NOTIFICATIONS \<Longrightarrow> ks_mem (k_dyn_notifs (kobj_gc_locked s) ! i) \<noteq> 0 \<longleftrightarrow>
      ks_mem (k_dyn_notifs s ! i) \<noteq> 0 \<and> (ks_pinned (k_dyn_notifs s ! i) \<or> named s CAP_NOTIFICATION (DYN_NOTIF_BASE + i))"
    "i < MAX_DYN_FRAMES \<Longrightarrow> ks_mem (k_dyn_frames (kobj_gc_locked s) ! i) \<noteq> 0 \<longleftrightarrow>
      ks_mem (k_dyn_frames s ! i) \<noteq> 0 \<and> (ks_pinned (k_dyn_frames s ! i) \<or> named s CAP_FRAME (DYN_FRAME_BASE + i)
        \<or> DYN_FRAME_BASE + i \<in> set (k_shlib s) \<or> frame_busy s i)"
    "i < MAX_DYN_SCHED_CONTEXTS \<Longrightarrow> ks_mem (k_dyn_scs (kobj_gc_locked s) ! i) \<noteq> 0 \<longleftrightarrow>
      ks_mem (k_dyn_scs s ! i) \<noteq> 0 \<and> (ks_pinned (k_dyn_scs s ! i) \<or> named s CAP_SCHED_CONTEXT (DYN_SC_BASE + i))"
    "k_mem (kobj_gc_locked s) = k_mem s"
proof -
  define m where "m = mark_reachable s"
  define s1 where "s1 = gc_sweep k_dyn_eps (gm_eps m) destroy_dyn_endpoint MAX_DYN_ENDPOINTS s"
  define s2 where "s2 = gc_sweep k_dyn_notifs (gm_notifs m) destroy_dyn_notification MAX_DYN_NOTIFICATIONS s1"
  define s3 where "s3 = gc_sweep k_dyn_frames (gm_frames m) destroy_dyn_frame MAX_DYN_FRAMES s2"
  have r: "kobj_gc_locked s = gc_sweep k_dyn_scs (gm_scs m) destroy_dyn_sc MAX_DYN_SCHED_CONTEXTS s3"
    unfolding kobj_gc_locked_def Let_def s3_def s2_def s1_def m_def ..
  have l: "length (k_dyn_eps s) = MAX_DYN_ENDPOINTS" "length (k_dyn_notifs s1) = MAX_DYN_NOTIFICATIONS"
    "length (k_dyn_frames s2) = MAX_DYN_FRAMES" "length (k_dyn_scs s3) = MAX_DYN_SCHED_CONTEXTS"
    using ok unfolding tables_ok_def s1_def s2_def s3_def by (simp_all only: sweep_frames)
  have busy: "frame_busy s2 i = frame_busy s i"
    unfolding frame_busy_def s2_def s1_def by (simp only: sweep_frames)
  note e = ep_sweep.sweep_exact[OF l(1), of i "gm_eps m"] notif_sweep.sweep_exact[OF l(2), of i "gm_notifs m"]
    frame_sweep.sweep_exact[OF l(3), of i "gm_frames m"] sc_sweep.sweep_exact[OF l(4), of i "gm_scs m"]
  note mk = mark_reachable_iff[of i s, folded m_def]
  show "i < MAX_DYN_ENDPOINTS \<Longrightarrow> ks_mem (k_dyn_eps (kobj_gc_locked s) ! i) \<noteq> 0 \<longleftrightarrow>
      ks_mem (k_dyn_eps s ! i) \<noteq> 0 \<and> (ks_pinned (k_dyn_eps s ! i) \<or> named s CAP_ENDPOINT (DYN_EP_BASE + i))"
    using e(1) mk(1) unfolding r s3_def s2_def by (simp only: sweep_frames s1_def simp_thms)
  show "i < MAX_DYN_NOTIFICATIONS \<Longrightarrow> ks_mem (k_dyn_notifs (kobj_gc_locked s) ! i) \<noteq> 0 \<longleftrightarrow>
      ks_mem (k_dyn_notifs s ! i) \<noteq> 0 \<and> (ks_pinned (k_dyn_notifs s ! i) \<or> named s CAP_NOTIFICATION (DYN_NOTIF_BASE + i))"
    using e(2) mk(2) unfolding r s3_def by (simp only: sweep_frames s1_def s2_def simp_thms)
  show "i < MAX_DYN_FRAMES \<Longrightarrow> ks_mem (k_dyn_frames (kobj_gc_locked s) ! i) \<noteq> 0 \<longleftrightarrow>
      ks_mem (k_dyn_frames s ! i) \<noteq> 0 \<and> (ks_pinned (k_dyn_frames s ! i) \<or> named s CAP_FRAME (DYN_FRAME_BASE + i)
        \<or> DYN_FRAME_BASE + i \<in> set (k_shlib s) \<or> frame_busy s i)"
    using e(3) mk(3) busy unfolding r by (simp only: sweep_frames s1_def s2_def s3_def simp_thms disj_assoc)
  show "i < MAX_DYN_SCHED_CONTEXTS \<Longrightarrow> ks_mem (k_dyn_scs (kobj_gc_locked s) ! i) \<noteq> 0 \<longleftrightarrow>
      ks_mem (k_dyn_scs s ! i) \<noteq> 0 \<and> (ks_pinned (k_dyn_scs s ! i) \<or> named s CAP_SCHED_CONTEXT (DYN_SC_BASE + i))"
    using e(4) mk(4) unfolding r by (simp only: sweep_frames s1_def s2_def s3_def simp_thms)
  show "k_mem (kobj_gc_locked s) = k_mem s" unfolding r s3_def s2_def s1_def by (simp only: sweep_frames)
qed

section \<open>Allocation of an endpoint\<close>

lemma upd_untyped_sel [simp]:
  "k_dyn_eps (upd_untyped u f s) = k_dyn_eps s" "k_eps (upd_untyped u f s) = k_eps s"
  "k_mem (upd_untyped u f s) = k_mem s" "k_tasks (upd_untyped u f s) = k_tasks s"
  "k_dyn_notifs (upd_untyped u f s) = k_dyn_notifs s" "k_dyn_frames (upd_untyped u f s) = k_dyn_frames s"
  "k_dyn_scs (upd_untyped u f s) = k_dyn_scs s" "k_arena (upd_untyped u f s) = k_arena s"
  by (simp_all add: upd_untyped_def)

lemma endpoint_alloc:
  assumes ar: "arena_ok s objs" and tb: "tables_ok s" and run: "kobj_alloc ui KOBJ_ENDPOINT pages s = (Some (mem, idx), s')"
  obtains i where "i < MAX_DYN_ENDPOINTS" "idx = DYN_EP_BASE + i" "ks_mem (k_dyn_eps s ! i) = 0" "mem \<noteq> 0"
    "k_dyn_eps s' = (k_dyn_eps s)[i := (k_dyn_eps s ! i)\<lparr> ks_mem := mem, ks_untyped := ui mod 2 ^ 16, ks_pinned := True \<rparr>]"
    "k_eps s' = (k_eps s)(DYN_EP_BASE + i := fresh_endpoint)" "tables_ok s'"
proof -
  from kobj_alloc_cases[OF ar run] obtain i s1 s2 ex where a: "kobj_index KOBJ_ENDPOINT s = Some i" "mem \<noteq> 0"
    "s1 = upd_untyped ui (\<lambda>u. u\<lparr> ut_watermark := ex \<rparr>) s"
    "kobj_place KOBJ_ENDPOINT ui 1 i mem s1 = (idx, s2)" "s' = upd_untyped ui (\<lambda>u. u\<lparr> ut_objects := ut_objects u + 1 \<rparr>) s2"
    unfolding Let_def by auto
  have f: "find_idx (\<lambda>k. ks_mem k = 0) (k_dyn_eps s) = Some i" using a(1) by (simp add: kobj_index_def dyn_ep_alloc_index_def)
  have i: "i < MAX_DYN_ENDPOINTS" "ks_mem (k_dyn_eps s ! i) = 0"
    using find_idx_Some[OF f] tb by (simp_all add: tables_ok_def)
  have o': "idx = DYN_EP_BASE + i" and s2: "s2 = s1\<lparr> k_eps := (k_eps s1)(DYN_EP_BASE + i := fresh_endpoint),
      k_dyn_eps := (k_dyn_eps s1)[i := (k_dyn_eps s1 ! i)\<lparr> ks_mem := mem, ks_untyped := ui mod 2 ^ 16, ks_pinned := True \<rparr>] \<rparr>"
    using a(4) unfolding kobj_place_def Let_def by auto
  show thesis
    by (rule that[OF i(1) o' i(2) a(2)]) (use tb in \<open>simp_all add: a(5) s2 a(3) tables_ok_def\<close>)
qed

section \<open>Properties\<close>

text \<open>C21. The collector is exact: what it destroys is precisely the retyped objects that
  are neither pinned nor named by a live capability in a cspace of a living task
  or in the root cnode; a frame is kept besides when it backs the shared library or
  is still mapped.  It changes no capability, so none is ever left naming a
  destroyed object that it kept alive.\<close>

theorem gc_exact:
  assumes "tables_ok s" and "s' = kobj_gc_locked s"
  shows "(\<forall>i<MAX_DYN_ENDPOINTS. ks_mem (k_dyn_eps s' ! i) \<noteq> 0 \<longleftrightarrow>
      ks_mem (k_dyn_eps s ! i) \<noteq> 0 \<and> (ks_pinned (k_dyn_eps s ! i) \<or> named s CAP_ENDPOINT (DYN_EP_BASE + i)))
   \<and> (\<forall>i<MAX_DYN_NOTIFICATIONS. ks_mem (k_dyn_notifs s' ! i) \<noteq> 0 \<longleftrightarrow>
      ks_mem (k_dyn_notifs s ! i) \<noteq> 0 \<and> (ks_pinned (k_dyn_notifs s ! i) \<or> named s CAP_NOTIFICATION (DYN_NOTIF_BASE + i)))
   \<and> (\<forall>i<MAX_DYN_FRAMES. ks_mem (k_dyn_frames s' ! i) \<noteq> 0 \<longleftrightarrow>
      ks_mem (k_dyn_frames s ! i) \<noteq> 0 \<and> (ks_pinned (k_dyn_frames s ! i) \<or> named s CAP_FRAME (DYN_FRAME_BASE + i)
        \<or> DYN_FRAME_BASE + i \<in> set (k_shlib s) \<or> frame_busy s i))
   \<and> (\<forall>i<MAX_DYN_SCHED_CONTEXTS. ks_mem (k_dyn_scs s' ! i) \<noteq> 0 \<longleftrightarrow>
      ks_mem (k_dyn_scs s ! i) \<noteq> 0 \<and> (ks_pinned (k_dyn_scs s ! i) \<or> named s CAP_SCHED_CONTEXT (DYN_SC_BASE + i)))
   \<and> k_mem s' = k_mem s"
  unfolding assms(2) using gc_tables[OF assms(1)] by blast

text \<open>Three retyped endpoints: the first named by the root cnode, the second pinned, the
  third neither.\<close>

definition three_eps :: kstate where
  "three_eps = zero_kstate\<lparr>
     k_mem := (\<lambda>_. null_cap)(Slot RootC 9 := \<lparr> c_typ = CAP_ENDPOINT, c_rights = 3, c_object = 320, c_badge = 0, c_serial = 7, c_token = 0 \<rparr>),
     k_dyn_eps := (replicate MAX_DYN_ENDPOINTS zero_slot)[0 := zero_slot\<lparr> ks_mem := 4096 \<rparr>,
        1 := zero_slot\<lparr> ks_mem := 8192, ks_pinned := True \<rparr>, 2 := zero_slot\<lparr> ks_mem := 12288 \<rparr>] \<rparr>"

theorem gc_exact_witness:
  "ks_mem (k_dyn_eps (kobj_gc_locked three_eps) ! 0) \<noteq> 0 \<and> ks_mem (k_dyn_eps (kobj_gc_locked three_eps) ! 1) \<noteq> 0
   \<and> ks_mem (k_dyn_eps (kobj_gc_locked three_eps) ! 2) = 0"
proof -
  have ok: "tables_ok three_eps" unfolding tables_ok_def three_eps_def zero_kstate_def
    by (simp only: kstate.simps length_list_update length_replicate simp_thms)
  have "Slot RootC 9 \<in> set (gc_slots three_eps)" by (simp add: gc_slots_def)
  hence n0: "named three_eps CAP_ENDPOINT 320" unfolding named_def
    by (rule bexI[rotated]) (simp add: names_def three_eps_def)
  have n2: "\<not> named three_eps CAP_ENDPOINT 322" by (auto simp: named_def names_def three_eps_def zero_kstate_def null_cap_def)
  have t: "ks_mem (k_dyn_eps three_eps ! 0) = 4096" "ks_mem (k_dyn_eps three_eps ! 1) = 8192" "ks_pinned (k_dyn_eps three_eps ! 1)"
    "\<not> ks_pinned (k_dyn_eps three_eps ! 2)"
    unfolding three_eps_def by (simp_all add: nth_list_update zero_slot_def)
  note e = gc_exact[OF ok refl, THEN conjunct1, rule_format]
  show ?thesis using e[of 0] e[of 1] e[of 2] t n0 n2 by simp
qed

text \<open>Retyping an endpoint either fails and changes nothing, or takes a descriptor
  that was free, leaves every other endpoint as it was, gives the caller an empty
  endpoint that nobody waits on, and that endpoint survives a collection that runs
  before any capability names it.\<close>

theorem endpoint_alloc_spec:
  assumes ar: "arena_ok s objs" and tb: "tables_ok s" and run: "kobj_alloc ui KOBJ_ENDPOINT pages s = (r, s')"
  shows "case r of None \<Rightarrow> s' = s
    | Some (mem, idx) \<Rightarrow> endpoint_by_index s idx = None \<and> k_eps s' idx = fresh_endpoint
        \<and> endpoint_by_index (kobj_gc_locked s') idx = Some idx
        \<and> (\<forall>j. j \<noteq> idx \<longrightarrow> endpoint_by_index s' j = endpoint_by_index s j \<and> k_eps s' j = k_eps s j)"
proof (cases r)
  case None
  thus ?thesis using kobj_alloc_cases[OF ar run] by auto
next
  case (Some a)
  obtain mem idx where r: "r = Some (mem, idx)" using Some by (cases a) simp
  obtain i where i: "i < MAX_DYN_ENDPOINTS" "idx = DYN_EP_BASE + i" "ks_mem (k_dyn_eps s ! i) = 0" "mem \<noteq> 0"
    "k_dyn_eps s' = (k_dyn_eps s)[i := (k_dyn_eps s ! i)\<lparr> ks_mem := mem, ks_untyped := ui mod 2 ^ 16, ks_pinned := True \<rparr>]"
    "k_eps s' = (k_eps s)(DYN_EP_BASE + i := fresh_endpoint)" "tables_ok s'"
    using endpoint_alloc[OF ar tb run[unfolded r]] by blast
  have "length (k_dyn_eps s) = MAX_DYN_ENDPOINTS" using tb by (simp add: tables_ok_def)
  hence "ks_mem (k_dyn_eps s' ! i) \<noteq> 0" "ks_pinned (k_dyn_eps s' ! i)" using i(1,4,5) by simp_all
  hence "ks_mem (k_dyn_eps (kobj_gc_locked s') ! i) \<noteq> 0" using gc_tables(1)[OF i(7,1)] by simp
  moreover have "j - DYN_EP_BASE \<noteq> i" if "j \<noteq> idx" "DYN_EP_BASE \<le> j" for j using that i(2) by simp
  ultimately show ?thesis using i(1-3,5,6) unfolding r by (simp add: endpoint_by_index_def not_less)
qed

text \<open>The arena with its two boot regions.\<close>

definition boot_arena :: kstate where
  "boot_arena = untyped_init (zero_kstate\<lparr> k_arena := 0x10000 \<rparr>)"

lemma untyped_init_regions:
  "length (k_untypeds (untyped_init s)) = MAX_UNTYPED"
  "ui < MAX_UNTYPED \<Longrightarrow> k_untypeds (untyped_init s) ! ui =
     (if ui = 0 then \<lparr> ut_base = 0, ut_size = 0x300000, ut_watermark = 0, ut_objects = 0, ut_in_use = True \<rparr>
      else if ui = 1 then \<lparr> ut_base = 0x300000, ut_size = 0x380000, ut_watermark = 0, ut_objects = 0, ut_in_use = True \<rparr>
      else zero_untyped)"
proof -
  have k: "align_up (of_nat UNTYPED_KERNEL_BYTES) (of_nat PAGE_SIZE) = 0x300000" by (simp add: align_up_def)
  have z: "(of_nat UNTYPED_ARENA_BYTES - 0x300000 :: u64) = 0x380000" by simp
  show "length (k_untypeds (untyped_init s)) = MAX_UNTYPED"
    unfolding untyped_init_def Let_def by simp
  show "ui < MAX_UNTYPED \<Longrightarrow> k_untypeds (untyped_init s) ! ui =
     (if ui = 0 then \<lparr> ut_base = 0, ut_size = 0x300000, ut_watermark = 0, ut_objects = 0, ut_in_use = True \<rparr>
      else if ui = 1 then \<lparr> ut_base = 0x300000, ut_size = 0x380000, ut_watermark = 0, ut_objects = 0, ut_in_use = True \<rparr>
      else zero_untyped)"
    unfolding untyped_init_def Let_def k z by (simp add: nth_list_update)
qed

lemma untyped_init_arena:
  assumes "k_arena s \<noteq> 0" "unat (k_arena s) + UNTYPED_ARENA_BYTES < 2 ^ 64"
  shows "arena_ok (untyped_init s) []"
proof -
  have a: "k_arena (untyped_init s) = k_arena s" by (simp add: untyped_init_def Let_def)
  have f: "free_bytes (untyped_init s) ui = (if ui = 0 then {0..<0x300000} else if ui = 1 then {0x300000..<0x680000} else {})"
    if "ui < MAX_UNTYPED" for ui
    using untyped_init_regions(2)[OF that, of s] by (simp add: free_bytes_def zero_untyped_def)
  have "region_ok (untyped_init s) ui" if "ui < MAX_UNTYPED" for ui
    using untyped_init_regions(2)[OF that, of s] by (simp add: region_ok_def zero_untyped_def)
  moreover have "free_bytes (untyped_init s) a \<inter> free_bytes (untyped_init s) b = {}" if "a < MAX_UNTYPED" "b < MAX_UNTYPED" "a \<noteq> b" for a b
    using that by (auto simp: f)
  moreover have "arena_placed (untyped_init s)" using assms untyped_init_regions(1) by (simp add: arena_placed_def a)
  ultimately show ?thesis by (simp add: arena_ok_def)
qed

theorem endpoint_alloc_spec_witness:
  "\<exists>mem s'. kobj_alloc UNTYPED_ROOT KOBJ_ENDPOINT 0 boot_arena = (Some (mem, DYN_EP_BASE), s')
     \<and> endpoint_by_index (kobj_gc_locked s') DYN_EP_BASE = Some DYN_EP_BASE"
proof -
  have ar: "arena_ok boot_arena []" unfolding boot_arena_def by (rule untyped_init_arena) simp_all
  have eps: "k_dyn_eps boot_arena = map (\<lambda>k. k\<lparr> ks_mem := 0, ks_untyped := 0 \<rparr>) (k_dyn_eps zero_kstate)"
    by (simp add: boot_arena_def untyped_init_def Let_def)
  have tb: "tables_ok boot_arena" unfolding tables_ok_def boot_arena_def untyped_init_def Let_def zero_kstate_def
    by (simp only: kstate.simps length_map length_replicate simp_thms)
  have ix: "kobj_index KOBJ_ENDPOINT boot_arena = Some 0"
    by (simp add: kobj_index_def dyn_ep_alloc_index_def eps zero_kstate_def numeral_eq_Suc)
  have u: "k_untypeds boot_arena ! 1 = \<lparr> ut_base = 0x300000, ut_size = 0x380000, ut_watermark = 0, ut_objects = 0, ut_in_use = True \<rparr>"
    "k_arena boot_arena = 0x10000"
    using untyped_init_regions(2)[of 1] by (simp_all add: boot_arena_def untyped_init_def Let_def)
  obtain r s' where run: "kobj_alloc UNTYPED_ROOT KOBJ_ENDPOINT 0 boot_arena = (r, s')" by (metis prod.exhaust)
  have "fst (untyped_bump 1 1280 64 boot_arena) \<noteq> 0" by (simp add: untyped_bump_def u[simplified] Let_def)
  hence "\<exists>mem. r = Some (mem, DYN_EP_BASE)" using run
    by (auto simp: kobj_alloc_def kobj_size_def kobj_align_def ix Let_def kobj_place_def split: prod.splits)
  thus ?thesis using endpoint_alloc_spec[OF ar tb run] run by auto
qed

text \<open>A run of allocations, logging the region and the bytes of each object.\<close>

fun alloc_step :: "nat \<times> nat \<times> nat \<Rightarrow> kstate \<times> (nat \<times> nat \<times> nat) list \<Rightarrow> kstate \<times> (nat \<times> nat \<times> nat) list" where
  "alloc_step (ui, ty, pages) (s, objs) =
    (case kobj_alloc ui ty pages s of
       (None, s') \<Rightarrow> (s', objs)
     | (Some (mem, out), s') \<Rightarrow>
         (s', (ui, unat mem - unat (k_arena s), unat (kobj_size ty (if ty = KOBJ_FRAME \<and> pages \<noteq> 0 then pages else 1))) # objs))"

definition region_bytes :: "kstate \<Rightarrow> nat \<Rightarrow> nat set" where
  "region_bytes s ui = (let u = k_untypeds s ! ui in
     if ui < MAX_UNTYPED \<and> ut_in_use u then {unat (ut_base u) ..< unat (ut_base u) + unat (ut_size u)} else {})"

text \<open>An allocation moves no region, and what it takes lies in the region it names.\<close>

lemma kobj_alloc_region:
  assumes ok: "arena_ok s objs" and run: "kobj_alloc ui ty pages s = (r, s')"
  shows "region_bytes s' = region_bytes s"
    and "r = Some (mem, out) \<Longrightarrow> obj_bytes (unat mem - unat (k_arena s), unat (kobj_size ty (if ty = KOBJ_FRAME \<and> pages \<noteq> 0 then pages else 1)))
           \<subseteq> region_bytes s ui"
proof -
  have l: "length (k_untypeds s) = MAX_UNTYPED" using arena_okD(1)[OF ok] by (simp add: arena_placed_def)
  note C = kobj_alloc_cases[OF ok run, unfolded Let_def]
  show "region_bytes s' = region_bytes s"
    using C
  proof (elim disjE exE conjE)
    fix mem' idx out' s1 s2 off
    define w where "w = (of_nat (off + unat (kobj_size ty (if ty = KOBJ_FRAME \<and> pages \<noteq> 0 then pages else 1))) :: u64)"
    assume "s1 = upd_untyped ui (\<lambda>u. u\<lparr> ut_watermark := of_nat (off + unat (kobj_size ty (if ty = KOBJ_FRAME \<and> pages \<noteq> 0 then pages else 1))) \<rparr>) s"
      and p: "kobj_place ty ui (if ty = KOBJ_FRAME \<and> pages \<noteq> 0 then pages else 1) idx mem' s1 = (out', s2)"
      and s': "s' = upd_untyped ui (\<lambda>u. u\<lparr> ut_objects := ut_objects u + 1 \<rparr>) s2"
    hence s1: "s1 = upd_untyped ui (\<lambda>u. u\<lparr> ut_watermark := w \<rparr>) s" by (simp add: w_def)
    have "arena_view s' = arena_view s1" unfolding s' arena_view_objects using kobj_place_view[OF p] .
    note v = arena_view_nth[OF this]
    have l1: "length (k_untypeds s1) = MAX_UNTYPED" using l by (simp add: s1 upd_untyped_def)
    have "ut_base (k_untypeds s1 ! uj) = ut_base (k_untypeds s ! uj) \<and> ut_size (k_untypeds s1 ! uj) = ut_size (k_untypeds s ! uj)
        \<and> ut_in_use (k_untypeds s1 ! uj) = ut_in_use (k_untypeds s ! uj)" if "uj < MAX_UNTYPED" for uj
      using that l by (cases "uj = ui") (simp_all add: s1 upd_untyped_def)
    thus ?thesis using v(3) l1 by (auto simp: fun_eq_iff region_bytes_def Let_def)
  qed simp
  show "obj_bytes (unat mem - unat (k_arena s), unat (kobj_size ty (if ty = KOBJ_FRAME \<and> pages \<noteq> 0 then pages else 1))) \<subseteq> region_bytes s ui"
    if m: "r = Some (mem, out)"
  proof -
    define len where "len = unat (kobj_size ty (if ty = KOBJ_FRAME \<and> pages \<noteq> 0 then pages else 1))"
    obtain off where "ui < MAX_UNTYPED" "ut_in_use (k_untypeds s ! ui)" "off + len \<le> unat (ut_size (k_untypeds s ! ui))"
      "unat mem = unat (k_arena s) + unat (ut_base (k_untypeds s ! ui)) + off"
      using C[unfolded m] unfolding len_def by auto
    thus ?thesis unfolding len_def[symmetric] by (auto simp: region_bytes_def obj_bytes_def Let_def)
  qed
qed

definition log_ok :: "kstate \<Rightarrow> (nat \<times> nat \<times> nat) list \<Rightarrow> bool" where
  "log_ok s objs \<longleftrightarrow> arena_ok s (map snd objs) \<and> list_all (\<lambda>x. obj_bytes (snd x) \<subseteq> region_bytes s (fst x)) objs"

lemma alloc_step_log:
  assumes "log_ok s objs" "alloc_step req (s, objs) = (s', objs')"
  shows "log_ok s' objs' \<and> region_bytes s' = region_bytes s"
proof -
  obtain ui ty pages where q: "req = (ui, ty, pages)" by (metis prod_cases3)
  obtain r t where run: "kobj_alloc ui ty pages s = (r, t)" by (metis prod.exhaust)
  have ok: "arena_ok s (map snd objs)" using assms(1) by (simp add: log_ok_def)
  note g = kobj_alloc_region[OF ok run]
  show ?thesis
  proof (cases r)
    case None
    thus ?thesis using assms kobj_alloc_cases[OF ok run] by (simp add: q run)
  next
    case (Some mo)
    obtain mem out where m: "r = Some (mem, out)" using Some by (cases mo) simp
    show ?thesis using assms kobj_alloc_arena[OF ok, of ui ty pages mem out t] run m g(1) g(2)[OF m] unfolding q log_ok_def by auto
  qed
qed

lemma alloc_run_log:
  assumes "log_ok s objs" "fold alloc_step reqs (s, objs) = (s', objs')"
  shows "log_ok s' objs' \<and> region_bytes s' = region_bytes s"
  using assms
proof (induction reqs arbitrary: s objs)
  case (Cons q reqs)
  obtain t o1 where a: "alloc_step q (s, objs) = (t, o1)" by (metis prod.exhaust)
  show ?case using Cons.IH[of t o1] Cons.prems alloc_step_log[OF Cons.prems(1) a] a by simp
qed simp

text \<open>C9. The arena is handed out once: from boot on, any sequence of allocations of any
  kinds from any regions, those that fail included, yields objects that never overlap one another, and
  each lies in the part of the arena that was laid out at boot as the region it was taken from.\<close>

theorem arena_handed_out_once:
  assumes "k_arena s \<noteq> 0" "unat (k_arena s) + UNTYPED_ARENA_BYTES < 2 ^ 64"
    and "fold alloc_step reqs (untyped_init s, []) = (s', objs)"
  shows "sorted_wrt (\<lambda>x y. obj_bytes (snd x) \<inter> obj_bytes (snd y) = {}) objs
    \<and> (\<forall>x\<in>set objs. obj_bytes (snd x) \<subseteq> region_bytes (untyped_init s) (fst x) \<and> obj_bytes (snd x) \<subseteq> {..<UNTYPED_ARENA_BYTES})"
proof -
  have "log_ok (untyped_init s) []" using untyped_init_arena[OF assms(1,2)] by (simp add: log_ok_def)
  from alloc_run_log[OF this assms(3)] have l: "log_ok s' objs" "region_bytes s' = region_bytes (untyped_init s)" by blast+
  have "fst (snd x) + snd (snd x) \<le> UNTYPED_ARENA_BYTES" if "x \<in> set objs" for x
    using l(1) that unfolding log_ok_def arena_ok_def by auto
  hence "obj_bytes (snd x) \<subseteq> {..<UNTYPED_ARENA_BYTES}" if "x \<in> set objs" for x
    using that by (fastforce simp: obj_bytes_def)
  moreover have "sorted_wrt (\<lambda>x y. obj_bytes (snd x) \<inter> obj_bytes (snd y) = {}) objs"
    using l(1) by (simp add: log_ok_def arena_ok_def sorted_wrt_map)
  ultimately show ?thesis using l by (simp add: log_ok_def list_all_iff)
qed

theorem arena_handed_out_once_witness:
  "\<exists>s' objs. fold alloc_step [(1, KOBJ_ENDPOINT, 0), (1, KOBJ_FRAME, 2), (0, KOBJ_CNODE, 0)] (boot_arena, []) = (s', objs)
     \<and> sorted_wrt (\<lambda>x y. obj_bytes (snd x) \<inter> obj_bytes (snd y) = {}) objs"
proof -
  obtain s' objs where "fold alloc_step [(1, KOBJ_ENDPOINT, 0), (1, KOBJ_FRAME, 2), (0, KOBJ_CNODE, 0)]
      (untyped_init (zero_kstate\<lparr> k_arena := 0x10000 \<rparr>), []) = (s', objs)" by (metis prod.exhaust)
  from arena_handed_out_once[OF _ _ this] this show ?thesis by (auto simp: boot_arena_def)
qed

end
