(* ===== verification/Pipe_Pool.thy ===== *)
theory Pipe_Pool
  imports Kernel_State
begin

text \<open>
  The pipe pool of \<^verbatim>\<open>src/kernel/pipe.c\<close>: allocation with a generation,
  resolution of a capability object to a pipe, the counts of reader and writer
  ends, release of the ends a revocation removed, and the ring buffer itself.
  \<open>head\<close> and \<open>count\<close> stay below \<open>PIPE_BUF_BYTES\<close>, so the 32-bit arithmetic on them
  is that of \<open>nat\<close>; the end counts keep their width.

  A pipe refines a bounded byte queue: the contents in order are a list, a write
  appends what fits, a read takes from the front.  The interface \<open>byte_stream\<close>
  states this, the theorem that no byte is lost, duplicated or reordered is
  proved in it once, and the ring buffer interprets it.  The other lemmas give
  every error branch, the generation discipline and that a freed pipe is
  scrubbed.
\<close>

section \<open>Objects\<close>

definition pipe_obj :: "nat \<Rightarrow> u32 \<Rightarrow> u64" where
  "pipe_obj idx gen = push_bit 32 (ucast gen) OR of_nat idx"

definition pipe_alloc :: "pipe list \<Rightarrow> u64 \<times> pipe list" where
  "pipe_alloc ps =
    (case find_idx (\<lambda>p. \<not> p_in_use p) ps of
       None \<Rightarrow> (0, ps)
     | Some i \<Rightarrow>
         let p = ps ! i;
             gen1 = p_gen p + 1;
             gen = (if gen1 = 0 \<or> gen1 = PIPE_TALLY_GEN_MIXED then 1 else gen1)
         in (pipe_obj i gen,
             ps[i := p\<lparr> p_in_use := True, p_gen := gen, p_head := 0, p_count := 0,
                        p_reader_ends := 0, p_writer_ends := 0 \<rparr>]))"

definition pipe_of :: "pipe list \<Rightarrow> u64 \<Rightarrow> nat option" where
  "pipe_of ps obj =
    (let idx = pipe_obj_idx obj in
     if idx \<ge> MAX_PIPES then None
     else if \<not> p_in_use (ps ! idx) then None
     else if p_gen (ps ! idx) \<noteq> pipe_obj_gen obj then None
     else Some idx)"

section \<open>End counts\<close>

definition pipe_end_ref :: "u64 \<Rightarrow> bool \<Rightarrow> pipe list \<Rightarrow> bool \<times> pipe list" where
  "pipe_end_ref obj is_writer ps =
    (case pipe_of ps obj of
       None \<Rightarrow> (False, ps)
     | Some i \<Rightarrow>
         let p = ps ! i in
         (True, ps[i := if is_writer then p\<lparr> p_writer_ends := p_writer_ends p + 1 \<rparr>
                        else p\<lparr> p_reader_ends := p_reader_ends p + 1 \<rparr>]))"

definition pipe_free_if_unheld :: "pipe \<Rightarrow> pipe" where
  "pipe_free_if_unheld p =
    (if p_reader_ends p = 0 \<and> p_writer_ends p = 0
     then p\<lparr> p_buf := replicate PIPE_BUF_BYTES 0, p_in_use := False, p_head := 0, p_count := 0 \<rparr>
     else p)"

definition pipe_end_unref :: "u64 \<Rightarrow> bool \<Rightarrow> pipe list \<Rightarrow> pipe list" where
  "pipe_end_unref obj is_writer ps =
    (case pipe_of ps obj of
       None \<Rightarrow> ps
     | Some i \<Rightarrow>
         let p = ps ! i;
             p1 = (if is_writer
                   then (if p_writer_ends p \<noteq> 0 then p\<lparr> p_writer_ends := p_writer_ends p - 1 \<rparr> else p)
                   else (if p_reader_ends p \<noteq> 0 then p\<lparr> p_reader_ends := p_reader_ends p - 1 \<rparr> else p))
         in ps[i := pipe_free_if_unheld p1])"

definition release_one :: "u32 list \<Rightarrow> nat \<Rightarrow> bool \<times> pipe list \<Rightarrow> bool \<times> pipe list" where
  "release_one tally i st =
    (let (exact, ps) = st;
         readers = tally ! (PIPE_TALLY_CELLS * i);
         writers = tally ! (PIPE_TALLY_CELLS * i + 1);
         gen = tally ! (PIPE_TALLY_CELLS * i + 2)
     in if readers = 0 \<and> writers = 0 then st
        else case (if gen = PIPE_TALLY_GEN_MIXED then None else pipe_of ps (pipe_obj i gen)) of
               None \<Rightarrow> (False, ps)
             | Some k \<Rightarrow>
                 let p = ps ! k;
                     p1 = p\<lparr> p_reader_ends := if readers > p_reader_ends p then 0
                                               else p_reader_ends p - readers,
                             p_writer_ends := if writers > p_writer_ends p then 0
                                               else p_writer_ends p - writers \<rparr>
                 in (if readers > p_reader_ends p \<or> writers > p_writer_ends p then False else exact,
                     ps[k := pipe_free_if_unheld p1]))"

definition pipe_release_revoked_ends :: "pipe_tally \<Rightarrow> pipe list \<Rightarrow> bool \<times> pipe list" where
  "pipe_release_revoked_ends tally ps =
    (case tally of
       None \<Rightarrow> (True, ps)
     | Some cells \<Rightarrow>
         let n = length cells div PIPE_TALLY_CELLS;
             n = (if n > MAX_PIPES then MAX_PIPES else n)
         in fold (release_one cells) [0..<n] (True, ps))"

section \<open>Bytes\<close>

text \<open>The copy loops under the lock: \<open>n\<close> bytes out of the ring, and \<open>n\<close> bytes
  into it.\<close>

definition ring_get :: "nat \<Rightarrow> pipe \<Rightarrow> u8 list \<times> pipe" where
  "ring_get n p =
    (map (\<lambda>i. p_buf p ! ((p_head p + i) mod PIPE_BUF_BYTES)) [0..<n],
     p\<lparr> p_head := (p_head p + n) mod PIPE_BUF_BYTES, p_count := p_count p - n \<rparr>)"

definition ring_store :: "nat \<Rightarrow> u8 list \<Rightarrow> nat \<Rightarrow> u8 list \<Rightarrow> u8 list" where
  "ring_store tail src n buf =
    fold (\<lambda>i b. b[(tail + i) mod PIPE_BUF_BYTES := src ! i]) [0..<n] buf"

definition ring_put :: "u8 list \<Rightarrow> nat \<Rightarrow> pipe \<Rightarrow> pipe" where
  "ring_put src n p =
    (let tail = (p_head p + p_count p) mod PIPE_BUF_BYTES in
     p\<lparr> p_buf := ring_store tail src n (p_buf p), p_count := p_count p + n \<rparr>)"

definition pipe_read_bytes :: "u64 \<Rightarrow> nat \<Rightarrow> pipe list \<Rightarrow> int \<times> u8 list \<times> pipe list" where
  "pipe_read_bytes obj len ps =
    (case pipe_of ps obj of
       None \<Rightarrow> (SYS_ERR_INVAL, [], ps)
     | Some k \<Rightarrow>
         let p = ps ! k in
         if p_count p = 0
         then (if p_writer_ends p \<noteq> 0 then SYS_ERR_AGAIN else 0, [], ps)
         else let n = (if p_count p < len then p_count p else len);
                  (dst, p') = ring_get n p
              in (int n, dst, ps[k := p']))"

definition pipe_write_bytes :: "u64 \<Rightarrow> u8 list \<Rightarrow> nat \<Rightarrow> pipe list \<Rightarrow> int \<times> pipe list" where
  "pipe_write_bytes obj src len ps =
    (case pipe_of ps obj of
       None \<Rightarrow> (SYS_ERR_INVAL, ps)
     | Some k \<Rightarrow>
         let p = ps ! k in
         if p_reader_ends p = 0 then (SYS_ERR_PIPE, ps)
         else let space = PIPE_BUF_BYTES - p_count p in
           if space = 0 then (SYS_ERR_AGAIN, ps)
           else let n = (if len < space then len else space)
                in (int n, ps[k := ring_put src n p]))"

section \<open>Resolution and generations\<close>

lemma and_low32: "(x :: u64) AND 0xFFFFFFFF = take_bit 32 x"
  by (simp add: take_bit_eq_mask mask_eq_exp_minus_1)

lemma pipe_obj_round_trip:
  assumes "i < 2 ^ 32"
  shows "pipe_obj_idx (pipe_obj i g) = i" "pipe_obj_gen (pipe_obj i g) = g"
proof -
  have i: "unat (of_nat i :: u64) = i" using assms by (simp add: unsigned_of_nat take_bit_eq_mod)
  have lo: "(pipe_obj i g AND 0xFFFFFFFF) = of_nat i"
  proof (rule bit_word_eqI)
    fix n assume "n < LENGTH(64)"
    have "bit (of_nat i :: u64) n \<Longrightarrow> n < 32"
    proof -
      assume "bit (of_nat i :: u64) n"
      then have "bit i n" by (simp add: bit_of_nat_iff)
      then show "n < 32" using assms by (metis bit_take_bit_iff take_bit_nat_eq_self)
    qed
    then show "bit (pipe_obj i g AND 0xFFFFFFFF) n = bit (of_nat i :: u64) n"
      by (auto simp: pipe_obj_def bit_simps and_low32)
  qed
  then show "pipe_obj_idx (pipe_obj i g) = i" by (simp add: pipe_obj_idx_def i)
  show "pipe_obj_gen (pipe_obj i g) = g"
  proof (rule bit_word_eqI)
    fix n assume "n < LENGTH(32)"
    moreover have "\<not> bit i (32 + n)" using assms by (metis bit_take_bit_iff not_add_less1 take_bit_nat_eq_self)
    ultimately show "bit (pipe_obj_gen (pipe_obj i g)) n = bit g n"
      by (auto simp: pipe_obj_gen_def pipe_obj_def bit_simps add.commute)
  qed
qed

lemma pipe_of_Some_iff:
  "pipe_of ps obj = Some i \<longleftrightarrow>
    i = pipe_obj_idx obj \<and> i < MAX_PIPES \<and> p_in_use (ps ! i) \<and> p_gen (ps ! i) = pipe_obj_gen obj"
  by (auto simp: pipe_of_def Let_def)

section \<open>A bounded byte stream\<close>

text \<open>The contract of a queue moved in blocks: \<open>put xs n\<close> appends the first \<open>n\<close>
  elements of \<open>xs\<close> when they fit, \<open>get n\<close> takes \<open>n\<close> from the front.\<close>

locale byte_stream =
  fixes put :: "'a list \<Rightarrow> nat \<Rightarrow> 'q \<Rightarrow> 'q"
    and get :: "nat \<Rightarrow> 'q \<Rightarrow> 'a list \<times> 'q"
    and contents :: "'q \<Rightarrow> 'a list"
    and invar :: "'q \<Rightarrow> bool"
    and capacity :: nat
  assumes bounded: "invar q \<Longrightarrow> length (contents q) \<le> capacity"
    and put_invar: "invar q \<Longrightarrow> length (contents q) + n \<le> capacity \<Longrightarrow> invar (put xs n q)"
    and put_contents: "invar q \<Longrightarrow> length (contents q) + n \<le> capacity \<Longrightarrow> n \<le> length xs
          \<Longrightarrow> contents (put xs n q) = contents q @ take n xs"
    and get_invar: "invar q \<Longrightarrow> n \<le> length (contents q) \<Longrightarrow> invar (snd (get n q))"
    and get_out: "invar q \<Longrightarrow> n \<le> length (contents q) \<Longrightarrow> fst (get n q) = take n (contents q)"
    and get_contents: "invar q \<Longrightarrow> n \<le> length (contents q)
          \<Longrightarrow> contents (snd (get n q)) = drop n (contents q)"
begin

text \<open>\<open>moves ins outs q q'\<close>: on the way from \<open>q\<close> to \<open>q'\<close>, \<open>ins\<close> went in and \<open>outs\<close>
  came out, in order, with nothing lost or invented.\<close>

definition moves :: "'a list \<Rightarrow> 'a list \<Rightarrow> 'q \<Rightarrow> 'q \<Rightarrow> bool" where
  "moves ins outs q q' \<longleftrightarrow> invar q' \<and> contents q @ ins = outs @ contents q'"

lemma moves_refl: "invar q \<Longrightarrow> moves [] [] q q"
  by (simp add: moves_def)

lemma moves_put:
  "invar q \<Longrightarrow> length (contents q) + n \<le> capacity \<Longrightarrow> n \<le> length xs
    \<Longrightarrow> moves (take n xs) [] q (put xs n q)"
  by (simp add: moves_def put_invar put_contents)

lemma moves_get:
  "invar q \<Longrightarrow> n \<le> length (contents q) \<Longrightarrow> moves [] (fst (get n q)) q (snd (get n q))"
  by (simp add: moves_def get_invar get_out get_contents)

lemma moves_trans: "moves i1 o1 q r \<Longrightarrow> moves i2 o2 r s \<Longrightarrow> moves (i1 @ i2) (o1 @ o2) q s"
  unfolding moves_def by (metis append.assoc)

lemma moves_bounded: "moves ins outs q q' \<Longrightarrow> length (contents q') \<le> capacity"
  by (simp add: moves_def bounded)

end

definition pipe_contents :: "pipe \<Rightarrow> u8 list" where
  "pipe_contents p = map (\<lambda>i. p_buf p ! ((p_head p + i) mod PIPE_BUF_BYTES)) [0..<p_count p]"

definition ring_ok :: "pipe \<Rightarrow> bool" where
  "ring_ok p \<longleftrightarrow> length (p_buf p) = PIPE_BUF_BYTES \<and> p_head p < PIPE_BUF_BYTES
     \<and> p_count p \<le> PIPE_BUF_BYTES"

lemma length_pipe_contents [simp]: "length (pipe_contents p) = p_count p"
  by (simp add: pipe_contents_def)

lemma length_ring_store [simp]: "length (ring_store t src n buf) = length buf"
proof -
  have "length (fold (\<lambda>i b. b[(t + i) mod PIPE_BUF_BYTES := src ! i]) xs buf) = length buf" for xs
    by (induction xs arbitrary: buf) auto
  then show ?thesis by (simp add: ring_store_def)
qed

lemma ring_index_inj:
  assumes "i < PIPE_BUF_BYTES" "j < PIPE_BUF_BYTES"
  shows "((t + i) mod PIPE_BUF_BYTES = (t + j) mod PIPE_BUF_BYTES) = (i = j)"
proof
  have le: "i = j" if ij: "i \<le> j" "j < PIPE_BUF_BYTES" "(t + j) mod PIPE_BUF_BYTES = (t + i) mod PIPE_BUF_BYTES"
    for i j :: nat
  proof -
    obtain q where "t + j = t + i + PIPE_BUF_BYTES * q"
      using mod_eq_nat1E[OF ij(3)] ij(1) by auto
    then show ?thesis using ij(1,2) by (cases q) auto
  qed
  show "(t + i) mod PIPE_BUF_BYTES = (t + j) mod PIPE_BUF_BYTES \<Longrightarrow> i = j"
    using le[of i j] le[of j i] assms by (cases "i \<le> j") auto
qed simp

lemma ring_store_nth:
  assumes "length buf = PIPE_BUF_BYTES" "n \<le> PIPE_BUF_BYTES" "j < PIPE_BUF_BYTES"
  shows "ring_store t src n buf ! ((t + j) mod PIPE_BUF_BYTES) =
    (if j < n then src ! j else buf ! ((t + j) mod PIPE_BUF_BYTES))"
  using assms(2)
proof (induction n)
  case (Suc n)
  have "ring_store t src (Suc n) buf = (ring_store t src n buf)[(t + n) mod PIPE_BUF_BYTES := src ! n]"
    by (simp add: ring_store_def)
  then show ?case using Suc assms(1,3) ring_index_inj[of j n t] by (auto simp: nth_list_update less_Suc_eq)
qed (simp add: ring_store_def)

lemma ring_put_ok: "ring_ok p \<Longrightarrow> p_count p + n \<le> PIPE_BUF_BYTES \<Longrightarrow> ring_ok (ring_put src n p)"
  by (simp add: ring_ok_def ring_put_def Let_def)

lemma ring_put_contents:
  assumes "ring_ok p" "p_count p + n \<le> PIPE_BUF_BYTES" "n \<le> length src"
  shows "pipe_contents (ring_put src n p) = pipe_contents p @ take n src"
proof (rule nth_equalityI)
  show "length (pipe_contents (ring_put src n p)) = length (pipe_contents p @ take n src)"
    using assms by (simp add: ring_put_def Let_def)
  fix i assume "i < length (pipe_contents (ring_put src n p))"
  then have i: "i < p_count p + n" by (simp add: ring_put_def Let_def)
  let ?t = "(p_head p + p_count p) mod PIPE_BUF_BYTES"
  define j where "j = (if i < p_count p then i + (PIPE_BUF_BYTES - p_count p) else i - p_count p)"
  have j: "j < PIPE_BUF_BYTES" "(?t + j) mod PIPE_BUF_BYTES = (p_head p + i) mod PIPE_BUF_BYTES"
    "j < n \<longleftrightarrow> \<not> i < p_count p"
    using assms(1,2) i by (auto simp: j_def ring_ok_def mod_simps add.assoc[symmetric])
  have "pipe_contents (ring_put src n p) ! i =
      ring_store ?t src n (p_buf p) ! ((p_head p + i) mod PIPE_BUF_BYTES)"
    using i by (simp add: pipe_contents_def ring_put_def Let_def)
  also have "\<dots> = (if j < n then src ! j else p_buf p ! ((p_head p + i) mod PIPE_BUF_BYTES))"
    using ring_store_nth[of "p_buf p" n j ?t src] assms(1,2) j by (simp add: ring_ok_def)
  also have "\<dots> = (pipe_contents p @ take n src) ! i"
    using i j(3) by (auto simp: nth_append pipe_contents_def j_def)
  finally show "pipe_contents (ring_put src n p) ! i = (pipe_contents p @ take n src) ! i" .
qed

lemma ring_get_out:
  "n \<le> p_count p \<Longrightarrow> fst (ring_get n p) = take n (pipe_contents p)"
  by (simp add: ring_get_def pipe_contents_def take_map)

lemma ring_get_contents:
  "n \<le> p_count p \<Longrightarrow> pipe_contents (snd (ring_get n p)) = drop n (pipe_contents p)"
  by (rule nth_equalityI) (auto simp: ring_get_def pipe_contents_def mod_simps add.assoc add.commute add.left_commute)

lemma ring_get_ok: "ring_ok p \<Longrightarrow> ring_ok (snd (ring_get n p))"
  by (auto simp: ring_ok_def ring_get_def)

interpretation ring: byte_stream ring_put ring_get pipe_contents ring_ok PIPE_BUF_BYTES
proof
  show "ring_ok q \<Longrightarrow> length (pipe_contents q) \<le> PIPE_BUF_BYTES" for q
    by (simp add: ring_ok_def)
qed (simp_all add: ring_put_ok ring_put_contents ring_get_ok ring_get_out ring_get_contents)

section \<open>The pool invariant\<close>

definition pipe_ok :: "pipe \<Rightarrow> bool" where
  "pipe_ok p \<longleftrightarrow> ring_ok p \<and>
    (\<not> p_in_use p \<longrightarrow> p_count p = 0 \<and> p_head p = 0 \<and> p_buf p = replicate PIPE_BUF_BYTES 0)"

definition pool_ok :: "pipe list \<Rightarrow> bool" where
  "pool_ok ps \<longleftrightarrow> length ps = MAX_PIPES \<and> (\<forall>i<MAX_PIPES. pipe_ok (ps ! i))"

lemma pool_okD: "pool_ok ps \<Longrightarrow> length ps = MAX_PIPES" "pool_ok ps \<Longrightarrow> i < MAX_PIPES \<Longrightarrow> pipe_ok (ps ! i)"
  by (simp_all add: pool_ok_def)

lemma pool_ok_upd: "pool_ok ps \<Longrightarrow> pipe_ok p \<Longrightarrow> pool_ok (ps[i := p])"
  by (cases "i < length ps") (auto simp: pool_ok_def nth_list_update list_update_beyond)

lemma pipe_of_upd:
  "k < length ps \<Longrightarrow> p_in_use p = p_in_use (ps ! k) \<Longrightarrow> p_gen p = p_gen (ps ! k)
    \<Longrightarrow> pipe_of (ps[k := p]) obj = pipe_of ps obj"
  by (auto simp: pipe_of_def Let_def nth_list_update)

lemma pipe_of_less: "pipe_of ps obj = Some k \<Longrightarrow> k < MAX_PIPES"
  by (simp add: pipe_of_Some_iff)

lemma pipe_free_if_unheld_ok:
  "ring_ok p \<Longrightarrow> p_in_use p \<Longrightarrow> pipe_ok (pipe_free_if_unheld p)"
  by (auto simp: pipe_free_if_unheld_def pipe_ok_def ring_ok_def)

lemma pipe_alloc_pool:
  assumes "pool_ok ps" shows "pool_ok (snd (pipe_alloc ps))"
proof (cases "find_idx (\<lambda>p. \<not> p_in_use p) ps")
  case (Some i)
  then have "pipe_ok (ps ! i)" using find_idx_Some[OF Some] assms by (simp add: pool_ok_def)
  then show ?thesis
    using Some assms by (auto simp: pipe_alloc_def Let_def pipe_ok_def ring_ok_def intro!: pool_ok_upd)
qed (use assms in \<open>simp add: pipe_alloc_def\<close>)

lemma pipe_end_ref_pool: "pool_ok ps \<Longrightarrow> pool_ok (snd (pipe_end_ref obj w ps))"
  by (auto simp: pipe_end_ref_def Let_def pipe_of_Some_iff pipe_ok_def ring_ok_def
      intro!: pool_ok_upd split: option.splits) (auto simp: pool_ok_def pipe_ok_def ring_ok_def)

lemma pipe_end_unref_pool:
  assumes "pool_ok ps" shows "pool_ok (pipe_end_unref obj w ps)"
proof (cases "pipe_of ps obj")
  case (Some k)
  then have "ring_ok (ps ! k)" "p_in_use (ps ! k)"
    using assms pool_okD(2) by (auto simp: pipe_of_Some_iff pipe_ok_def)
  then show ?thesis
    using assms Some
    by (auto simp: pipe_end_unref_def Let_def ring_ok_def intro!: pool_ok_upd pipe_free_if_unheld_ok)
qed (use assms in \<open>simp add: pipe_end_unref_def\<close>)

lemma release_one_pool:
  assumes "pool_ok (snd st)" shows "pool_ok (snd (release_one tally i st))"
proof -
  obtain e ps where st: "st = (e, ps)" by (metis surj_pair)
  have "ring_ok (ps ! k)" "p_in_use (ps ! k)" if "pipe_of ps obj = Some k" for k obj
    using assms st that pool_okD(2) by (auto simp: pipe_of_Some_iff pipe_ok_def)
  then show ?thesis
    using assms st
    by (auto simp: release_one_def Let_def ring_ok_def split: option.splits if_splits
        intro!: pool_ok_upd pipe_free_if_unheld_ok)
qed

lemma pipe_release_pool: "pool_ok ps \<Longrightarrow> pool_ok (snd (pipe_release_revoked_ends t ps))"
  by (auto simp: pipe_release_revoked_ends_def Let_def split: option.splits
      intro!: fold_inv[where I = "\<lambda>x. pool_ok (snd x)"] release_one_pool)

lemma pipe_read_bytes_eq:
  assumes "pipe_of ps obj = Some k" "p_count (ps ! k) \<noteq> 0"
  shows "pipe_read_bytes obj len ps =
    (int (min (p_count (ps ! k)) len), fst (ring_get (min (p_count (ps ! k)) len) (ps ! k)),
     ps[k := snd (ring_get (min (p_count (ps ! k)) len) (ps ! k))])"
  using assms by (simp add: pipe_read_bytes_def Let_def min_def split: prod.splits)

lemma pipe_write_bytes_eq:
  assumes "pipe_of ps obj = Some k" "p_reader_ends (ps ! k) \<noteq> 0" "p_count (ps ! k) < PIPE_BUF_BYTES"
  shows "pipe_write_bytes obj src len ps =
    (int (min len (PIPE_BUF_BYTES - p_count (ps ! k))),
     ps[k := ring_put src (min len (PIPE_BUF_BYTES - p_count (ps ! k))) (ps ! k)])"
  using assms by (auto simp: pipe_write_bytes_def Let_def min_def)

lemma ring_put_keeps [simp]:
  "p_in_use (ring_put src n p) = p_in_use p" "p_gen (ring_put src n p) = p_gen p"
  "p_reader_ends (ring_put src n p) = p_reader_ends p"
  "p_writer_ends (ring_put src n p) = p_writer_ends p"
  by (simp_all add: ring_put_def Let_def)

lemma ring_get_keeps [simp]:
  "p_in_use (snd (ring_get n p)) = p_in_use p" "p_gen (snd (ring_get n p)) = p_gen p"
  "p_reader_ends (snd (ring_get n p)) = p_reader_ends p"
  "p_writer_ends (snd (ring_get n p)) = p_writer_ends p"
  by (simp_all add: ring_get_def)

section \<open>Streams through the pool\<close>

datatype pipe_op = PWrite "u8 list" | PRead nat

text \<open>A sequence of writes and reads on one pipe object: the bytes the writes
  accepted, the bytes the reads returned, and the pool afterwards.\<close>

fun pipe_run :: "u64 \<Rightarrow> pipe_op list \<Rightarrow> pipe list \<Rightarrow> u8 list \<times> u8 list \<times> pipe list" where
  "pipe_run obj [] ps = ([], [], ps)"
| "pipe_run obj (PWrite xs # os) ps =
    (let (r, ps1) = pipe_write_bytes obj xs (length xs) ps;
         (ins, outs, ps2) = pipe_run obj os ps1
     in (take (nat r) xs @ ins, outs, ps2))"
| "pipe_run obj (PRead n # os) ps =
    (let (r, dst, ps1) = pipe_read_bytes obj n ps;
         (ins, outs, ps2) = pipe_run obj os ps1
     in (ins, dst @ outs, ps2))"

lemma pipe_write_step:
  assumes ok: "pool_ok ps" and k: "pipe_of ps obj = Some k"
    and w: "pipe_write_bytes obj xs (length xs) ps = (r, ps')"
  shows "pool_ok ps' \<and> pipe_of ps' obj = Some k \<and> (\<forall>j. j \<noteq> k \<longrightarrow> ps' ! j = ps ! j)
     \<and> ring.moves (take (nat r) xs) [] (ps ! k) (ps' ! k)"
proof -
  have kl: "k < length ps" "ring_ok (ps ! k)" "p_in_use (ps ! k)"
    using ok k pool_okD[OF ok] by (auto simp: pipe_of_Some_iff pipe_ok_def)
  show ?thesis
  proof (cases "p_reader_ends (ps ! k) \<noteq> 0 \<and> p_count (ps ! k) < PIPE_BUF_BYTES")
    case True
    let ?n = "min (length xs) (PIPE_BUF_BYTES - p_count (ps ! k))"
    have e: "r = int ?n" "ps' = ps[k := ring_put xs ?n (ps ! k)]"
      using w pipe_write_bytes_eq[OF k, of xs "length xs"] True by auto
    have m: "ring.moves (take ?n xs) [] (ps ! k) (ring_put xs ?n (ps ! k))"
      using kl True by (intro ring.moves_put) auto
    then have "ring_ok (ring_put xs ?n (ps ! k))" by (simp add: ring.moves_def)
    then have "pool_ok ps'" using ok kl(3) e(2) by (auto intro!: pool_ok_upd simp: pipe_ok_def)
    moreover have "pipe_of ps' obj = Some k" using e(2) k kl(1) by (simp add: pipe_of_upd)
    ultimately show ?thesis using m e kl by simp
  next
    case False
    then have "ps' = ps" "nat r = 0"
      using w k kl by (auto simp: pipe_write_bytes_def Let_def ring_ok_def split: if_splits)
    then show ?thesis using ok k kl ring.moves_refl by simp
  qed
qed

lemma pipe_read_step:
  assumes ok: "pool_ok ps" and k: "pipe_of ps obj = Some k"
    and w: "pipe_read_bytes obj n ps = (r, dst, ps')"
  shows "pool_ok ps' \<and> pipe_of ps' obj = Some k \<and> (\<forall>j. j \<noteq> k \<longrightarrow> ps' ! j = ps ! j)
     \<and> ring.moves [] dst (ps ! k) (ps' ! k)"
proof -
  have kl: "k < length ps" "ring_ok (ps ! k)" "p_in_use (ps ! k)"
    using ok k pool_okD[OF ok] by (auto simp: pipe_of_Some_iff pipe_ok_def)
  show ?thesis
  proof (cases "p_count (ps ! k) = 0")
    case False
    let ?n = "min (p_count (ps ! k)) n"
    have e: "dst = fst (ring_get ?n (ps ! k))" "ps' = ps[k := snd (ring_get ?n (ps ! k))]"
      using w pipe_read_bytes_eq[OF k False, of n] by auto
    have m: "ring.moves [] (fst (ring_get ?n (ps ! k))) (ps ! k) (snd (ring_get ?n (ps ! k)))"
      using kl by (intro ring.moves_get) auto
    then have "ring_ok (snd (ring_get ?n (ps ! k)))" by (simp add: ring.moves_def)
    then have "pool_ok ps'" using ok kl(3) e(2) by (auto intro!: pool_ok_upd simp: pipe_ok_def)
    moreover have "pipe_of ps' obj = Some k" using e(2) k kl(1) by (simp add: pipe_of_upd)
    ultimately show ?thesis using m e kl by simp
  next
    case True
    then have "ps' = ps" "dst = []" using w k by (auto simp: pipe_read_bytes_def Let_def)
    then show ?thesis using ok k kl ring.moves_refl by simp
  qed
qed

lemma pipe_run_moves:
  assumes "pool_ok ps" "pipe_of ps obj = Some k" "pipe_run obj os ps = (ins, outs, ps')"
  shows "pool_ok ps' \<and> (\<forall>j. j \<noteq> k \<longrightarrow> ps' ! j = ps ! j) \<and> ring.moves ins outs (ps ! k) (ps' ! k)"
  using assms
proof (induction obj os ps arbitrary: ins outs ps' rule: pipe_run.induct)
  case (1 obj ps)
  then have "ring_ok (ps ! k)" using pool_okD(2)[of ps k] by (auto simp: pipe_of_Some_iff pipe_ok_def)
  then show ?case using 1 ring.moves_refl by simp
next
  case (2 obj xs os ps)
  obtain r ps1 where w: "pipe_write_bytes obj xs (length xs) ps = (r, ps1)" by (metis surj_pair)
  obtain i1 o1 ps2 where r: "pipe_run obj os ps1 = (i1, o1, ps2)" by (metis prod_cases3)
  note S = pipe_write_step[OF 2(2,3) w]
  then have "pool_ok ps2 \<and> (\<forall>j. j \<noteq> k \<longrightarrow> ps2 ! j = ps1 ! j) \<and> ring.moves i1 o1 (ps1 ! k) (ps2 ! k)"
    using 2(1)[OF w[symmetric] refl _ _ r] by blast
  then show ?case using S 2(4) w r ring.moves_trans by fastforce
next
  case (3 obj n os ps)
  obtain r dst ps1 where w: "pipe_read_bytes obj n ps = (r, dst, ps1)" by (metis prod_cases3)
  obtain i1 o1 ps2 where r: "pipe_run obj os ps1 = (i1, o1, ps2)" by (metis prod_cases3)
  note S = pipe_read_step[OF 3(2,3) w]
  then have "pool_ok ps2 \<and> (\<forall>j. j \<noteq> k \<longrightarrow> ps2 ! j = ps1 ! j) \<and> ring.moves i1 o1 (ps1 ! k) (ps2 ! k)"
    using 3(1)[OF w[symmetric] refl refl _ _ r] by blast
  then show ?case using S 3(4) w r ring.moves_trans by fastforce
qed

section \<open>Properties\<close>

definition free_pipe :: pipe where
  "free_pipe = \<lparr> p_in_use = False, p_gen = 0, p_head = 0, p_count = 0, p_reader_ends = 0,
                 p_writer_ends = 0, p_buf = replicate PIPE_BUF_BYTES 0 \<rparr>"

definition sample_pool :: "pipe list" where
  "sample_pool = (replicate MAX_PIPES free_pipe)
     [0 := free_pipe\<lparr> p_in_use := True, p_gen := 1, p_reader_ends := 1, p_writer_ends := 1 \<rparr>]"

lemma sample_pool_ok: "pool_ok sample_pool"
  unfolding sample_pool_def
  by (rule pool_ok_upd) (auto simp: pool_ok_def pipe_ok_def ring_ok_def free_pipe_def)

lemma pipe_obj_0_1: "pipe_obj_idx 0x100000000 = 0" "pipe_obj_gen 0x100000000 = 1"
  using pipe_obj_round_trip[of 0 1] by (simp_all add: pipe_obj_def)

lemma sample_pipe: "pipe_of sample_pool 0x100000000 = Some 0"
  by (simp add: pipe_of_def sample_pool_def free_pipe_def pipe_obj_0_1)

text \<open>C23. A pipe is a bounded byte queue.  Over any sequence of writes and reads on
  one pipe, what was in it followed by what the writes accepted is what the reads
  returned followed by what is in it now: no byte is lost, duplicated, altered
  or reordered, whatever wraps around the ring.  At most \<open>PIPE_BUF_BYTES\<close> are ever
  held, and no other pipe changes.\<close>

theorem pipe_stream_exact:
  assumes "pool_ok ps" and "pipe_of ps obj = Some k"
    and "pipe_run obj os ps = (ins, outs, ps')"
  shows "pipe_contents (ps ! k) @ ins = outs @ pipe_contents (ps' ! k)
     \<and> length (pipe_contents (ps' ! k)) \<le> PIPE_BUF_BYTES
     \<and> pool_ok ps' \<and> (\<forall>j. j \<noteq> k \<longrightarrow> ps' ! j = ps ! j)"
  using pipe_run_moves[OF assms] ring.moves_bounded by (auto simp: ring.moves_def)

theorem pipe_stream_exact_witness:
  "\<exists>ins outs ps'. pipe_run 0x100000000 [PWrite [1, 2, 3], PRead 2, PRead 9] sample_pool = (ins, outs, ps')
     \<and> pipe_contents (sample_pool ! 0) @ ins = outs @ pipe_contents (ps' ! 0)"
proof -
  obtain ins outs ps' where
    r: "pipe_run 0x100000000 [PWrite [1, 2, 3], PRead 2, PRead 9] sample_pool = (ins, outs, ps')"
    by (metis prod_cases3)
  show ?thesis using pipe_stream_exact[OF sample_pool_ok sample_pipe r] r by blast
qed

text \<open>C34. The pool invariant: buffers keep their size, positions stay in range, and a
  pipe that is not in use is empty and holds only zero bytes.  Allocation, taking
  and dropping an end, releasing the ends a revocation removed, reads and writes
  all preserve it, so the bytes of a freed pipe are gone before the slot can be
  used again.\<close>

theorem pool_invariant:
  assumes "pool_ok ps"
  shows "pool_ok (snd (pipe_alloc ps)) \<and> pool_ok (snd (pipe_end_ref obj w ps))
     \<and> pool_ok (pipe_end_unref obj w ps) \<and> pool_ok (snd (pipe_release_revoked_ends tally ps))
     \<and> pool_ok (snd (snd (pipe_read_bytes obj n ps)))
     \<and> pool_ok (snd (pipe_write_bytes obj xs (length xs) ps))"
proof -
  have "pool_ok (snd (snd (pipe_read_bytes obj n ps)))"
  proof (cases "pipe_of ps obj")
    case (Some k)
    then show ?thesis
      using pipe_read_step[OF assms Some, of n] by (metis prod.collapse)
  qed (use assms in \<open>simp add: pipe_read_bytes_def\<close>)
  moreover have "pool_ok (snd (pipe_write_bytes obj xs (length xs) ps))"
  proof (cases "pipe_of ps obj")
    case (Some k)
    then show ?thesis using pipe_write_step[OF assms Some, of xs] by (metis prod.collapse)
  qed (use assms in \<open>simp add: pipe_write_bytes_def\<close>)
  ultimately show ?thesis
    using assms pipe_alloc_pool pipe_end_ref_pool pipe_end_unref_pool pipe_release_pool by blast
qed

theorem pool_invariant_witness:
  "pool_ok (snd (pipe_alloc sample_pool)) \<and> pool_ok (pipe_end_unref 0x100000000 True sample_pool)"
  using pool_invariant[OF sample_pool_ok, of "0x100000000" True] by blast

section \<open>Generations over a run\<close>

text \<open>Any sequence of operations on the pool, counting how often an allocation takes the slot \<open>i\<close>.\<close>

datatype pool_op =
    Pool_alloc | Pool_ref u64 bool | Pool_unref u64 bool | Pool_release pipe_tally | Pool_read u64 nat | Pool_write u64 "u8 list" nat

fun pool_step :: "pool_op \<Rightarrow> pipe list \<Rightarrow> pipe list" where
  "pool_step Pool_alloc ps = snd (pipe_alloc ps)"
| "pool_step (Pool_ref obj w) ps = snd (pipe_end_ref obj w ps)"
| "pool_step (Pool_unref obj w) ps = pipe_end_unref obj w ps"
| "pool_step (Pool_release tally) ps = snd (pipe_release_revoked_ends tally ps)"
| "pool_step (Pool_read obj n) ps = snd (snd (pipe_read_bytes obj n ps))"
| "pool_step (Pool_write obj src n) ps = snd (pipe_write_bytes obj src n ps)"

fun pool_run :: "nat \<Rightarrow> pool_op list \<Rightarrow> pipe list \<Rightarrow> nat \<times> pipe list" where
  "pool_run i [] ps = (0, ps)"
| "pool_run i (op # ops) ps =
    (let (n, ps') = pool_run i ops (pool_step op ps)
     in (if op = Pool_alloc \<and> find_idx (\<lambda>p. \<not> p_in_use p) ps = Some i then n + 1 else n, ps'))"

definition next_gen :: "u32 \<Rightarrow> u32" where
  "next_gen g = (if g + 1 = 0 \<or> g + 1 = PIPE_TALLY_GEN_MIXED then 1 else g + 1)"

lemma gens_upd: "p_gen p = p_gen (ps ! k) \<Longrightarrow> map p_gen (ps[k := p]) = map p_gen ps"
  by (cases "k < length ps") (simp_all add: map_update list_update_same_conv list_update_beyond)

lemma free_gen [simp]: "p_gen (pipe_free_if_unheld p) = p_gen p"
  by (simp add: pipe_free_if_unheld_def)

lemma release_gens: "map p_gen (snd (release_one tally i st)) = map p_gen (snd st)"
  by (cases st) (auto simp: release_one_def Let_def gens_upd split: option.splits)

lemma step_gens:
  "map p_gen (pool_step op ps) =
    (case (op, find_idx (\<lambda>p. \<not> p_in_use p) ps) of
       (Pool_alloc, Some k) \<Rightarrow> (map p_gen ps)[k := next_gen (p_gen (ps ! k))]
     | _ \<Rightarrow> map p_gen ps)"
proof (cases op)
  case Pool_alloc
  thus ?thesis by (auto simp: pipe_alloc_def next_gen_def Let_def map_update split: option.splits)
next
  case (Pool_release tally)
  have "map p_gen (snd (pipe_release_revoked_ends tally ps)) = map p_gen ps"
    by (auto simp: pipe_release_revoked_ends_def Let_def release_gens split: option.splits
        intro!: fold_inv[where I = "\<lambda>x. map p_gen (snd x) = map p_gen ps"])
  thus ?thesis using Pool_release by simp
next
  case (Pool_read obj n)
  thus ?thesis by (auto simp: pipe_read_bytes_def Let_def gens_upd ring_get_def split: option.splits)
qed (auto simp: pipe_end_ref_def pipe_end_unref_def pipe_write_bytes_def Let_def gens_upd split: option.splits)

lemma run_gen:
  assumes "i < length ps" "pool_run i ops ps = (n, ps')"
  shows "length ps' = length ps \<and> p_gen (ps' ! i) = (next_gen ^^ n) (p_gen (ps ! i))"
  using assms
proof (induction ops arbitrary: ps n)
  case (Cons op ops)
  let ?ps = "pool_step op ps"
  obtain m where r: "pool_run i ops ?ps = (m, ps')" and n: "n = (if op = Pool_alloc \<and> find_idx (\<lambda>p. \<not> p_in_use p) ps = Some i then m + 1 else m)"
    using Cons.prems(2) by (auto split: prod.splits)
  have l: "length ?ps = length ps" using arg_cong[OF step_gens[of op ps], of length] by (auto split: pool_op.splits option.splits)
  have g: "p_gen (?ps ! i) = (if op = Pool_alloc \<and> find_idx (\<lambda>p. \<not> p_in_use p) ps = Some i then next_gen (p_gen (ps ! i)) else p_gen (ps ! i))"
    using arg_cong[OF step_gens[of op ps], of "\<lambda>xs. xs ! i"] l Cons.prems(1) by (auto simp: nth_list_update split: pool_op.splits option.splits)
  show ?case using Cons.IH[of ?ps m, OF _ r] Cons.prems(1) l g n by (auto simp: funpow_swap1)
qed simp

text \<open>The generations run through all values but 0 and the mixed marker before one recurs.\<close>

lemma gen_range:
  assumes "g \<noteq> 0" "g \<noteq> PIPE_TALLY_GEN_MIXED"
  shows "unat g \<noteq> 0" "unat g \<noteq> 2 ^ 32 - 1" "unat g < 2 ^ 32" "unat g - 1 < 2 ^ 32 - 2"
proof -
  show a: "unat g \<noteq> 0" using assms(1) by (simp add: unat_eq_0)
  show c: "unat g \<noteq> 2 ^ 32 - 1" using assms(2) word_unat_eq_iff[of g PIPE_TALLY_GEN_MIXED] by simp
  show b: "unat g < 2 ^ 32" using unsigned_less[of g, where 'a = nat] by simp
  show "unat g - 1 < 2 ^ 32 - 2" using a b c by simp
qed

lemma next_gen_unat:
  assumes "g \<noteq> 0" "g \<noteq> PIPE_TALLY_GEN_MIXED"
  shows "unat (next_gen g) = unat g mod (2 ^ 32 - 2) + 1" "next_gen g \<noteq> 0" "next_gen g \<noteq> PIPE_TALLY_GEN_MIXED"
proof -
  note b = gen_range[OF assms]
  have p: "unat (g + 1) = unat g + 1" using b by (subst unat_word_ariths(1)) simp
  have c: "g + 1 \<noteq> 0" "g + 1 = PIPE_TALLY_GEN_MIXED \<longleftrightarrow> unat g = 2 ^ 32 - 2"
    using p word_unat_eq_iff[of "g + 1" 0] word_unat_eq_iff[of "g + 1" PIPE_TALLY_GEN_MIXED] by simp_all
  show u: "unat (next_gen g) = unat g mod (2 ^ 32 - 2) + 1"
    using b c p by (cases "unat g = 2 ^ 32 - 2") (simp_all add: next_gen_def)
  have "unat g mod (2 ^ 32 - 2) < 2 ^ 32 - 2" by simp
  with u have "unat (next_gen g) \<noteq> 0" "unat (next_gen g) \<noteq> 2 ^ 32 - 1" by linarith+
  thus "next_gen g \<noteq> 0" "next_gen g \<noteq> PIPE_TALLY_GEN_MIXED"
    using word_unat_eq_iff[of "next_gen g" PIPE_TALLY_GEN_MIXED] by auto
qed

lemma next_gen_iter:
  assumes "g \<noteq> 0" "g \<noteq> PIPE_TALLY_GEN_MIXED"
  shows "(next_gen ^^ n) g \<noteq> 0 \<and> (next_gen ^^ n) g \<noteq> PIPE_TALLY_GEN_MIXED \<and> unat ((next_gen ^^ n) g) = (unat g - 1 + n) mod (2 ^ 32 - 2) + 1"
proof (induction n)
  case 0
  show ?case using assms gen_range[OF assms] by simp
next
  case (Suc n)
  note u = next_gen_unat[of "(next_gen ^^ n) g"]
  show ?case using Suc u by (simp add: mod_Suc_eq)
qed

lemma mod_shift_neq: "a < M \<Longrightarrow> 0 < k \<Longrightarrow> k < M \<Longrightarrow> (a + k) mod M \<noteq> (a :: nat)"
  by (cases "a + k < M") (simp_all add: le_mod_geq)

lemma gen_not_again:
  assumes "g \<noteq> 0" "g \<noteq> PIPE_TALLY_GEN_MIXED" "0 < n" "n < 2 ^ 32 - 2"
  shows "(next_gen ^^ n) g \<noteq> g"
proof
  assume e: "(next_gen ^^ n) g = g"
  note b = gen_range[OF assms(1,2)]
  have "(unat g - 1 + n) mod (2 ^ 32 - 2) + 1 = unat g" using next_gen_iter[OF assms(1,2), of n] unfolding e by metis
  hence "(unat g - 1 + n) mod (2 ^ 32 - 2) = unat g - 1" using b(1) by linarith
  thus False using mod_shift_neq[OF b(4) assms(3,4)] by blast
qed

text \<open>C35. A pipe object names one use of a slot.  A successful allocation returns an
  object that resolves to the slot it took, with no ends and no bytes; its
  generation is neither 0 nor the mixed marker and differs from the one the slot
  had, so every object of the previous use resolves to nothing, and no object of
  any other slot resolves differently than before.  From then on, over any sequence of
  operations on the pool, once the slot has been taken again the object resolves to
  nothing, until its 32-bit generation has gone round, which takes \<open>2 ^ 32 - 2\<close> more allocations of
  that slot.\<close>

theorem pipe_alloc_fresh:
  assumes "pool_ok ps" and "pipe_alloc ps = (obj, ps')" and "obj \<noteq> 0"
  shows "\<exists>i. pipe_of ps' obj = Some i \<and> \<not> p_in_use (ps ! i) \<and> pipe_contents (ps' ! i) = []
     \<and> p_reader_ends (ps' ! i) = 0 \<and> p_writer_ends (ps' ! i) = 0
     \<and> p_gen (ps' ! i) \<noteq> 0 \<and> p_gen (ps' ! i) \<noteq> PIPE_TALLY_GEN_MIXED
     \<and> p_gen (ps' ! i) \<noteq> p_gen (ps ! i)
     \<and> pipe_of ps' (pipe_obj i (p_gen (ps ! i))) = None
     \<and> (\<forall>o'. pipe_obj_idx o' \<noteq> i \<longrightarrow> pipe_of ps' o' = pipe_of ps o')
     \<and> (\<forall>ops n ps''. pool_run i ops ps' = (n, ps'') \<longrightarrow> 0 < n \<longrightarrow> n < 2 ^ 32 - 2 \<longrightarrow> pipe_of ps'' obj = None)"
proof (cases "find_idx (\<lambda>p. \<not> p_in_use p) ps")
  case None
  then show ?thesis using assms by (simp add: pipe_alloc_def)
next
  case (Some i)
  note i = find_idx_Some[OF Some]
  then have il: "i < MAX_PIPES" "i < length ps" "i < 2 ^ 32" using pool_okD(1)[OF assms(1)] by auto
  define g where "g = next_gen (p_gen (ps ! i))"
  have e: "obj = pipe_obj i g" "ps' = ps[i := (ps ! i)\<lparr> p_in_use := True, p_gen := g, p_head := 0,
      p_count := 0, p_reader_ends := 0, p_writer_ends := 0 \<rparr>]"
    using assms(2) Some by (simp_all add: pipe_alloc_def Let_def g_def next_gen_def)
  have "(1 :: u32) + 1 \<noteq> 0" "(1 :: u32) + 1 \<noteq> PIPE_TALLY_GEN_MIXED" by simp_all
  then have g: "g \<noteq> 0" "g \<noteq> PIPE_TALLY_GEN_MIXED" "g \<noteq> p_gen (ps ! i)" by (auto simp: g_def next_gen_def)
  note rt = pipe_obj_round_trip[OF il(3)]
  have a: "pipe_of ps' obj = Some i" using e il rt by (simp add: pipe_of_def)
  have b: "pipe_of ps' (pipe_obj i (p_gen (ps ! i))) = None"
    using e il rt g(3) by (simp add: pipe_of_def)
  have c: "pipe_of ps'' obj = None" if "pool_run i ops ps' = (n, ps'')" "0 < n" "n < 2 ^ 32 - 2" for ops n ps''
  proof -
    have "p_gen (ps'' ! i) \<noteq> g" using run_gen[of i ps' ops n ps''] that(1) gen_not_again[OF g(1,2) that(2,3)] e il by simp
    thus ?thesis using e(1) rt by (simp add: pipe_of_def Let_def)
  qed
  have d: "pipe_of ps' o' = pipe_of ps o'" if "pipe_obj_idx o' \<noteq> i" for o' using that e by (simp add: pipe_of_def Let_def)
  show ?thesis
    using i e il g a b c d by (intro exI[of _ i] conjI allI impI) (simp_all add: pipe_contents_def)
qed

theorem pipe_alloc_fresh_witness:
  "\<exists>ps'. pipe_alloc sample_pool = (pipe_obj 1 1, ps') \<and> p_gen (ps' ! 1) \<noteq> 0"
proof -
  have f: "find_idx (\<lambda>p. \<not> p_in_use p) sample_pool = Some 1"
  proof -
    have "replicate MAX_PIPES free_pipe = free_pipe # free_pipe # replicate 30 free_pipe"
      by (simp flip: replicate_Suc)
    moreover have "\<not> p_in_use free_pipe" by (simp add: free_pipe_def)
    ultimately show ?thesis by (simp add: sample_pool_def)
  qed
  obtain ps' where r: "pipe_alloc sample_pool = (pipe_obj 1 1, ps')"
    using f by (simp add: pipe_alloc_def sample_pool_def free_pipe_def Let_def)
  have "pipe_obj 1 1 \<noteq> 0" by (simp add: pipe_obj_def)
  then obtain i where "pipe_of ps' (pipe_obj 1 1) = Some i" "p_gen (ps' ! i) \<noteq> 0"
    using pipe_alloc_fresh[OF sample_pool_ok r] by blast
  then show ?thesis using r pipe_obj_round_trip[of 1 1] by (auto simp: pipe_of_Some_iff)
qed

end
