(* ===== verification/Cap_Ops.thy ===== *)
theory Cap_Ops
  imports Kobj Pipe_Pool
begin

text \<open>
  The C side of the capability system (\<^verbatim>\<open>src/kernel/capability.c\<close>): the primordial
  root cnode, the installs the kernel performs itself, lookups of the running task,
  snapshots, the derivations a task asks for, the copy a fork makes, revocation
  over every cspace with the release of pipe ends and the collection that follows,
  and the release of a dying task's cspace.  Each function is one step under the
  lock it takes; the memory of all cspaces is \<open>k_mem\<close>, the serial counter
  \<open>k_next_serial\<close>.  The control arms of the build (\<open>#ifdef\<close> variants that weaken a
  check for a test) are not modelled.
\<close>

section \<open>The primordial capabilities\<close>

abbreviation (input) CAP_RIGHT_AUDIT_WRITE :: u32 where "CAP_RIGHT_AUDIT_WRITE \<equiv> 0x40"
abbreviation (input) IODEV_NONE :: u64 where "IODEV_NONE \<equiv> 0"
abbreviation (input) IODEV_PLATFORM :: u64 where "IODEV_PLATFORM \<equiv> 1"
abbreviation (input) FS_EP_REQ :: u64 where "FS_EP_REQ \<equiv> 4"
abbreviation (input) CON_EP_REQ :: u64 where "CON_EP_REQ \<equiv> 6"
abbreviation (input) NOTIF_FS_READY :: u64 where "NOTIF_FS_READY \<equiv> 0"
abbreviation (input) USER_VIRT_BASE :: u64 where "USER_VIRT_BASE \<equiv> 0x400000"

definition primordial :: "u32 \<Rightarrow> u32 \<Rightarrow> u64 \<Rightarrow> u64 \<Rightarrow> capability" where
  "primordial ty rights object serial =
    \<lparr> c_typ = ty, c_rights = rights, c_object = object, c_badge = 0, c_serial = serial, c_token = 0 \<rparr>"

text \<open>The root cnode at boot.  \<open>nic\<close> is what \<open>iodev_first_of_class\<close> reports for the
  network class.\<close>

definition root_caps_low :: "(nat \<times> capability) list" where
  "root_caps_low =
    [(0, primordial CAP_TCB CAP_RIGHT_ALL 0 0xC0DE0001),
     (1, primordial CAP_NOTIFICATION (CAP_RIGHT_READ OR CAP_RIGHT_WRITE) 0 0xC0DE0002),
     (2, primordial CAP_ENDPOINT (CAP_RIGHT_READ OR CAP_RIGHT_WRITE OR CAP_RIGHT_GRANT) 0 0xC0DE0003),
     (3, primordial CAP_FRAME (CAP_RIGHT_READ OR CAP_RIGHT_WRITE OR CAP_RIGHT_EXEC) USER_VIRT_BASE 0xC0DE0004),
     (6, primordial CAP_USER CAP_RIGHT_ALL 0 0xC0DE0006),
     (7, primordial CAP_AUDIT (CAP_RIGHT_READ OR CAP_RIGHT_AUDIT_WRITE) 0 0xC0DE0007),
     (8, primordial CAP_CONSOLE CAP_RIGHT_ALL 0 0xC0DE0008),
     (9, primordial CAP_ENCRYPTED_STORAGE CAP_RIGHT_ALL 0 0xC0DE0009),
     (10, primordial CAP_IO_DEVICE CAP_RIGHT_ALL IODEV_PLATFORM 0xC0DE000A),
     (11, primordial CAP_ENDPOINT (CAP_RIGHT_READ OR CAP_RIGHT_WRITE) CON_EP_REQ 0xC0DE000B),
     (12, primordial CAP_ENDPOINT CAP_RIGHT_WRITE CON_EP_REQ 0xC0DE000C)]"

definition root_caps_mid :: "(nat \<times> capability) list" where
  "root_caps_mid =
    [(13, primordial CAP_ENDPOINT (CAP_RIGHT_READ OR CAP_RIGHT_WRITE OR CAP_RIGHT_MINT OR CAP_RIGHT_GRANT
                                   OR CAP_RIGHT_REVOKE OR 0x3FC00) FS_EP_REQ 0xC0DE000D),
     (15, primordial CAP_KERNEL_LOG (CAP_RIGHT_READ OR CAP_RIGHT_MINT OR CAP_RIGHT_REVOKE) 0 0xC0DE000F),
     (16, primordial CAP_BOOT_MODULE CAP_RIGHT_READ 0 0xC0DE0010),
     (14, primordial CAP_NOTIFICATION (CAP_RIGHT_READ OR CAP_RIGHT_WRITE) NOTIF_FS_READY 0xC0DE000E),
     (17, primordial CAP_UNTYPED (CAP_RIGHT_READ OR CAP_RIGHT_WRITE OR CAP_RIGHT_GRANT OR CAP_RIGHT_MINT
                                  OR CAP_RIGHT_REVOKE) (of_nat UNTYPED_ROOT) 0xC0DE0011),
     (18, primordial CAP_DEBUG (CAP_RIGHT_READ OR CAP_RIGHT_MINT OR CAP_RIGHT_REVOKE) 0 0xC0DE0012)]"

definition root_caps_high :: "u64 \<Rightarrow> (nat \<times> capability) list" where
  "root_caps_high nic =
    (if nic \<noteq> IODEV_NONE then [(19, primordial CAP_IO_DEVICE CAP_RIGHT_ALL nic 0xC0DE0013)] else [])
    @ [(20, primordial CAP_FRAME (CAP_RIGHT_READ OR CAP_RIGHT_EXEC) 0 0xC0DE0014),
       (21, primordial CAP_FRAME (CAP_RIGHT_READ OR CAP_RIGHT_WRITE) 0 0xC0DE0015),
       (22, primordial CAP_STORAGE_FORMAT (CAP_RIGHT_READ OR CAP_RIGHT_WRITE) 0 0xC0DE0016),
       (23, primordial CAP_ENDPOINT (CAP_RIGHT_WRITE OR CAP_RIGHT_MINT OR CAP_RIGHT_GRANT OR CAP_RIGHT_REVOKE)
              CON_EP_REQ 0xC0DE0017),
       (24, primordial CAP_SCHED_CONTEXT (CAP_RIGHT_READ OR CAP_RIGHT_WRITE OR CAP_RIGHT_GRANT OR CAP_RIGHT_MINT
                                          OR CAP_RIGHT_REVOKE) 0 0xC0DE0018)]"

definition root_caps :: "u64 \<Rightarrow> (nat \<times> capability) list" where
  "root_caps nic = root_caps_low @ root_caps_mid @ root_caps_high nic"

definition clear_space :: "cref \<Rightarrow> nat \<Rightarrow> kstate \<Rightarrow> kstate" where
  "clear_space cs n s = s\<lparr> k_mem := fold (\<lambda>i m. m(Slot cs i := null_cap)) [0..<n] (k_mem s) \<rparr>"

definition cap_init :: "u64 \<Rightarrow> kstate \<Rightarrow> kstate" where
  "cap_init nic s =
    (let s1 = clear_space RootC CNODE_SIZE s;
         s2 = fold (\<lambda>(i, c). set_cap (Slot RootC i) c) (root_caps nic) s1
     in s2\<lparr> k_rev_sets := map (\<lambda>r. r\<lparr> rs_valid := False \<rparr>) (k_rev_sets s2) \<rparr>)"

section \<open>Serials and the shape of an install\<close>

definition cap_alloc_fresh_serial :: "kstate \<Rightarrow> u64 \<times> kstate" where
  "cap_alloc_fresh_serial s =
    (let (f, ns) = rust_cap_alloc_serial (Some (k_next_serial s))
     in (f, case ns of None \<Rightarrow> s | Some n \<Rightarrow> s\<lparr> k_next_serial := n \<rparr>))"

text \<open>The state after a derivation of the Rust core, which is handed the memory and
  the address of the serial counter.\<close>

definition put_rust :: "cap_result \<Rightarrow> kstate \<Rightarrow> bool \<times> kstate" where
  "put_rust r s =
    (case r of (ok, m, ns) \<Rightarrow>
       (ok, s\<lparr> k_mem := m, k_next_serial := (case ns of None \<Rightarrow> k_next_serial s | Some n \<Rightarrow> n) \<rparr>))"

definition slot_null :: "kstate \<Rightarrow> cref \<Rightarrow> nat \<Rightarrow> bool" where
  "slot_null s cs slot \<longleftrightarrow> c_typ (k_mem s (Slot cs slot)) = CAP_NULL"

definition cap_install_from_root :: "int \<Rightarrow> nat \<Rightarrow> nat \<Rightarrow> u32 \<Rightarrow> kstate \<Rightarrow> int \<times> kstate" where
  "cap_install_from_root pid slot root_slot object s =
    (if pid < 0 \<or> pid \<ge> int (k_max_tasks s) \<or> slot \<ge> CNODE_SIZE \<or> root_slot \<ge> CNODE_SIZE then (-1, s)
     else case get_cspace s (nat pid) of
       None \<Rightarrow> (-1, s)
     | Some cs \<Rightarrow>
         let root = k_mem s (Slot RootC root_slot) in
         if c_typ root = CAP_TCB \<and> (sint object \<le> 0 \<or> sint object \<ge> int (k_max_tasks s)) then (-1, s)
         else let obj = (if c_typ root = CAP_TCB then tcb_object s (unat object) else ucast object);
                  (serial, s1) = cap_alloc_fresh_serial s in
           if serial = 0 then (-1, s1)
           else (0, kobj_note_named (c_typ root) obj
                      (set_cap (Slot cs slot) \<lparr> c_typ = c_typ root, c_rights = c_rights root, c_object = obj,
                                                c_badge = 0, c_serial = serial, c_token = 0 \<rparr> s1)))"

definition caller_has_authority :: "kstate \<Rightarrow> bool" where
  "caller_has_authority s \<longleftrightarrow> k_cur s = 0 \<or> get_cspace s (k_cur s) \<noteq> None"

text \<open>The end of every install into a task's cspace: the capability is written, the
  slot counted if it was empty.\<close>

definition place_cap :: "nat \<Rightarrow> cref \<Rightarrow> nat \<Rightarrow> capability \<Rightarrow> kstate \<Rightarrow> kstate" where
  "place_cap t cs slot c s =
    (let s1 = set_cap (Slot cs slot) c s in if slot_null s cs slot then inc_inuse t s1 else s1)"

definition quota_full :: "kstate \<Rightarrow> nat \<Rightarrow> bool" where
  "quota_full s t \<longleftrightarrow> t_inuse (k_tasks s t) \<ge> MAX_CAPS_PER_TASK"

definition cap_install_object :: "nat \<Rightarrow> u32 \<Rightarrow> u64 \<Rightarrow> u32 \<Rightarrow> u64 \<Rightarrow> kstate \<Rightarrow> bool \<times> kstate" where
  "cap_install_object dest_slot ty object rights badge s =
    (let (serial, s1) = cap_alloc_fresh_serial s in
     if serial = 0 then (False, s1)
     else if \<not> caller_has_authority s1 then (False, s1)
     else let cur = k_cur s1 in
       case get_cspace s1 cur of
         None \<Rightarrow> (False, s1)
       | Some cs \<Rightarrow>
           if dest_slot < KERNEL_RESERVED_CAPS \<or> dest_slot \<ge> get_sz s1 cur then (False, s1)
           else if slot_null s1 cs dest_slot \<and> quota_full s1 cur then (False, s1)
           else (True, kobj_note_named ty object
                   (place_cap cur cs dest_slot \<lparr> c_typ = ty, c_rights = rights, c_object = object,
                      c_badge = badge, c_serial = serial, c_token = 0 \<rparr> s1)))"

definition cap_install_derived_object ::
  "nat \<Rightarrow> nat \<Rightarrow> u64 \<Rightarrow> u32 \<Rightarrow> u64 \<Rightarrow> u32 \<Rightarrow> kstate \<Rightarrow> bool \<times> kstate" where
  "cap_install_derived_object dest_slot src_slot src_serial src_type object rights s =
    (let (serial, s1) = cap_alloc_fresh_serial s in
     if serial = 0 then (False, s1)
     else if \<not> caller_has_authority s1 then (False, s1)
     else let cur = k_cur s1 in
       case get_cspace s1 cur of
         None \<Rightarrow> (False, s1)
       | Some cs \<Rightarrow>
           let src = k_mem s1 (Slot cs src_slot) in
           if dest_slot < KERNEL_RESERVED_CAPS \<or> dest_slot \<ge> get_sz s1 cur \<or> src_slot \<ge> get_sz s1 cur
              \<or> dest_slot = src_slot \<or> src_serial = 0 \<or> c_serial src \<noteq> src_serial \<or> c_typ src \<noteq> src_type
           then (False, s1)
           else if slot_null s1 cs dest_slot \<and> quota_full s1 cur then (False, s1)
           else (True, kobj_note_named src_type object
                   (place_cap cur cs dest_slot \<lparr> c_typ = src_type, c_rights = rights AND c_rights src,
                      c_object = object, c_badge = src_serial, c_serial = serial, c_token = 0 \<rparr> s1)))"

text \<open>The first free slot at or above \<open>min_slot\<close>, the shared library's window skipped.\<close>

definition first_free_slot :: "kstate \<Rightarrow> cref \<Rightarrow> nat \<Rightarrow> nat \<Rightarrow> nat option" where
  "first_free_slot s cs min_slot sz =
    find (\<lambda>i. \<not> (i \<ge> LIBC_SLOT_FIRST \<and> i < LIBC_SLOT_FIRST + SHLIB_MAX_PAGES) \<and> slot_null s cs i) [min_slot..<sz]"

definition cap_install_object_first_free ::
  "nat \<Rightarrow> u32 \<Rightarrow> u64 \<Rightarrow> u32 \<Rightarrow> u64 \<Rightarrow> kstate \<Rightarrow> nat option \<times> kstate" where
  "cap_install_object_first_free min_slot ty object rights badge s =
    (let (serial, s1) = cap_alloc_fresh_serial s in
     if serial = 0 then (None, s1)
     else if \<not> caller_has_authority s1 then (None, s1)
     else let cur = k_cur s1 in
       case get_cspace s1 cur of
         None \<Rightarrow> (None, s1)
       | Some cs \<Rightarrow>
           if min_slot < KERNEL_RESERVED_CAPS \<or> min_slot \<ge> get_sz s1 cur then (None, s1)
           else if quota_full s1 cur then (None, s1)
           else case first_free_slot s1 cs min_slot (get_sz s1 cur) of
             None \<Rightarrow> (None, s1)
           | Some slot \<Rightarrow>
               (Some slot, kobj_note_named ty object
                  (place_cap cur cs slot \<lparr> c_typ = ty, c_rights = rights, c_object = object,
                     c_badge = badge, c_serial = serial, c_token = 0 \<rparr> s1)))"

definition cap_install_reply_for :: "int \<Rightarrow> int \<Rightarrow> u64 \<Rightarrow> kstate \<Rightarrow> bool \<times> kstate" where
  "cap_install_reply_for pid sender sender_gen s =
    (if pid \<le> 0 \<or> pid \<ge> int (k_max_tasks s) then (False, s)
     else if sender \<le> 0 \<or> sender \<ge> int (k_max_tasks s) then (False, s)
     else let (serial, s1) = cap_alloc_fresh_serial s in
       if serial = 0 then (False, s1)
       else let t = nat pid in
         case get_cspace s1 t of
           None \<Rightarrow> (False, s1)
         | Some cs \<Rightarrow>
             if CAPSLOT_REPLY \<ge> get_sz s1 t then (False, s1)
             else if slot_null s1 cs CAPSLOT_REPLY \<and> quota_full s1 t then (False, s1)
             else (True, place_cap t cs CAPSLOT_REPLY \<lparr> c_typ = CAP_REPLY, c_rights = CAP_RIGHT_WRITE,
                     c_object = reply_object (nat sender) sender_gen, c_badge = 0, c_serial = serial, c_token = 0 \<rparr> s1))"

section \<open>Emptying a slot\<close>

definition drop_cap :: "nat \<Rightarrow> cref \<Rightarrow> nat \<Rightarrow> kstate \<Rightarrow> kstate" where
  "drop_cap t cs slot s =
    (if slot_null s cs slot then s else dec_inuse_of t (set_cap (Slot cs slot) null_cap s))"

definition cap_consume_slot :: "nat \<Rightarrow> kstate \<Rightarrow> bool \<times> kstate" where
  "cap_consume_slot dest_slot s =
    (let cur = k_cur s in
     case get_cspace s cur of
       None \<Rightarrow> (False, s)
     | Some cs \<Rightarrow>
         if dest_slot < KERNEL_RESERVED_CAPS \<or> dest_slot \<ge> get_sz s cur then (False, s)
         else (True, drop_cap cur cs dest_slot s))"

text \<open>With what the slot held, through \<open>out_prev\<close>.\<close>

definition cap_consume_slot_of :: "int \<Rightarrow> nat \<Rightarrow> kstate \<Rightarrow> bool \<times> capability \<times> kstate" where
  "cap_consume_slot_of pid slot s =
    (if pid \<le> 0 \<or> pid \<ge> int (k_max_tasks s) then (False, null_cap, s)
     else let t = nat pid in
       case get_cspace s t of
         None \<Rightarrow> (False, null_cap, s)
       | Some cs \<Rightarrow>
           if slot \<ge> get_sz s t then (False, null_cap, s)
           else (True, if slot_null s cs slot then null_cap else k_mem s (Slot cs slot), drop_cap t cs slot s))"

definition cap_install_child_pipe_end :: "int \<Rightarrow> nat \<Rightarrow> int \<Rightarrow> nat \<Rightarrow> u32 \<Rightarrow> kstate \<Rightarrow> bool \<times> kstate" where
  "cap_install_child_pipe_end child dest_slot spawner src_slot rights s =
    (if child \<le> 0 \<or> child \<ge> int (k_max_tasks s) then (False, s)
     else if spawner \<le> 0 \<or> spawner \<ge> int (k_max_tasks s) then (False, s)
     else if dest_slot \<noteq> STDIN_PIPE_SLOT \<and> dest_slot \<noteq> STDOUT_PIPE_SLOT then (False, s)
     else if src_slot \<ge> CNODE_SIZE then (False, s)
     else let (serial, s1) = cap_alloc_fresh_serial s in
       if serial = 0 then (False, s1)
       else let c = nat child; p = nat spawner in
         case (get_cspace s1 p, get_cspace s1 c) of
           (Some pcs, Some ccs) \<Rightarrow>
             if dest_slot \<ge> get_sz s1 c then (False, s1)
             else (case rust_cap_lookup (k_mem s1) (Some pcs) (get_sz s1 p) src_slot 0 of
               None \<Rightarrow> (False, s1)
             | Some a \<Rightarrow>
                 let src = k_mem s1 a in
                 if c_typ src \<noteq> CAP_PIPE then (False, s1)
                 else if c_rights src AND rights \<noteq> rights then (False, s1)
                 else if slot_null s1 ccs dest_slot \<and> quota_full s1 c then (False, s1)
                 else if \<not> slot_null s1 ccs dest_slot then (False, s1)
                 else let (ok, ps) = pipe_end_ref (c_object src) (rights AND CAP_RIGHT_WRITE \<noteq> 0) (k_pipes s1) in
                   if \<not> ok then (False, s1)
                   else (True, place_cap c ccs dest_slot \<lparr> c_typ = CAP_PIPE, c_rights = rights, c_object = c_object src,
                                  c_badge = c_serial src, c_serial = serial, c_token = 0 \<rparr> (s1\<lparr> k_pipes := ps \<rparr>)))
         | _ \<Rightarrow> (False, s1))"

section \<open>Lookups of the running task\<close>

definition cap_current_cspace :: "kstate \<Rightarrow> nat \<Rightarrow> (cref \<times> nat) option" where
  "cap_current_cspace s slot =
    (if slot \<ge> CNODE_SIZE then None
     else let cur = k_cur s;
              space = (case get_cspace s cur of
                         Some cs \<Rightarrow> Some (cs, get_sz s cur)
                       | None \<Rightarrow> if cur \<noteq> 0 then None else Some (RootC, CNODE_SIZE)) in
       case space of
         None \<Rightarrow> None
       | Some (cs, sz) \<Rightarrow> if slot \<ge> sz then None else Some (cs, sz))"

definition cap_lookup :: "kstate \<Rightarrow> nat \<Rightarrow> u32 \<Rightarrow> u32 \<Rightarrow> caddr option" where
  "cap_lookup s slot expected_type required_rights =
    (case cap_current_cspace s slot of
       None \<Rightarrow> None
     | Some (cs, sz) \<Rightarrow> rust_cap_lookup_typed (k_mem s) (Some cs) sz slot expected_type required_rights)"

definition cap_lookup_ipc_object :: "kstate \<Rightarrow> nat \<Rightarrow> u32 \<Rightarrow> u32 \<Rightarrow> u32 \<Rightarrow> u32 option" where
  "cap_lookup_ipc_object s slot expected_type need_rights index_max =
    (case cap_current_cspace s slot of
       None \<Rightarrow> None
     | Some (cs, sz) \<Rightarrow> rust_ipc_object_from_slot (k_mem s) (Some cs) sz slot expected_type need_rights index_max)"

definition kcap_lookup :: "kstate \<Rightarrow> nat \<Rightarrow> u32 \<Rightarrow> caddr option" where
  "kcap_lookup s slot r = cap_lookup s slot CAP_ANYTYPE r"

record cap_snapshot =
  cs_serial :: u64
  cs_object :: u64
  cs_valid :: bool

definition take_snapshot :: "capability option \<Rightarrow> cap_snapshot" where
  "take_snapshot c =
    (case c of
       Some c \<Rightarrow> \<lparr> cs_serial = c_serial c, cs_object = c_object c, cs_valid = (c_typ c \<noteq> CAP_NULL) \<rparr>
     | None \<Rightarrow> \<lparr> cs_serial = 0, cs_object = 0, cs_valid = False \<rparr>)"

definition cap_revalidate :: "kstate \<Rightarrow> nat \<Rightarrow> u32 \<Rightarrow> cap_snapshot option \<Rightarrow> caddr option" where
  "cap_revalidate s slot required_rights snap =
    (case snap of
       None \<Rightarrow> None
     | Some sn \<Rightarrow>
         if \<not> cs_valid sn then None
         else case cap_lookup s slot CAP_ANYTYPE required_rights of
           None \<Rightarrow> None
         | Some p \<Rightarrow>
             if c_serial (k_mem s p) \<noteq> cs_serial sn \<or> c_object (k_mem s p) \<noteq> cs_object sn then None
             else Some p)"

section \<open>Derivations\<close>

definition cur_array :: "kstate \<Rightarrow> cref" where
  "cur_array s = (case get_cspace s (k_cur s) of Some cs \<Rightarrow> cs | None \<Rightarrow> RootC)"

text \<open>What every derivation into the caller's own cspace does around the Rust core:
  the authority of the caller, the source, the range of the destination, the quota.\<close>

definition own_derivation :: "nat \<Rightarrow> nat \<Rightarrow> (kstate \<Rightarrow> cap_result) \<Rightarrow> kstate \<Rightarrow> bool \<times> kstate" where
  "own_derivation dest_slot src_slot rust s =
    (if \<not> caller_has_authority s then (False, s)
     else case kcap_lookup s src_slot CAP_RIGHT_MINT of
       None \<Rightarrow> (False, s)
     | Some _ \<Rightarrow>
         if dest_slot \<ge> CNODE_SIZE then (False, s)
         else if dest_slot < KERNEL_RESERVED_CAPS then (False, s)
         else let was_null = slot_null s (cur_array s) dest_slot in
           if was_null \<and> quota_full s (k_cur s) then (False, s)
           else let (ok, s1) = put_rust (rust s) s
                in (ok, if ok \<and> was_null then inc_inuse (k_cur s) s1 else s1))"

definition cap_mint :: "nat \<Rightarrow> nat \<Rightarrow> u32 \<Rightarrow> kstate \<Rightarrow> bool \<times> kstate" where
  "cap_mint dest_slot src_slot new_rights =
    own_derivation dest_slot src_slot (\<lambda>s. rust_cap_mint (k_mem s) (Some (cur_array s)) (get_sz s (k_cur s))
      dest_slot src_slot new_rights (Some (k_next_serial s)))"

definition cap_mint_token :: "nat \<Rightarrow> nat \<Rightarrow> u32 \<Rightarrow> u64 \<Rightarrow> kstate \<Rightarrow> bool \<times> kstate" where
  "cap_mint_token dest_slot src_slot new_rights token =
    own_derivation dest_slot src_slot (\<lambda>s. rust_cap_mint_token (k_mem s) (Some (cur_array s)) (get_sz s (k_cur s))
      dest_slot src_slot new_rights token (Some (k_next_serial s)))"

definition cap_transfer :: "nat \<Rightarrow> nat \<Rightarrow> kstate \<Rightarrow> bool \<times> kstate" where
  "cap_transfer dest_slot src_slot =
    own_derivation dest_slot src_slot (\<lambda>s. rust_cap_transfer (k_mem s) (Some (cur_array s)) (get_sz s (k_cur s))
      dest_slot src_slot (Some (k_next_serial s)))"

definition cap_reply_mint_into :: "int \<Rightarrow> nat \<Rightarrow> u64 \<Rightarrow> nat \<Rightarrow> nat \<Rightarrow> u32 \<Rightarrow> u64 \<Rightarrow> kstate \<Rightarrow> bool \<times> kstate" where
  "cap_reply_mint_into pid inv_slot inv_serial ep_index dest_slot new_rights token s =
    (if pid \<le> 0 \<or> pid \<ge> int (k_max_tasks s) then (False, s)
     else let t = nat pid in
       case get_cspace s t of
         None \<Rightarrow> (False, s)
       | Some cs \<Rightarrow>
           if inv_slot \<ge> get_sz s t \<or> dest_slot \<ge> get_sz s t then (False, s)
           else let inv = k_mem s (Slot cs inv_slot) in
             if c_typ inv \<noteq> CAP_ENDPOINT \<or> c_serial inv = 0 \<or> c_serial inv \<noteq> inv_serial
                \<or> c_object inv \<noteq> of_nat ep_index then (False, s)
             else if quota_full s t then (False, s)
             else let (ok, s1) = put_rust (rust_cap_reply_mint (k_mem s) (Some (Slot cs inv_slot)) (Some cs) (get_sz s t)
                                             dest_slot new_rights token (Some (k_next_serial s))) s
                  in (ok, if ok then inc_inuse t s1 else s1))"

definition cap_mint_untyped_child :: "nat \<Rightarrow> nat \<Rightarrow> nat \<Rightarrow> kstate \<Rightarrow> int \<times> kstate" where
  "cap_mint_untyped_child src_slot dest_slot child_index s =
    (let (serial, s1) = cap_alloc_fresh_serial s in
     if serial = 0 then (-1, s1)
     else if \<not> caller_has_authority s1 then (-1, s1)
     else case kcap_lookup s1 src_slot CAP_RIGHT_WRITE of
       None \<Rightarrow> (-1, s1)
     | Some a \<Rightarrow>
         let src = k_mem s1 a; cur = k_cur s1 in
         if c_typ src \<noteq> CAP_UNTYPED then (-1, s1)
         else if dest_slot \<ge> CNODE_SIZE \<or> dest_slot < KERNEL_RESERVED_CAPS then (-1, s1)
         else case get_cspace s1 cur of
           None \<Rightarrow> (-1, s1)
         | Some cs \<Rightarrow>
             if dest_slot \<ge> get_sz s1 cur then (-1, s1)
             else if slot_null s1 cs dest_slot \<and> quota_full s1 cur then (-1, s1)
             else (0, place_cap cur cs dest_slot \<lparr> c_typ = CAP_UNTYPED, c_rights = c_rights src,
                        c_object = of_nat child_index, c_badge = c_serial src, c_serial = serial, c_token = 0 \<rparr> s1))"

definition cap_grant_common :: "int \<Rightarrow> nat \<Rightarrow> nat \<Rightarrow> u32 \<Rightarrow> bool \<Rightarrow> kstate \<Rightarrow> bool \<times> kstate" where
  "cap_grant_common target_pid dest_slot src_slot new_rights from_user s =
    (if target_pid \<le> 0 \<or> target_pid \<ge> int (k_max_tasks s) then (False, s)
     else if src_slot \<ge> CNODE_SIZE \<or> dest_slot \<ge> CNODE_SIZE then (False, s)
     else if \<not> caller_has_authority s then (False, s)
     else let cur = k_cur s; t = nat target_pid in
       case (get_cspace s cur, get_cspace s t) of
         (Some src_cspace, Some dst_cspace) \<Rightarrow>
           (case rust_cap_lookup (k_mem s) (Some src_cspace) (get_sz s cur) src_slot 0 of
              None \<Rightarrow> (False, s)
            | Some src \<Rightarrow>
                let was_null = (dest_slot < get_sz s t \<and> slot_null s dst_cspace dest_slot) in
                if was_null \<and> quota_full s t then (False, s)
                else let grant = (if from_user then rust_cap_grant_from_user else rust_cap_grant_into);
                         (ok, s1) = put_rust (grant (k_mem s) (Some src) (Some dst_cspace) (get_sz s t)
                                                dest_slot new_rights (Some (k_next_serial s))) s
                     in (ok, if ok \<and> was_null then inc_inuse t s1 else s1))
       | _ \<Rightarrow> (False, s))"

definition cap_grant_into :: "int \<Rightarrow> nat \<Rightarrow> nat \<Rightarrow> u32 \<Rightarrow> kstate \<Rightarrow> bool \<times> kstate" where
  "cap_grant_into target_pid dest_slot src_slot new_rights =
    cap_grant_common target_pid dest_slot src_slot new_rights False"

definition cap_grant_from_user :: "int \<Rightarrow> nat \<Rightarrow> nat \<Rightarrow> u32 \<Rightarrow> kstate \<Rightarrow> bool \<times> kstate" where
  "cap_grant_from_user target_pid dest_slot src_slot new_rights =
    cap_grant_common target_pid dest_slot src_slot new_rights True"

section \<open>The copy a fork makes\<close>

text \<open>The ends the child now holds are counted, after a pass that checks that each
  names a pipe that exists.\<close>

definition pipe_end_slots :: "kstate \<Rightarrow> cref \<Rightarrow> nat \<Rightarrow> capability list" where
  "pipe_end_slots s cs sz =
    filter (\<lambda>c. c_typ c = CAP_PIPE \<and> c_serial c \<noteq> 0) (map (\<lambda>i. k_mem s (Slot cs i)) [0..<sz])"

definition count_end :: "capability \<Rightarrow> pipe list \<Rightarrow> pipe list" where
  "count_end c ps = snd (pipe_end_ref (c_object c) (c_rights c AND CAP_RIGHT_WRITE \<noteq> 0) ps)"

definition pipe_count_forked_ends :: "int \<Rightarrow> kstate \<Rightarrow> bool \<times> kstate" where
  "pipe_count_forked_ends child s =
    (if child \<le> 0 \<or> child \<ge> int (k_max_tasks s) then (False, s)
     else let sz = (if get_sz s (nat child) > CNODE_SIZE then CNODE_SIZE else get_sz s (nat child)) in
       case get_cspace s (nat child) of
         None \<Rightarrow> (False, s)
       | Some cs \<Rightarrow>
           let ends = pipe_end_slots s cs sz in
           if \<exists>c\<in>set ends. pipe_of (k_pipes s) (c_object c) = None then (False, s)
           else (True, s\<lparr> k_pipes := fold count_end ends (k_pipes s) \<rparr>))"

text \<open>One slot of the copy; the flag is set once the child's quota is full, which ends it.\<close>

definition clone_step :: "nat \<Rightarrow> cref \<Rightarrow> cref \<Rightarrow> nat \<Rightarrow> nat \<Rightarrow> bool \<times> int \<times> kstate \<Rightarrow> bool \<times> int \<times> kstate" where
  "clone_step child pc cc csz i st =
    (case st of (full, copied, s) \<Rightarrow>
       let src = k_mem s (Slot pc i) in
       if full then st
       else if i = CAPSLOT_REPLY_EP \<or> c_typ src = CAP_NULL \<or> c_typ src = CAP_REPLY \<or> c_serial src = 0 then st
       else if quota_full s child then (True, copied, s)
       else let was_null = slot_null s cc i;
                (ok, s1) = put_rust (rust_cap_grant_into (k_mem s) (Some (Slot pc i)) (Some cc) csz i CAP_RIGHT_ALL
                                       (Some (k_next_serial s))) s
            in if ok then (False, copied + 1, if was_null then inc_inuse child s1 else s1) else (False, copied, s1))"

definition cap_clone_cspace :: "int \<Rightarrow> int \<Rightarrow> kstate \<Rightarrow> int \<times> kstate" where
  "cap_clone_cspace parent child s =
    (if parent \<le> 0 \<or> parent \<ge> int (k_max_tasks s) then (-1, s)
     else if child \<le> 0 \<or> child \<ge> int (k_max_tasks s) then (-1, s)
     else if parent = child then (-1, s)
     else let p = nat parent; c = nat child in
       case (get_cspace s p, get_cspace s c) of
         (Some pc, Some cc) \<Rightarrow>
           let lim = (if get_sz s p < get_sz s c then get_sz s p else get_sz s c);
               lim = (if lim > CNODE_SIZE then CNODE_SIZE else lim);
               (full, copied, s1) = fold (clone_step c pc cc (get_sz s c)) [KERNEL_RESERVED_CAPS..<lim] (False, 0, s)
           in if full then (-2, s1)
              else let (ok, s2) = pipe_count_forked_ends child s1 in if ok then (copied, s2) else (-3, s2)
       | _ \<Rightarrow> (-1, s))"

section \<open>Revocation\<close>

text \<open>Every living task's cspace and the root cnode, with the counter of each.\<close>

definition task_desc :: "kstate \<Rightarrow> nat \<Rightarrow> cspace_desc" where
  "task_desc s t = \<lparr> d_caps = get_cspace s t, d_size = get_sz s t, d_inuse = Some t \<rparr>"

definition has_space :: "kstate \<Rightarrow> nat \<Rightarrow> bool" where
  "has_space s t \<longleftrightarrow> t_state (k_tasks s t) \<noteq> 0 \<and> get_cspace s t \<noteq> None"

definition root_desc :: cspace_desc where
  "root_desc = \<lparr> d_caps = Some RootC, d_size = CNODE_SIZE, d_inuse = None \<rparr>"

definition revoke_spaces :: "kstate \<Rightarrow> cspace_desc list" where
  "revoke_spaces s = map (task_desc s) (filter (has_space s) [0..<k_max_tasks s]) @ [root_desc]"

definition rev_of :: "kstate \<Rightarrow> rev_state" where
  "rev_of s = \<lparr> rv_mem = k_mem s, rv_inuse = (\<lambda>t. t_inuse (k_tasks s t)),
                rv_tally = Some (replicate (PIPE_TALLY_CELLS * MAX_PIPES) 0) \<rparr>"

definition put_rev :: "rev_state \<Rightarrow> kstate \<Rightarrow> kstate" where
  "put_rev st s = s\<lparr> k_mem := rv_mem st, k_tasks := (\<lambda>t. (k_tasks s t)\<lparr> t_inuse := rv_inuse st t \<rparr>) \<rparr>"

definition cap_revoke :: "nat \<Rightarrow> kstate \<Rightarrow> bool \<times> kstate" where
  "cap_revoke slot s =
    (if slot \<ge> CNODE_SIZE then (False, s)
     else if \<not> caller_has_authority s then (False, s)
     else let cs = cur_array s; cur = k_cur s; sz = get_sz s cur; c = k_mem s (Slot cs slot) in
       if slot < KERNEL_RESERVED_CAPS \<and> cs = RootC then (False, s)
       else if c_rights c AND CAP_RIGHT_REVOKE = 0 \<and> cs \<noteq> RootC then (False, s)
       else let (slot1, st1) = (if c_typ c = CAP_REVOCATION \<and> c_object c < of_nat CNODE_SIZE
                                then (unat (c_object c), snd (rust_cap_revoke (Some cs) sz slot (rev_of s)))
                                else (slot, rev_of s));
                target = rv_mem st1 (Slot cs slot1);
                (ok, st2) = rust_cap_revoke_global (Some cs) sz slot1 (if cs = RootC then None else Some cur)
                              (revoke_spaces s) st1;
                s1 = put_rev st2 s;
                (exact, ps) = pipe_release_revoked_ends (rv_tally st2) (k_pipes s1);
                s2 = s1\<lparr> k_pipes := ps,
                         k_rev_sets := map (\<lambda>r. if rs_valid r \<and> (rs_badge r = c_badge target \<or> rs_badge r = of_nat slot1
                                                    \<or> (c_serial target \<noteq> 0 \<and> rs_badge r = c_serial target))
                                                then r\<lparr> rs_valid := False \<rparr> else r) (k_rev_sets s1) \<rparr>
            in (ok, kobj_gc_locked s2))"

definition cap_move :: "nat \<Rightarrow> nat \<Rightarrow> kstate \<Rightarrow> bool \<times> kstate" where
  "cap_move dest_slot src_slot s =
    (let (ok, s1) = cap_transfer dest_slot src_slot s in if ok then cap_revoke src_slot s1 else (False, s1))"

definition cap_create_revocation_set :: "nat \<Rightarrow> nat \<Rightarrow> kstate \<Rightarrow> bool \<times> kstate" where
  "cap_create_revocation_set target_slot rev_slot s =
    (let (serial, s1) = cap_alloc_fresh_serial s in
     if serial = 0 then (False, s1)
     else if \<not> caller_has_authority s1 then (False, s1)
     else let cs = cur_array s1 in
       if target_slot \<ge> CNODE_SIZE \<or> rev_slot \<ge> CNODE_SIZE \<or> target_slot < 4 then (False, s1)
       else if slot_null s1 cs target_slot then (False, s1)
       else (True, set_cap (Slot cs rev_slot) \<lparr> c_typ = CAP_REVOCATION, c_rights = CAP_RIGHT_REVOKE,
                     c_object = of_nat target_slot, c_badge = 0xDEAD0000, c_serial = serial, c_token = 0 \<rparr> s1))"

section \<open>The release of a cspace\<close>

definition reparent_dying_locked :: "nat \<Rightarrow> cref \<Rightarrow> nat \<Rightarrow> kstate \<Rightarrow> kstate" where
  "reparent_dying_locked t cs sz s =
    (let spaces = map (task_desc s) (filter (\<lambda>u. u \<noteq> t \<and> has_space s u) [0..<k_max_tasks s]) @ [root_desc]
     in s\<lparr> k_mem := snd (rust_cap_reparent_dying (Some cs) sz spaces (Some (2 * CNODE_SIZE)) (k_mem s)) \<rparr>)"

definition release_cspace :: "int \<Rightarrow> bool \<Rightarrow> kstate \<Rightarrow> kstate" where
  "release_cspace pid collect s =
    (let valid = (pid > 0 \<and> pid < int (k_max_tasks s)); t = nat pid;
         s1 = (case (if valid then get_cspace s t else None) of
                 None \<Rightarrow> s
               | Some cs \<Rightarrow>
                   let sz = (if get_sz s t > CNODE_SIZE then CNODE_SIZE else get_sz s t)
                   in clear_space cs sz (reparent_dying_locked t cs sz s));
         s2 = (if valid then upd_task t (\<lambda>x. x\<lparr> t_inuse := 0 \<rparr>) s1 else s1)
     in if collect then kobj_gc_locked s2 else s2)"

definition cap_release_cspace :: "int \<Rightarrow> kstate \<Rightarrow> kstate" where
  "cap_release_cspace pid = release_cspace pid False"

definition cap_release_cspace_and_collect :: "int \<Rightarrow> kstate \<Rightarrow> kstate" where
  "cap_release_cspace_and_collect pid = release_cspace pid True"

section \<open>The invariant of all cspaces\<close>

text \<open>What the operations above read and write of the capability state.\<close>

definition cap_view :: "kstate \<Rightarrow> capmem \<times> u64 \<times> (nat \<Rightarrow> nat)" where
  "cap_view s = (k_mem s, k_next_serial s, \<lambda>t. t_inuse (k_tasks s t))"

definition view_inv :: "capmem \<times> u64 \<times> (nat \<Rightarrow> nat) \<Rightarrow> bool" where
  "view_inv v \<longleftrightarrow> (case v of (m, ns, n) \<Rightarrow>
     lineage_inv m (Some ns) \<and> (\<forall>a. c_typ (m a) \<noteq> 0 \<longrightarrow> c_serial (m a) \<noteq> 0 \<and> c_serial (m a) \<noteq> 0xDEAD0000)
     \<and> (\<forall>t. n t \<le> MAX_CAPS_PER_TASK))"

definition kcap_inv :: "kstate \<Rightarrow> bool" where
  "kcap_inv s \<longleftrightarrow> view_inv (cap_view s)"

text \<open>No serial comes back: a capability alive later was alive before under the same
  serial, or has a serial that had not been issued.\<close>

definition serials_fresh :: "kstate \<Rightarrow> kstate \<Rightarrow> bool" where
  "serials_fresh s s' \<longleftrightarrow> issued (Some (k_next_serial s)) \<le> issued (Some (k_next_serial s'))
     \<and> (\<forall>a. live (k_mem s' a) \<longrightarrow> (\<exists>b. live (k_mem s b) \<and> c_serial (k_mem s b) = c_serial (k_mem s' a))
           \<or> issued (Some (k_next_serial s)) < unat (c_serial (k_mem s' a)))"

definition cap_step :: "kstate \<Rightarrow> kstate \<Rightarrow> bool" where
  "cap_step s s' \<longleftrightarrow> (kcap_inv s \<longrightarrow> kcap_inv s' \<and> serials_fresh s s')"

lemma kcap_invD:
  assumes "kcap_inv s"
  shows "lineage_inv (k_mem s) (Some (k_next_serial s))"
    "c_typ (k_mem s a) \<noteq> 0 \<Longrightarrow> c_serial (k_mem s a) \<noteq> 0 \<and> c_serial (k_mem s a) \<noteq> 0xDEAD0000"
    "t_inuse (k_tasks s t) \<le> MAX_CAPS_PER_TASK"
  using assms by (simp_all add: kcap_inv_def view_inv_def cap_view_def)

lemma live_filled: "kcap_inv s \<Longrightarrow> live (k_mem s a) \<longleftrightarrow> c_typ (k_mem s a) \<noteq> 0"
  using kcap_invD(2)[of s a] by (auto simp: live_def)

lemma serials_fresh_trans:
  assumes "serials_fresh s t" "serials_fresh t u"
  shows "serials_fresh s u"
  unfolding serials_fresh_def
proof (intro conjI allI impI)
  let ?i = "\<lambda>x. issued (Some (k_next_serial x))"
  have m: "?i s \<le> ?i t" "?i t \<le> ?i u" using assms by (simp_all add: serials_fresh_def)
  thus "?i s \<le> ?i u" by simp
  fix a assume "live (k_mem u a)"
  then consider b where "live (k_mem t b)" "c_serial (k_mem t b) = c_serial (k_mem u a)" | "?i t < unat (c_serial (k_mem u a))"
    using assms(2) by (auto simp: serials_fresh_def)
  thus "(\<exists>b. live (k_mem s b) \<and> c_serial (k_mem s b) = c_serial (k_mem u a)) \<or> ?i s < unat (c_serial (k_mem u a))"
  proof cases
    case (1 b)
    from assms(1)[unfolded serials_fresh_def, THEN conjunct2, rule_format, OF 1(1)] show ?thesis using 1(2) by simp
  qed (use m in simp)
qed

lemma serials_fresh_view:
  "cap_view s' = cap_view s \<Longrightarrow> serials_fresh s s'" "cap_view s' = cap_view t' \<Longrightarrow> serials_fresh s t' \<Longrightarrow> serials_fresh s s'"
  by (auto simp: serials_fresh_def cap_view_def)

lemma cap_step_refl [simp]: "cap_step s s"
  by (simp add: cap_step_def serials_fresh_view)

lemma cap_step_trans: "cap_step s t \<Longrightarrow> cap_step t u \<Longrightarrow> cap_step s u"
  unfolding cap_step_def using serials_fresh_trans by blast

lemma cap_step_view: "cap_view s' = cap_view s \<Longrightarrow> cap_step s s'"
  by (simp add: cap_step_def kcap_inv_def serials_fresh_view)

lemma cap_step_post: "cap_step s t \<Longrightarrow> cap_view u = cap_view t \<Longrightarrow> cap_step s u"
  using cap_step_trans cap_step_view by blast

text \<open>A capability that may be written under the fresh serial \<open>f\<close>.\<close>

definition fits :: "capmem \<Rightarrow> u64 \<Rightarrow> capability \<Rightarrow> bool" where
  "fits m f c \<longleftrightarrow> c_serial c = f \<and> c_typ c \<noteq> CAP_MARK_NEW \<and> c_typ c \<noteq> CAP_MARK_DONE \<and> c_badge c < f
     \<and> (\<forall>a. live (m a) \<longrightarrow> c_badge c = c_serial (m a) \<longrightarrow> mask_le (c_rights c) (c_rights (m a)))"

lemma cap_step_install:
  assumes fresh: "assign_fresh_serial (Some (k_next_serial s)) = (f, ns)" "f \<noteq> 0"
    and fit: "kcap_inv s \<Longrightarrow> fits (k_mem s) f c"
    and quota: "\<And>t. n t = t_inuse (k_tasks s t) \<or> n t \<le> MAX_CAPS_PER_TASK"
    and view: "cap_view s' = ((k_mem s)(d := c), f, n)"
  shows "cap_step s s'"
  unfolding cap_step_def
proof (intro impI conjI)
  assume inv: "kcap_inv s"
  note F = assign_fresh_serial_ok[OF fresh]
  have c: "c_serial c = f" "c_typ c \<noteq> CAP_MARK_NEW" "c_typ c \<noteq> CAP_MARK_DONE" "c_badge c < f"
    "\<And>a. live (k_mem s a) \<Longrightarrow> c_badge c = c_serial (k_mem s a) \<Longrightarrow> mask_le (c_rights c) (c_rights (k_mem s a))"
    using fit[OF inv] by (auto simp: fits_def)
  have "lineage_inv ((k_mem s)(d := c)) (Some f)"
    using lineage_inv_place[OF kcap_invD(1)[OF inv] fresh c] F(1) by simp
  moreover have "f \<noteq> 0xDEAD0000" using F(2) by (auto simp: issued_def)
  ultimately show "kcap_inv s'"
    using kcap_invD(2,3)[OF inv] c(1) fresh(2) quota unfolding kcap_inv_def view_inv_def view by (auto; metis)
  show "serials_fresh s s'" using view c(1) F(1,3,4) by (auto simp: serials_fresh_def cap_view_def)
qed

lemma cap_step_nullify:
  assumes m: "kcap_inv s \<Longrightarrow> (\<And>a. k_mem s' a = k_mem s a \<or> k_mem s' a = null_cap)"
    and ns: "k_next_serial s' = k_next_serial s" and n: "\<And>t. t_inuse (k_tasks s' t) \<le> t_inuse (k_tasks s t)"
  shows "cap_step s s'"
  unfolding cap_step_def
proof (intro impI conjI)
  assume inv: "kcap_inv s"
  note m = m[OF inv]
  have f: "c_serial (k_mem s' a) \<noteq> 0 \<and> c_serial (k_mem s' a) \<noteq> 0xDEAD0000" if "c_typ (k_mem s' a) \<noteq> 0" for a
    using m[of a] kcap_invD(2)[OF inv, of a] that by auto
  have "lineage_inv (k_mem s') (Some (k_next_serial s'))"
    unfolding ns by (rule lineage_inv_nullify[OF kcap_invD(1)[OF inv] m])
  thus "kcap_inv s'" using f order.trans[OF n kcap_invD(3)[OF inv]] by (simp add: kcap_inv_def view_inv_def cap_view_def)
  have "\<exists>b. live (k_mem s b) \<and> c_serial (k_mem s b) = c_serial (k_mem s' a)" if "live (k_mem s' a)" for a
    using m[of a] that by auto
  thus "serials_fresh s s'" by (simp add: serials_fresh_def ns)
qed

section \<open>What fits\<close>

lemma fits_root:
  assumes "kcap_inv s" "assign_fresh_serial (Some (k_next_serial s)) = (f, ns)" "f \<noteq> 0"
    and "c_serial c = f" "c_typ c \<noteq> CAP_MARK_NEW" "c_typ c \<noteq> CAP_MARK_DONE" "c_badge c = 0 \<or> c_badge c = 0xDEAD0000"
  shows "fits (k_mem s) f c"
proof -
  have "0x100000000 < unat f" using assign_fresh_serial_ok(2)[OF assms(2,3)] by (simp add: issued_def)
  hence "c_badge c < f" using assms(7) by (auto simp: word_less_nat_alt)
  moreover have "c_badge c \<noteq> c_serial (k_mem s a)" if "live (k_mem s a)" for a
    using that kcap_invD(2)[OF assms(1), of a] assms(7) by (auto simp: live_def)
  ultimately show ?thesis using assms(4-6) by (auto simp: fits_def)
qed

lemma fits_child:
  assumes inv: "kcap_inv s" and fresh: "assign_fresh_serial (Some (k_next_serial s)) = (f, ns)" "f \<noteq> 0"
    and c: "c_serial c = f" "c_typ c \<noteq> CAP_MARK_NEW" "c_typ c \<noteq> CAP_MARK_DONE"
    and par: "live (k_mem s p)" "c_badge c = c_serial (k_mem s p)" "mask_le (c_rights c) (c_rights (k_mem s p))"
  shows "fits (k_mem s) f c"
proof -
  note D = lineage_invD[OF kcap_invD(1)[OF inv]]
  have "c_badge c < f" using D(3)[OF par(1)] assign_fresh_serial_ok(4)[OF fresh] par(2) by (simp add: word_less_nat_alt)
  moreover have "a = p" if "live (k_mem s a)" "c_badge c = c_serial (k_mem s a)" for a
    using D(5)[OF that(1) par(1)] that(2) par(2) by simp
  ultimately show ?thesis using c par(3) by (auto simp: fits_def)
qed

lemma cap_types_ok: "kcap_inv s \<Longrightarrow> c_typ (k_mem s a) \<noteq> CAP_MARK_NEW \<and> c_typ (k_mem s a) \<noteq> CAP_MARK_DONE"
  using lineage_invD(1,2)[OF kcap_invD(1)] by blast

section \<open>One lemma per operation\<close>

lemma cap_alloc_serial_cases:
  assumes "cap_alloc_fresh_serial s = (f, s1)"
  shows "f = 0 \<and> s1 = s \<or> f \<noteq> 0 \<and> s1 = s\<lparr> k_next_serial := f \<rparr> \<and> assign_fresh_serial (Some (k_next_serial s)) = (f, Some f)"
proof -
  obtain ns where a: "assign_fresh_serial (Some (k_next_serial s)) = (f, ns)"
    and s1: "s1 = (case ns of None \<Rightarrow> s | Some n \<Rightarrow> s\<lparr> k_next_serial := n \<rparr>)"
    using assms by (auto simp: cap_alloc_fresh_serial_def rust_cap_alloc_serial_def Let_def split: prod.splits)
  show ?thesis
    using a s1 assign_fresh_serial_fail[of "Some (k_next_serial s)" ns] assign_fresh_serial_ok(1)[OF a] by (cases "f = 0") auto
qed

lemma cap_step_serial: "cap_alloc_fresh_serial s = (f, s1) \<Longrightarrow> cap_step s s1"
proof -
  assume a: "cap_alloc_fresh_serial s = (f, s1)"
  show ?thesis
  proof (cases "f = 0")
    case False
    hence s1: "s1 = s\<lparr> k_next_serial := f \<rparr>" "assign_fresh_serial (Some (k_next_serial s)) = (f, Some f)"
      using cap_alloc_serial_cases[OF a] by auto
    note F = assign_fresh_serial_ok[OF s1(2) False]
    have "kcap_inv s \<Longrightarrow> kcap_inv s1"
      using F(3,4) lineage_inv_issued_mono[of "k_mem s" "Some (k_next_serial s)" "Some f"]
      by (auto simp: kcap_inv_def view_inv_def cap_view_def s1(1))
    thus ?thesis using F(3,4) by (auto simp: cap_step_def serials_fresh_def s1(1))
  qed (use cap_alloc_serial_cases[OF a] in auto)
qed

lemma note_named_view [simp]: "cap_view (kobj_note_named ty obj s) = cap_view s"
  by (auto simp: cap_view_def kobj_note_named_def kobj_unpin_def Let_def)

lemma cap_view_place:
  "cap_view (place_cap t cs slot c s) = ((k_mem s)(Slot cs slot := c), k_next_serial s,
     \<lambda>u. if u = t \<and> slot_null s cs slot then t_inuse (k_tasks s u) + 1 else t_inuse (k_tasks s u))"
  by (auto simp: cap_view_def place_cap_def Let_def inc_inuse_def fun_eq_iff)

lemma cap_view_serial: "cap_view (s\<lparr> k_next_serial := f \<rparr>) = (k_mem s, f, \<lambda>t. t_inuse (k_tasks s t))"
  by (simp add: cap_view_def)

text \<open>An install under a serial just taken.\<close>

lemma cap_step_place:
  assumes a: "cap_alloc_fresh_serial s = (f, s1)" "f \<noteq> 0"
    and view: "cap_view s2 = cap_view s1" "k_tasks s2 = k_tasks s1"
    and fit: "kcap_inv s \<Longrightarrow> assign_fresh_serial (Some (k_next_serial s)) = (f, Some f) \<Longrightarrow> fits (k_mem s) f c"
    and quota: "\<not> (slot_null s1 cs slot \<and> quota_full s1 t)"
    and s': "cap_view s' = cap_view (place_cap t cs slot c s2)"
  shows "cap_step s s'"
proof -
  have s1: "s1 = s\<lparr> k_next_serial := f \<rparr>" "assign_fresh_serial (Some (k_next_serial s)) = (f, Some f)"
    using cap_alloc_serial_cases[OF a(1)] a(2) by auto
  have m: "k_mem s2 = k_mem s" "k_next_serial s2 = f" "k_tasks s2 = k_tasks s" "slot_null s2 cs slot = slot_null s1 cs slot"
    using view by (auto simp: s1(1) cap_view_def slot_null_def)
  show ?thesis
    by (rule cap_step_install[OF s1(2) a(2) fit[OF _ s1(2)], OF _ _ s'[unfolded cap_view_place m]])
      (use quota in \<open>auto simp: quota_full_def s1(1)\<close>)
qed

lemma cap_step_note: "cap_step s t \<Longrightarrow> cap_step s (kobj_note_named ty obj t)"
  by (rule cap_step_post) simp_all

lemma cap_step_place_root:
  assumes "cap_alloc_fresh_serial s = (f, s1)" "f \<noteq> 0" "\<not> (slot_null s1 cs slot \<and> quota_full s1 t)"
    and "c_serial c = f" "c_typ c \<noteq> CAP_MARK_NEW" "c_typ c \<noteq> CAP_MARK_DONE" "c_badge c = 0"
  shows "cap_step s (place_cap t cs slot c s1)"
  by (rule cap_step_place[OF assms(1,2) refl refl _ assms(3) refl]) (use assms(2,4-7) in \<open>auto intro!: fits_root\<close>)

lemma cap_step_place_child:
  assumes "cap_alloc_fresh_serial s = (f, s1)" "f \<noteq> 0" "\<not> (slot_null s1 cs slot \<and> quota_full s1 t)"
    and "c_serial c = f" "c_typ c = c_typ (k_mem s p)" "live (k_mem s p)" "c_badge c = c_serial (k_mem s p)"
    "mask_le (c_rights c) (c_rights (k_mem s p))"
    and "cap_view s2 = cap_view s1" "k_tasks s2 = k_tasks s1"
  shows "cap_step s (place_cap t cs slot c s2)"
  by (rule cap_step_place[OF assms(1,2) assms(9,10) _ assms(3) refl])
    (use assms(2,4-8) cap_types_ok[of s p] in \<open>auto intro!: fits_child\<close>)

lemma cap_alloc_serial_mem:
  assumes "cap_alloc_fresh_serial s = (f, s1)"
  shows "k_mem s1 = k_mem s" "k_tasks s1 = k_tasks s" "k_cur s1 = k_cur s" "k_max_tasks s1 = k_max_tasks s"
    "k_pipes s1 = k_pipes s" "get_cspace s1 = get_cspace s" "get_sz s1 = get_sz s"
    "slot_null s1 = slot_null s" "quota_full s1 = quota_full s" "caller_has_authority s1 = caller_has_authority s"
  using cap_alloc_serial_cases[OF assms]
  by (auto simp: get_cspace_def get_sz_def slot_null_def quota_full_def caller_has_authority_def fun_eq_iff)

lemma step_install_from_root: "cap_step s (snd (cap_install_from_root pid slot rslot obj s))"
proof -
  obtain f s1 where a: "cap_alloc_fresh_serial s = (f, s1)" by (metis prod.exhaust)
  have put: "cap_step s (set_cap d c s1)" if "f \<noteq> 0" "c_serial c = f" "c_typ c = c_typ (k_mem s r)" "c_badge c = 0" for d c r
  proof -
    have s1: "s1 = s\<lparr> k_next_serial := f \<rparr>" "assign_fresh_serial (Some (k_next_serial s)) = (f, Some f)"
      using cap_alloc_serial_cases[OF a] that(1) by auto
    show ?thesis
      by (rule cap_step_install[OF s1(2) that(1), where c = c and d = d and n = "\<lambda>t. t_inuse (k_tasks s t)"])
        (use that s1 cap_types_ok[of s] in \<open>auto simp: cap_view_def intro!: fits_root\<close>)
  qed
  show ?thesis unfolding cap_install_from_root_def Let_def a
    by (auto split: option.splits if_splits intro!: cap_step_note put cap_step_serial[OF a])
qed

definition kernel_type :: "u32 \<Rightarrow> bool" where
  "kernel_type ty \<longleftrightarrow> ty \<noteq> CAP_NULL \<and> ty \<noteq> CAP_MARK_NEW \<and> ty \<noteq> CAP_MARK_DONE"

lemma step_install_object:
  "kernel_type ty \<Longrightarrow> cap_step s (snd (cap_install_object slot ty obj rights 0 s))"
proof -
  assume ty: "kernel_type ty"
  obtain f s1 where a: "cap_alloc_fresh_serial s = (f, s1)" by (metis prod.exhaust)
  show ?thesis using ty unfolding cap_install_object_def Let_def a
    by (auto simp: kernel_type_def split: option.splits if_splits intro!: cap_step_note cap_step_place_root[OF a] cap_step_serial[OF a])
qed

lemma step_install_first_free:
  "kernel_type ty \<Longrightarrow> cap_step s (snd (cap_install_object_first_free mn ty obj rights 0 s))"
proof -
  assume ty: "kernel_type ty"
  obtain f s1 where a: "cap_alloc_fresh_serial s = (f, s1)" by (metis prod.exhaust)
  show ?thesis using ty unfolding cap_install_object_first_free_def Let_def a
    by (auto simp: kernel_type_def split: option.splits if_splits intro!: cap_step_note cap_step_place_root[OF a] cap_step_serial[OF a])
qed

lemma step_install_derived:
  assumes ty: "kernel_type ty"
  shows "cap_step s (snd (cap_install_derived_object d sl ser ty obj rights s))"
proof -
  obtain f s1 where a: "cap_alloc_fresh_serial s = (f, s1)" by (metis prod.exhaust)
  have c: "cap_step s (place_cap t cs d \<lparr> c_typ = c_typ (k_mem s1 p), c_rights = rights AND c_rights (k_mem s1 p),
       c_object = obj, c_badge = c_serial (k_mem s1 p), c_serial = f, c_token = 0 \<rparr> s1)"
    if "f \<noteq> 0" "\<not> slot_null s1 cs d \<or> \<not> quota_full s1 t" "c_serial (k_mem s1 p) \<noteq> 0" "c_typ (k_mem s1 p) = ty" for t cs p
    using that ty by (intro cap_step_place_child[OF a, where p = p])
      (auto simp: cap_alloc_serial_mem[OF a] live_def kernel_type_def mask_le_and)
  show ?thesis unfolding cap_install_derived_object_def Let_def a
    by (auto split: option.splits if_splits intro!: cap_step_note c cap_step_serial[OF a])
qed

lemma step_install_reply: "cap_step s (snd (cap_install_reply_for pid snd' gen s))"
proof -
  obtain f s1 where a: "cap_alloc_fresh_serial s = (f, s1)" by (metis prod.exhaust)
  show ?thesis unfolding cap_install_reply_for_def Let_def a
    by (auto split: option.splits if_splits intro!: cap_step_place_root[OF a] cap_step_serial[OF a])
qed

lemma step_drop: "cap_step s (drop_cap t cs slot s)"
  by (rule cap_step_nullify) (auto simp: drop_cap_def dec_inuse_of_def)

lemma step_consume: "cap_step s (snd (cap_consume_slot d s))"
  by (auto simp: cap_consume_slot_def Let_def step_drop split: option.splits)

lemma step_consume_of: "cap_step s (snd (snd (cap_consume_slot_of pid d s)))"
  by (auto simp: cap_consume_slot_of_def Let_def step_drop split: option.splits)

lemma step_child_pipe_end: "cap_step s (snd (cap_install_child_pipe_end ch d sp sl rights s))"
proof -
  obtain f s1 where a: "cap_alloc_fresh_serial s = (f, s1)" by (metis prod.exhaust)
  have c: "cap_step s (place_cap t cs e \<lparr> c_typ = CAP_PIPE, c_rights = rights, c_object = c_object (k_mem s1 p),
       c_badge = c_serial (k_mem s1 p), c_serial = f, c_token = 0 \<rparr> (s1\<lparr> k_pipes := ps \<rparr>))"
    if "f \<noteq> 0" "\<not> quota_full s1 t" "rust_cap_lookup (k_mem s1) x y sl 0 = Some p" "c_typ (k_mem s1 p) = CAP_PIPE"
      "c_rights (k_mem s1 p) AND rights = rights" for t cs e p ps x y
    using that by (intro cap_step_place_child[OF a, where p = p])
      (auto simp: cap_alloc_serial_mem[OF a] rust_cap_lookup_Some_iff cap_view_def mask_le_def and.commute)
  show ?thesis unfolding cap_install_child_pipe_end_def Let_def a
    by (auto split: option.splits if_splits prod.splits intro!: c cap_step_serial[OF a])
qed

text \<open>A derivation of the Rust core: it changes nothing, or writes one capability under
  a fresh serial that fits.\<close>

definition sound_derivation :: "kstate \<Rightarrow> cap_result \<Rightarrow> bool" where
  "sound_derivation s r \<longleftrightarrow> (case r of (ok, m, ns) \<Rightarrow>
     (\<not> ok \<and> m = k_mem s \<and> ns = Some (k_next_serial s)) \<or>
     (ok \<and> (\<exists>d c f. assign_fresh_serial (Some (k_next_serial s)) = (f, Some f) \<and> f \<noteq> 0 \<and> ns = Some f
        \<and> m = (k_mem s)(d := c) \<and> (kcap_inv s \<longrightarrow> fits (k_mem s) f c))))"

lemma sound_derivationI:
  assumes "\<And>m ns. r = (False, m, ns) \<Longrightarrow> m = k_mem s \<and> ns = Some (k_next_serial s)"
    and "\<And>m ns. r = (True, m, ns) \<Longrightarrow> \<exists>d c f. assign_fresh_serial (Some (k_next_serial s)) = (f, ns) \<and> f \<noteq> 0
        \<and> m = (k_mem s)(d := c) \<and> (kcap_inv s \<longrightarrow> fits (k_mem s) f c)"
  shows "sound_derivation s r"
proof -
  obtain ok m ns where r: "r = (ok, m, ns)" by (metis prod_cases3)
  show ?thesis
  proof (cases ok)
    case True
    then obtain d c f where "assign_fresh_serial (Some (k_next_serial s)) = (f, ns)" "f \<noteq> 0" "m = (k_mem s)(d := c)"
      "kcap_inv s \<longrightarrow> fits (k_mem s) f c" using assms(2)[of m ns] r by auto
    thus ?thesis using assign_fresh_serial_ok(1)[of "Some (k_next_serial s)" f ns] True
      unfolding sound_derivation_def r by auto
  qed (use assms(1)[of m ns] r in \<open>simp add: sound_derivation_def\<close>)
qed

lemma fits_derived:
  assumes "kcap_inv s" "assign_fresh_serial (Some (k_next_serial s)) = (f, ns)" "f \<noteq> 0" "live (k_mem s p)"
  shows "fits (k_mem s) f (derived_cap (k_mem s p) nr f)"
  using cap_types_ok[OF assms(1), of p] by (intro fits_child[OF assms(1-3) _ _ _ assms(4)]) (auto intro: plain.narrows)

lemma fits_tokened:
  assumes "kcap_inv s" "assign_fresh_serial (Some (k_next_serial s)) = (f, ns)" "f \<noteq> 0"
    and "c_typ (k_mem s p) = CAP_ENDPOINT" "c_serial (k_mem s p) \<noteq> 0"
  shows "fits (k_mem s) f (token_cap t (k_mem s p) nr f)"
  by (intro fits_child[OF assms(1-3) _ _ _ live_endpointI[OF assms(4,5)]]) (auto intro: tokened.narrows)

lemma sound_mint: "sound_derivation s (rust_cap_mint (k_mem s) cs sz d sl nr (Some (k_next_serial s)))"
  by (rule sound_derivationI) (auto simp: rust_cap_mint_True_iff intro: fits_derived dest: rust_cap_mint_False)

lemma sound_transfer: "sound_derivation s (rust_cap_transfer (k_mem s) cs sz d sl (Some (k_next_serial s)))"
  unfolding rust_cap_transfer_def by (rule sound_mint)

lemma sound_mint_token: "sound_derivation s (rust_cap_mint_token (k_mem s) cs sz d sl nr t (Some (k_next_serial s)))"
  by (rule sound_derivationI)
    (auto simp: rust_cap_mint_token_True_iff intro: fits_tokened dest: rust_cap_mint_token_False)

lemma sound_grant: "sound_derivation s (rust_cap_grant_into (k_mem s) src cs sz d nr (Some (k_next_serial s)))"
  by (rule sound_derivationI) (auto simp: rust_cap_grant_into_True_iff intro: fits_derived dest: rust_cap_grant_into_False)

lemma sound_grant_user: "sound_derivation s (rust_cap_grant_from_user (k_mem s) src cs sz d nr (Some (k_next_serial s)))"
  by (rule sound_derivationI)
    (auto simp: rust_cap_grant_from_user_True_iff rust_cap_grant_into_True_iff intro: fits_derived dest: rust_cap_grant_from_user_False)

lemma sound_reply_mint: "sound_derivation s (rust_cap_reply_mint (k_mem s) src cs sz d nr t (Some (k_next_serial s)))"
  by (rule sound_derivationI)
    (auto simp: rust_cap_reply_mint_True_iff intro: fits_tokened dest: rust_cap_reply_mint_False)

lemma step_put_rust:
  assumes snd: "sound_derivation s r" and run: "put_rust r s = (ok, s1)" and quota: "b \<Longrightarrow> \<not> quota_full s t"
  shows "cap_step s (if ok \<and> b then inc_inuse t s1 else s1)"
proof -
  obtain m ns where r: "r = (ok, m, ns)" "s1 = s\<lparr> k_mem := m, k_next_serial := (case ns of None \<Rightarrow> k_next_serial s | Some n \<Rightarrow> n) \<rparr>"
    using run by (auto simp: put_rust_def split: prod.splits)
  show ?thesis
  proof (cases ok)
    case False
    thus ?thesis using snd r by (intro cap_step_view) (simp add: sound_derivation_def cap_view_def)
  next
    case True
    then obtain d c f where f: "assign_fresh_serial (Some (k_next_serial s)) = (f, Some f)" "f \<noteq> 0" "ns = Some f"
      "m = (k_mem s)(d := c)" "kcap_inv s \<Longrightarrow> fits (k_mem s) f c" using snd r by (auto simp: sound_derivation_def)
    show ?thesis
      by (rule cap_step_install[OF f(1,2,5), where d = d and n = "\<lambda>u. if u = t \<and> b then t_inuse (k_tasks s u) + 1 else t_inuse (k_tasks s u)"])
        (use True r f quota in \<open>auto simp: cap_view_def inc_inuse_def quota_full_def fun_eq_iff\<close>)
  qed
qed

lemma step_own_derivation:
  assumes "\<And>s. sound_derivation s (rust s)"
  shows "cap_step s (snd (own_derivation d sl rust s))"
proof -
  obtain ok s1 where r: "put_rust (rust s) s = (ok, s1)" by (metis prod.exhaust)
  have "cap_step s (if ok \<and> slot_null s (cur_array s) d then inc_inuse (k_cur s) s1 else s1)"
    if "\<not> (slot_null s (cur_array s) d \<and> quota_full s (k_cur s))"
    using step_put_rust[OF assms r, of "slot_null s (cur_array s) d" "k_cur s"] that by blast
  thus ?thesis unfolding own_derivation_def Let_def r by (auto split: option.splits)
qed

lemma step_mint: "cap_step s (snd (cap_mint d sl nr s))"
  unfolding cap_mint_def by (rule step_own_derivation[OF sound_mint])

lemma step_mint_token: "cap_step s (snd (cap_mint_token d sl nr t s))"
  unfolding cap_mint_token_def by (rule step_own_derivation[OF sound_mint_token])

lemma step_transfer: "cap_step s (snd (cap_transfer d sl s))"
  unfolding cap_transfer_def by (rule step_own_derivation[OF sound_transfer])

lemma step_reply_mint: "cap_step s (snd (cap_reply_mint_into pid i ser e d nr t s))"
proof -
  have "cap_step s (snd (let (ok, s1) = put_rust (rust_cap_reply_mint (k_mem s) src cs sz d nr t (Some (k_next_serial s))) s
      in (ok, if ok then inc_inuse u s1 else s1)))" if "\<not> quota_full s u" for src cs sz u
  proof -
    obtain ok s1 where r: "put_rust (rust_cap_reply_mint (k_mem s) src cs sz d nr t (Some (k_next_serial s))) s = (ok, s1)"
      by (metis prod.exhaust)
    show ?thesis using step_put_rust[OF sound_reply_mint r, of True u] that by (simp add: r)
  qed
  thus ?thesis unfolding cap_reply_mint_into_def Let_def[of "nat pid"] Let_def[of "k_mem s _"] by (auto split: option.splits)
qed

lemma step_mint_untyped: "cap_step s (snd (cap_mint_untyped_child sl d ch s))"
proof -
  obtain f s1 where a: "cap_alloc_fresh_serial s = (f, s1)" by (metis prod.exhaust)
  have c: "cap_step s (place_cap t cs e \<lparr> c_typ = CAP_UNTYPED, c_rights = c_rights (k_mem s1 p), c_object = of_nat ch,
       c_badge = c_serial (k_mem s1 p), c_serial = f, c_token = 0 \<rparr> s1)"
    if "f \<noteq> 0" "\<not> slot_null s1 cs e \<or> \<not> quota_full s1 t" "kcap_lookup s1 sl CAP_RIGHT_WRITE = Some p" "c_typ (k_mem s1 p) = CAP_UNTYPED"
    for t cs p e
    using that by (intro cap_step_place_child[OF a, where p = p])
      (auto simp: cap_alloc_serial_mem[OF a] kcap_lookup_def cap_lookup_def rust_cap_lookup_typed_Some_iff mask_le_refl split: option.splits)
  show ?thesis unfolding cap_mint_untyped_child_def Let_def a
    by (auto split: option.splits if_splits intro!: c cap_step_serial[OF a])
qed

lemma step_grant: "cap_step s (snd (cap_grant_common pid d sl nr u s))"
proof -
  have g: "cap_step s (snd (case put_rust r s of (ok, s1) \<Rightarrow> (ok, if ok \<and> b then inc_inuse t s1 else s1)))"
    if "sound_derivation s r" "b \<longrightarrow> \<not> quota_full s t" for r b t
  proof -
    obtain ok s1 where p: "put_rust r s = (ok, s1)" by (metis prod.exhaust)
    from step_put_rust[OF that(1) p, of b t] show ?thesis using that by (simp add: p)
  qed
  show ?thesis unfolding cap_grant_common_def Let_def
    by (cases u) (auto split: option.splits intro!: g sound_grant sound_grant_user)
qed

lemma count_forked_view: "cap_view (snd (pipe_count_forked_ends ch s)) = cap_view s"
  by (auto simp: pipe_count_forked_ends_def Let_def cap_view_def split: option.splits)

lemma step_clone: "cap_step s (snd (cap_clone_cspace p ch s))"
proof -
  have one: "cap_step s (snd (snd (clone_step c pc cc csz i (full, n, s))))" for c pc cc csz i full n s
  proof -
    obtain ok s1 where r: "put_rust (rust_cap_grant_into (k_mem s) (Some (Slot pc i)) (Some cc) csz i CAP_RIGHT_ALL
        (Some (k_next_serial s))) s = (ok, s1)" by (metis prod.exhaust)
    show ?thesis
    proof (cases "quota_full s c")
      case False
      thus ?thesis using step_put_rust[OF sound_grant r, of "slot_null s cc i" c]
        by (auto simp: clone_step_def Let_def r split: if_splits)
    qed (simp add: clone_step_def Let_def)
  qed
  have many: "cap_step s (snd (snd (fold (clone_step c pc cc csz) xs (full, n, s))))" for c pc cc csz xs full n s
  proof (induction xs arbitrary: full n s)
    case (Cons x xs)
    obtain f1 n1 s1 where e: "clone_step c pc cc csz x (full, n, s) = (f1, n1, s1)" by (metis prod_cases3)
    show ?case using cap_step_trans[OF _ Cons[of s1 f1 n1]] one[of s c pc cc csz x full n] by (simp add: e)
  qed simp
  have "cap_step s (snd (case fold (clone_step c pc cc csz) xs (False, 0, s) of (full, copied, s1) \<Rightarrow>
      if full then (-2, s1) else case pipe_count_forked_ends ch s1 of (ok, s2) \<Rightarrow> if ok then (copied, s2) else (-3, s2)))" for c pc cc csz xs
  proof -
    obtain full n s1 where e: "fold (clone_step c pc cc csz) xs (False, 0, s) = (full, n, s1)" by (metis prod_cases3)
    obtain ok s2 where o': "pipe_count_forked_ends ch s1 = (ok, s2)" by (metis prod.exhaust)
    have "cap_step s s1" using many[of s c pc cc csz xs False 0] by (simp add: e)
    moreover have "cap_view s2 = cap_view s1" using count_forked_view[of ch s1] by (simp add: o')
    ultimately show ?thesis using cap_step_post[of s s1 s2] by (simp add: e o')
  qed
  thus ?thesis unfolding cap_clone_cspace_def Let_def by (auto split: option.splits simp del: upt_rec_numeral)
qed

section \<open>Revocation and release\<close>

lemma cap_view_gc [simp]: "cap_view (kobj_gc_locked s) = cap_view s"
proof -
  have u: "cap_view (upd_sc i h s) = cap_view s" "cap_view (uncount_carved c s) = cap_view s"
    "cap_view (reparent_ctx i j k s) = cap_view s" "cap_view (unbind_task i t s) = cap_view s" "cap_view (clear_stamp i l s) = cap_view s"
    "cap_view (uncount_object ui s) = cap_view s" for i h c j k t l ui s
    by (auto simp: cap_view_def upd_sc_def uncount_carved_def reparent_ctx_def unbind_task_def clear_stamp_def uncount_object_def
        upd_untyped_def upd_task_def fun_eq_iff split: option.split)
  have d: "cap_view (sched_context_destroyed idx s) = cap_view s" for idx s
    unfolding sched_context_destroyed_def Let_def by (auto simp: u fold_view[of cap_view] split: option.split)
  have w: "cap_view (upd_task t f s) = cap_view s" if "\<And>x. t_inuse (f x) = t_inuse x" for t f s
    using that by (auto simp: cap_view_def fun_eq_iff)
  have "cap_view (destroy_dyn_endpoint i s) = cap_view s" "cap_view (destroy_dyn_notification i s) = cap_view s"
    "cap_view (destroy_dyn_frame i s) = cap_view s" "cap_view (destroy_dyn_sc i s) = cap_view s" for i s
  proof -
    have p: "cap_view (s\<lparr> k_dyn_eps := a \<rparr>) = cap_view s" "cap_view (s\<lparr> k_dyn_notifs := a \<rparr>) = cap_view s"
      "cap_view (s\<lparr> k_dyn_frames := a \<rparr>) = cap_view s" "cap_view (s\<lparr> k_dyn_scs := a \<rparr>) = cap_view s"
      "cap_view (s\<lparr> k_eps := b \<rparr>) = cap_view s" "cap_view (s\<lparr> k_notifs := c \<rparr>) = cap_view s" "cap_view (s\<lparr> k_scs := e \<rparr>) = cap_view s"
      "cap_view (s\<lparr> k_pool := g \<rparr>) = cap_view s" for s a b c e g
      by (simp_all add: cap_view_def)
    show "cap_view (destroy_dyn_endpoint i s) = cap_view s" "cap_view (destroy_dyn_notification i s) = cap_view s"
      "cap_view (destroy_dyn_frame i s) = cap_view s" "cap_view (destroy_dyn_sc i s) = cap_view s"
      unfolding destroy_dyn_endpoint_def destroy_dyn_notification_def destroy_dyn_frame_def destroy_dyn_sc_def Let_def
      by (simp_all add: p u d w)
  qed
  thus ?thesis unfolding kobj_gc_locked_def Let_def
    by (simp add: sweep_fold[where v = cap_view])
qed

definition nulled :: "rev_state \<Rightarrow> rev_state \<Rightarrow> bool" where
  "nulled st st' \<longleftrightarrow> (\<forall>a. rv_mem st' a = rv_mem st a \<or> rv_mem st' a = null_cap) \<and> (\<forall>t. rv_inuse st' t \<le> rv_inuse st t)"

lemma revoke_subtree_inuse: "rv_inuse (revoke_subtree spaces rs ro st) t \<le> rv_inuse st t"
proof -
  have "rv_inuse (fold (sweep_slot rs ro) xs st) t \<le> rv_inuse st t" for xs st
    by (rule fold_mono_rel[where R = "\<lambda>a b. rv_inuse b t \<le> rv_inuse a t"])
      (auto simp: sweep_slot_def Let_def dec_inuse_eq)
  hence "rv_inuse (fold (sweep_slot rs ro) xs (st\<lparr> rv_mem := m, rv_tally := y \<rparr>)) t \<le> rv_inuse st t" for xs m y
    by (rule order.trans) simp
  thus ?thesis unfolding revoke_subtree_def Let_def split_beta .
qed

definition rev_sound :: "rev_state \<Rightarrow> bool" where
  "rev_sound st \<longleftrightarrow> (\<exists>ns. lineage_inv (rv_mem st) ns) \<and> (\<forall>a. c_typ (rv_mem st a) \<noteq> 0 \<longrightarrow> c_serial (rv_mem st a) \<noteq> 0)"

lemma nulled_sound: "rev_sound st \<Longrightarrow> nulled st st' \<Longrightarrow> rev_sound st'"
  unfolding rev_sound_def nulled_def by (metis lineage_inv_nullify null_cap_sel(1))

lemma nulled_trans: "nulled a b \<Longrightarrow> nulled b c \<Longrightarrow> nulled a c"
  unfolding nulled_def by (metis le_trans)

lemma revoke_nulls:
  assumes s: "rev_sound st" and run: "rust_cap_revoke cs sz slot st = (ok, st')"
  shows "nulled st st'"
proof (cases "st' = st")
  case False
  then obtain r where r: "cs = Some r" "c_typ (rv_mem st (Slot r slot)) \<noteq> 0"
    using run by (auto simp: rust_cap_revoke_def Let_def split: option.splits if_splits)
  define t where "t = rv_mem st (Slot r slot)"
  define st1 where "st1 = st\<lparr> rv_mem := (rv_mem st)(Slot r slot := null_cap), rv_tally := tally_note (rv_tally st) t \<rparr>"
  have st': "st' = revoke_subtree [\<lparr> d_caps = Some r, d_size = sz, d_inuse = None \<rparr>] (c_serial t) (c_object t) st1"
    using run False r by (auto simp: rust_cap_revoke_def Let_def t_def st1_def split: if_splits)
  obtain ns where l: "lineage_inv (rv_mem st) ns" and f: "c_serial t \<noteq> 0" using s r(2) by (auto simp: rev_sound_def t_def)
  have nm: "no_marks (rv_mem st1)" using no_marks_lineage[OF l] by (simp add: st1_def)
  have "rv_mem st' a = rv_mem st1 a \<or> rv_mem st' a = null_cap" for a
    using revoke_subtree_exact(1)[OF nm f refl, of _ "c_object t" a] unfolding st' by metis
  moreover have "rv_mem st1 a = rv_mem st a \<or> rv_mem st1 a = null_cap" for a by (simp add: st1_def)
  ultimately have "\<forall>a. rv_mem st' a = rv_mem st a \<or> rv_mem st' a = null_cap" by metis
  moreover have "rv_inuse st' x \<le> rv_inuse st x" for x
    using revoke_subtree_inuse[of _ "c_serial t" "c_object t" st1 x] unfolding st' by (simp add: st1_def)
  ultimately show ?thesis by (simp add: nulled_def)
qed (simp add: nulled_def)

lemma revoke_global_nulls:
  assumes s: "rev_sound st" and run: "rust_cap_revoke_global cs sz slot ref spaces st = (ok, st')"
  shows "nulled st st'"
proof (cases "st' = st")
  case False
  then obtain r where r: "cs = Some r" "c_typ (rv_mem st (Slot r slot)) \<noteq> 0" "ok"
    using run by (auto simp: rust_cap_revoke_global_def Let_def split: option.splits if_splits)
  obtain ns where l: "lineage_inv (rv_mem st) ns" and f: "live (rv_mem st (Slot r slot))" using s r(2) by (auto simp: rev_sound_def live_def)
  have run': "rust_cap_revoke_global (Some r) sz slot ref spaces st = (True, st')" using run r by simp
  have "rv_mem st' a = rv_mem st a \<or> rv_mem st' a = null_cap" for a
    using revoke_global_spec(1)[OF l run' f, of a] by metis
  moreover have "rv_inuse st' t \<le> rv_inuse st t" for t
    unfolding revoke_global_cases[OF run' r(2)]
    by (rule order.trans[OF revoke_subtree_inuse]) (simp add: dec_inuse_eq)
  ultimately show ?thesis by (simp add: nulled_def)
qed (simp add: nulled_def)

lemma rev_of_sound: "kcap_inv s \<Longrightarrow> rev_sound (rev_of s)"
  using kcap_invD(1,2)[of s] by (auto simp: rev_sound_def rev_of_def)

lemma cap_step_nulled:
  assumes "kcap_inv s \<Longrightarrow> nulled (rev_of s) st" "cap_view s' = cap_view (put_rev st s)"
  shows "cap_step s s'"
proof (cases "kcap_inv s")
  case True
  note n = assms(1)[OF True]
  have v: "k_mem s' = rv_mem st" "k_next_serial s' = k_next_serial s" "(\<lambda>t. t_inuse (k_tasks s' t)) = rv_inuse st"
    using assms(2) by (auto simp: cap_view_def put_rev_def)
  show ?thesis
    by (rule cap_step_nullify) (use n v fun_cong[OF v(3)] in \<open>auto simp: nulled_def rev_of_def\<close>)
qed (simp add: cap_step_def)

lemma step_revoke: "cap_step s (snd (cap_revoke slot s))"
proof (cases "snd (cap_revoke slot s) = s")
  case False
  define cs sz c where "cs = cur_array s" and "sz = get_sz s (k_cur s)" and "c = k_mem s (Slot (cur_array s) slot)"
  define p where "p = (if c_typ c = CAP_REVOCATION \<and> c_object c < of_nat CNODE_SIZE
    then (unat (c_object c), snd (rust_cap_revoke (Some cs) sz slot (rev_of s))) else (slot, rev_of s))"
  define q where "q = rust_cap_revoke_global (Some cs) sz (fst p) (if cs = RootC then None else Some (k_cur s)) (revoke_spaces s) (snd p)"
  have n1: "nulled (rev_of s) (snd p)" if "kcap_inv s"
    using revoke_nulls[OF rev_of_sound[OF that], of "Some cs" sz slot "fst (rust_cap_revoke (Some cs) sz slot (rev_of s))"]
    by (auto simp: p_def nulled_def)
  have n: "nulled (rev_of s) (snd q)" if "kcap_inv s"
    using nulled_trans[OF n1[OF that]] revoke_global_nulls[OF nulled_sound[OF rev_of_sound[OF that] n1[OF that]]]
    unfolding q_def by (metis prod.collapse)
  have "\<exists>ps rs. snd (cap_revoke slot s) = kobj_gc_locked ((put_rev (snd q) s)\<lparr> k_pipes := ps, k_rev_sets := rs \<rparr>)"
    using False unfolding cap_revoke_def Let_def split_beta cs_def[symmetric] sz_def[symmetric]
      c_def[folded cs_def, symmetric] p_def[symmetric] q_def[symmetric]
    by (auto simp only: if_True if_False snd_conv split: if_splits)
  hence "cap_view (snd (cap_revoke slot s)) = cap_view (put_rev (snd q) s)" by (auto simp: cap_view_def[of "_\<lparr> k_pipes := _, k_rev_sets := _ \<rparr>"] cap_view_def[of "put_rev _ _"])
  from cap_step_nulled[OF n this] show ?thesis .
qed simp

lemma step_move: "cap_step s (snd (cap_move d src s))"
  unfolding cap_move_def Let_def split_beta by (auto intro: cap_step_trans[OF step_transfer step_revoke] step_transfer)

lemma step_create_revocation_set: "cap_step s (snd (cap_create_revocation_set t r s))"
proof -
  obtain f s1 where a: "cap_alloc_fresh_serial s = (f, s1)" by (metis prod.exhaust)
  let ?c = "\<lparr> c_typ = CAP_REVOCATION, c_rights = CAP_RIGHT_REVOKE, c_object = of_nat t, c_badge = 0xDEAD0000, c_serial = f, c_token = 0 \<rparr>"
  have "cap_step s (set_cap (Slot (cur_array s1) r) ?c s1)" if "f \<noteq> 0"
  proof (rule cap_step_install)
    show "assign_fresh_serial (Some (k_next_serial s)) = (f, Some f)" "f \<noteq> 0" using cap_alloc_serial_cases[OF a] that by auto
    show "kcap_inv s \<Longrightarrow> fits (k_mem s) f ?c"
      using cap_alloc_serial_cases[OF a] that by (auto intro!: fits_root)
  qed (use cap_alloc_serial_cases[OF a] that in \<open>auto simp: cap_view_def\<close>)
  thus ?thesis using cap_step_serial[OF a] unfolding cap_create_revocation_set_def Let_def by (auto simp: a split_beta)
qed

lemma clear_space_mem:
  "k_mem (clear_space cs n s) a = (if space_of a = cs \<and> index_of a < n then null_cap else k_mem s a)"
proof -
  have "fold (\<lambda>i m. m(Slot cs i := null_cap)) xs m a = (if space_of a = cs \<and> index_of a \<in> set xs then null_cap else m a)" for xs m
    by (induction xs arbitrary: m; cases a) auto
  thus ?thesis by (simp add: clear_space_def)
qed

lemma step_release: "cap_step s (release_cspace pid col s)"
proof -
  have re: "cap_step s (reparent_dying_locked t cs sz s)" for t cs sz s
  proof (cases "kcap_inv s")
    case True
    define sp where "sp = map (task_desc s) (filter (\<lambda>u. u \<noteq> t \<and> has_space s u) [0..<k_max_tasks s]) @ [root_desc]"
    define sp' where "sp' = \<lparr> d_caps = Some cs, d_size = sz, d_inuse = None \<rparr> # filter (\<lambda>d. d_caps d \<noteq> Some cs) sp"
    let ?m = "snd (rust_cap_reparent_dying (Some cs) sz sp' (Some (2 * CNODE_SIZE)) (k_mem s))"
    have dy: "dying_in cs sz sp' (2 * CNODE_SIZE)" by (auto simp: dying_in_def sp'_def)
    have e: "reparent_dying_locked t cs sz s = s\<lparr> k_mem := ?m \<rparr>"
      by (simp add: reparent_dying_locked_def rust_cap_reparent_dying_def sp'_def Let_def flip: sp_def)
    note l = reparent_dying_lineage[OF kcap_invD(1)[OF True] dy]
    have same: "c_typ (?m a) = c_typ (k_mem s a)" "c_serial (?m a) = c_serial (k_mem s a)" for a
      using reparent_dying_mem(2)[OF kcap_invD(1)[OF True] dy, of a] by auto
    have "kcap_inv (s\<lparr> k_mem := ?m \<rparr>)" using l kcap_invD(2,3)[OF True]
      unfolding kcap_inv_def view_inv_def cap_view_def by (simp add: same[simplified])
    moreover have "serials_fresh s (s\<lparr> k_mem := ?m \<rparr>)" unfolding serials_fresh_def live_def by (auto simp: same[simplified])
    ultimately show ?thesis by (simp add: cap_step_def e)
  qed (simp add: cap_step_def)
  have cl: "cap_step s (clear_space cs sz s)" for cs sz s
    by (rule cap_step_nullify) (auto simp: clear_space_mem, simp_all add: clear_space_def)
  have z: "cap_step s (upd_task t (\<lambda>x. x\<lparr> t_inuse := 0 \<rparr>) s)" for t s by (rule cap_step_nullify) auto
  define s1 where "s1 = (case (if pid > 0 \<and> pid < int (k_max_tasks s) then get_cspace s (nat pid) else None) of None \<Rightarrow> s
    | Some cs \<Rightarrow> let sz = (if get_sz s (nat pid) > CNODE_SIZE then CNODE_SIZE else get_sz s (nat pid))
        in clear_space cs sz (reparent_dying_locked (nat pid) cs sz s))"
  have 1: "cap_step s s1" unfolding s1_def Let_def by (auto split: option.split intro: cap_step_trans[OF re cl])
  define s2 where "s2 = (if pid > 0 \<and> pid < int (k_max_tasks s) then upd_task (nat pid) (\<lambda>x. x\<lparr> t_inuse := 0 \<rparr>) s1 else s1)"
  have "release_cspace pid col s = (if col then kobj_gc_locked s2 else s2)"
    unfolding release_cspace_def s2_def s1_def by (simp only: Let_def)
  moreover have "cap_step s s2" using cap_step_trans[OF 1 z[of s1 "nat pid"]] 1 by (simp add: s2_def)
  ultimately show ?thesis using cap_step_post[of s s2] by simp
qed

section \<open>Sequences of capability operations\<close>

text \<open>One call into \<open>capability.c\<close>, made while the task \<open>k_cur\<close> runs; \<open>Switch\<close> is the
  scheduler's change of that task.  The callers of the two installs pass the badge 0.\<close>

datatype cap_call =
    Switch nat
  | Install_From_Root int nat nat u32
  | Install_Object nat u32 u64 u32
  | Install_First_Free nat u32 u64 u32
  | Install_Derived nat nat u64 u32 u64 u32
  | Install_Reply int int u64
  | Child_Pipe_End int nat int nat u32
  | Consume nat
  | Consume_Of int nat
  | Mint nat nat u32
  | Mint_Token nat nat u32 u64
  | Transfer nat nat
  | Move nat nat
  | Reply_Mint int nat u64 nat nat u32 u64
  | Mint_Untyped nat nat nat
  | Grant_Into int nat nat u32
  | Grant_From_User int nat nat u32
  | Clone int int
  | Revoke nat
  | Create_Revocation_Set nat nat
  | Release int
  | Release_And_Collect int
  | Collect

fun run_call :: "cap_call \<Rightarrow> kstate \<Rightarrow> kstate" where
  "run_call (Switch t) s = s\<lparr> k_cur := t \<rparr>"
| "run_call (Install_From_Root pid slot rslot obj) s = snd (cap_install_from_root pid slot rslot obj s)"
| "run_call (Install_Object slot ty obj rights) s = snd (cap_install_object slot ty obj rights 0 s)"
| "run_call (Install_First_Free mn ty obj rights) s = snd (cap_install_object_first_free mn ty obj rights 0 s)"
| "run_call (Install_Derived d sl ser ty obj rights) s = snd (cap_install_derived_object d sl ser ty obj rights s)"
| "run_call (Install_Reply pid sender gen) s = snd (cap_install_reply_for pid sender gen s)"
| "run_call (Child_Pipe_End ch d sp sl rights) s = snd (cap_install_child_pipe_end ch d sp sl rights s)"
| "run_call (Consume d) s = snd (cap_consume_slot d s)"
| "run_call (Consume_Of pid d) s = snd (snd (cap_consume_slot_of pid d s))"
| "run_call (Mint d sl nr) s = snd (cap_mint d sl nr s)"
| "run_call (Mint_Token d sl nr tok) s = snd (cap_mint_token d sl nr tok s)"
| "run_call (Transfer d sl) s = snd (cap_transfer d sl s)"
| "run_call (Move d sl) s = snd (cap_move d sl s)"
| "run_call (Reply_Mint pid i ser e d nr tok) s = snd (cap_reply_mint_into pid i ser e d nr tok s)"
| "run_call (Mint_Untyped sl d ch) s = snd (cap_mint_untyped_child sl d ch s)"
| "run_call (Grant_Into pid d sl nr) s = snd (cap_grant_into pid d sl nr s)"
| "run_call (Grant_From_User pid d sl nr) s = snd (cap_grant_from_user pid d sl nr s)"
| "run_call (Clone p ch) s = snd (cap_clone_cspace p ch s)"
| "run_call (Revoke slot) s = snd (cap_revoke slot s)"
| "run_call (Create_Revocation_Set t r) s = snd (cap_create_revocation_set t r s)"
| "run_call (Release pid) s = cap_release_cspace pid s"
| "run_call (Release_And_Collect pid) s = cap_release_cspace_and_collect pid s"
| "run_call Collect s = kobj_gc_locked s"

text \<open>The type an install is asked for is a capability type, never one of the marks a
  revocation uses.\<close>

fun call_ok :: "cap_call \<Rightarrow> bool" where
  "call_ok (Install_Object slot ty obj rights) = kernel_type ty"
| "call_ok (Install_First_Free mn ty obj rights) = kernel_type ty"
| "call_ok (Install_Derived d sl ser ty obj rights) = kernel_type ty"
| "call_ok _ = True"

lemmas cap_steps = step_install_from_root step_install_object step_install_first_free step_install_derived step_install_reply
  step_child_pipe_end step_consume step_consume_of step_mint step_mint_token step_transfer step_move step_reply_mint
  step_mint_untyped step_grant step_clone step_revoke step_create_revocation_set step_release

lemma step_call: "call_ok c \<Longrightarrow> cap_step s (run_call c s)"
  by (cases c) (auto simp: cap_steps cap_grant_into_def cap_grant_from_user_def cap_release_cspace_def
      cap_release_cspace_and_collect_def cap_view_def[of "_\<lparr> k_cur := _ \<rparr>"] cap_view_def[of s] intro!: cap_step_view)

lemma step_calls: "list_all call_ok cs \<Longrightarrow> cap_step s (fold run_call cs s)"
  by (induction cs arbitrary: s) (auto intro: cap_step_trans[OF step_call])

section \<open>The boot state\<close>

text \<open>Before \<open>cap_init\<close>: no task has a capability yet.\<close>

definition before_boot :: "kstate \<Rightarrow> bool" where
  "before_boot s \<longleftrightarrow> (\<forall>a. space_of a \<noteq> RootC \<or> index_of a \<ge> CNODE_SIZE \<longrightarrow> k_mem s a = null_cap)
     \<and> (\<forall>t. t_inuse (k_tasks s t) = 0)"

lemma set_caps_mem:
  assumes "distinct (map fst xs)"
  shows "k_mem (fold (\<lambda>(i, c). set_cap (Slot r i) c) xs s) a =
    (case map_of xs (index_of a) of Some c \<Rightarrow> if space_of a = r then c else k_mem s a | None \<Rightarrow> k_mem s a)"
  using assms
proof (induction xs arbitrary: s)
  case (Cons x xs)
  obtain i c where x: "x = (i, c)" by (cases x)
  have "map_of xs i = None" using Cons.prems x by (simp add: map_of_eq_None_iff)
  thus ?case using Cons x by (cases a) (auto split: option.split)
qed simp

definition root_cap_ok :: "nat \<times> capability \<Rightarrow> bool" where
  "root_cap_ok x \<longleftrightarrow> fst x < CNODE_SIZE \<and> c_typ (snd x) \<noteq> CAP_MARK_NEW \<and> c_typ (snd x) \<noteq> CAP_MARK_DONE \<and> c_badge (snd x) = 0
     \<and> c_serial (snd x) \<noteq> 0 \<and> c_serial (snd x) \<noteq> 0xDEAD0000 \<and> unat (c_serial (snd x)) \<le> unat MIN_DERIVED_SERIAL"

lemma root_caps_ok:
  "list_all root_cap_ok (root_caps nic)" "distinct (map fst (root_caps nic))" "distinct (map (\<lambda>x. c_serial (snd x)) (root_caps nic))"
  by (simp_all add: root_caps_def root_caps_low_def root_caps_mid_def root_caps_high_def primordial_def root_cap_ok_def)

lemma cap_init_mem:
  assumes "before_boot s"
  shows "k_mem (cap_init nic s) a =
    (case map_of (root_caps nic) (index_of a) of Some c \<Rightarrow> if space_of a = RootC then c else null_cap | None \<Rightarrow> null_cap)"
proof -
  have z: "k_mem (clear_space RootC CNODE_SIZE s) a = null_cap"
    using assms by (auto simp: clear_space_mem before_boot_def not_less)
  show ?thesis unfolding cap_init_def Let_def
    using z by (simp add: set_caps_mem[OF root_caps_ok(2)] split: option.split)
qed

lemma cap_init_cases:
  assumes "before_boot s"
  obtains "k_mem (cap_init nic s) a = null_cap"
  | "a \<in> Slot RootC ` {0..<CNODE_SIZE}" "(index_of a, k_mem (cap_init nic s) a) \<in> set (root_caps nic)"
      "root_cap_ok (index_of a, k_mem (cap_init nic s) a)"
proof (cases "map_of (root_caps nic) (index_of a) \<noteq> None \<and> space_of a = RootC")
  case True
  then obtain c where c: "map_of (root_caps nic) (index_of a) = Some c" "k_mem (cap_init nic s) a = c"
    by (auto simp: cap_init_mem[OF assms])
  have "(index_of a, c) \<in> set (root_caps nic)" using c(1) by (rule map_of_SomeD)
  moreover from this have "root_cap_ok (index_of a, c)" using root_caps_ok(1)[of nic] by (auto simp: list_all_iff)
  ultimately show ?thesis using that(2) True c(2) by (cases a) (auto simp: root_cap_ok_def)
next
  case False
  thus ?thesis using that(1) by (auto simp: cap_init_mem[OF assms] split: option.split)
qed

lemma boot_inv:
  assumes b: "before_boot s"
  shows "kcap_inv (cap_init nic s)"
proof -
  let ?m = "k_mem (cap_init nic s)"
  have t: "t_inuse (k_tasks (cap_init nic s) t) = 0" for t
  proof -
    have "k_tasks (fold (\<lambda>(i, c). set_cap (Slot RootC i) c) xs s) = k_tasks s" for xs s
      by (induction xs arbitrary: s) auto
    thus ?thesis using b by (simp add: cap_init_def Let_def clear_space_def before_boot_def)
  qed
  have ok: "c_typ (?m a) \<noteq> CAP_MARK_NEW \<and> c_typ (?m a) \<noteq> CAP_MARK_DONE \<and> c_badge (?m a) = 0
    \<and> (c_typ (?m a) \<noteq> 0 \<longrightarrow> c_serial (?m a) \<noteq> 0 \<and> c_serial (?m a) \<noteq> 0xDEAD0000)
    \<and> unat (c_serial (?m a)) \<le> unat MIN_DERIVED_SERIAL" for a
    by (rule cap_init_cases[OF b, of nic a]) (simp_all add: root_cap_ok_def)
  have inj: "a = a'" if l: "live (?m a)" "live (?m a')" "c_serial (?m a) = c_serial (?m a')" for a a'
  proof -
    have m: "x \<in> Slot RootC ` {0..<CNODE_SIZE} \<and> (index_of x, ?m x) \<in> set (root_caps nic)" if "live (?m x)" for x
      by (rule cap_init_cases[OF b, of nic x]) (use that in \<open>auto simp: live_def\<close>)
    have "(index_of a, ?m a) = (index_of a', ?m a')"
      by (rule inj_onD[OF conjunct2[OF root_caps_ok(3)[of nic, unfolded distinct_map]]]) (use m[OF l(1)] m[OF l(2)] l(3) in simp_all)
    thus ?thesis using m[OF l(1)] m[OF l(2)] by auto
  qed
  have "lineage_inv ?m (Some (k_next_serial (cap_init nic s)))"
  proof (rule lineage_invI)
    fix a a'
    show "live (?m a) \<Longrightarrow> unat (c_serial (?m a)) \<le> issued (Some (k_next_serial (cap_init nic s)))"
      using ok[of a] by (simp add: issued_def max.coboundedI1)
    show "live (?m a) \<Longrightarrow> c_badge (?m a) < c_serial (?m a)" using ok[of a] by (simp add: live_def word_neq_0_conv)
    show "live (?m a) \<Longrightarrow> c_badge (?m a') = c_serial (?m a) \<Longrightarrow> mask_le (c_rights (?m a')) (c_rights (?m a))"
      using ok[of a'] by (simp add: live_def)
  qed (use ok inj in blast)+
  thus ?thesis using ok t by (simp add: kcap_inv_def view_inv_def cap_view_def)
qed

section \<open>Lookups, revocation and snapshots\<close>

lemma cap_current_cspace_Some:
  "cap_current_cspace s slot = Some (cs, sz) \<longleftrightarrow> slot < CNODE_SIZE \<and> slot < sz
     \<and> (get_cspace s (k_cur s) = Some cs \<and> sz = get_sz s (k_cur s)
        \<or> get_cspace s (k_cur s) = None \<and> k_cur s = 0 \<and> cs = RootC \<and> sz = CNODE_SIZE)"
  by (auto simp: cap_current_cspace_def Let_def split: option.splits)

lemma cap_lookup_live: "cap_lookup s slot ty r = Some a \<Longrightarrow> live (k_mem s a)"
  by (auto simp: cap_lookup_def rust_cap_lookup_typed_Some_iff split: option.splits)

lemma cap_revoke_ok:
  assumes "cap_revoke slot s = (True, s')" "c_typ (k_mem s (Slot (cur_array s) slot)) \<noteq> CAP_REVOCATION"
  obtains sz ref st where "rust_cap_revoke_global (Some (cur_array s)) sz slot ref (revoke_spaces s) (rev_of s) = (True, st)"
    "k_mem s' = rv_mem st" "k_next_serial s' = k_next_serial s"
proof -
  obtain ok st where r: "rust_cap_revoke_global (Some (cur_array s)) (get_sz s (k_cur s)) slot
      (if cur_array s = RootC then None else Some (k_cur s)) (revoke_spaces s) (rev_of s) = (ok, st)" by (metis prod.exhaust)
  obtain ps rs where "ok" and s': "s' = kobj_gc_locked ((put_rev st s)\<lparr> k_pipes := ps, k_rev_sets := rs \<rparr>)"
    using assms unfolding cap_revoke_def Let_def by (auto simp: r split_beta split: if_splits)
  hence "cap_view s' = cap_view ((put_rev st s)\<lparr> k_pipes := ps, k_rev_sets := rs \<rparr>)" by simp
  hence "k_mem s' = rv_mem st" "k_next_serial s' = k_next_serial s" by (simp_all add: cap_view_def put_rev_def)
  thus ?thesis using r \<open>ok\<close> by (intro that) simp_all
qed

text \<open>Every slot of the system a living task or the root cnode has.\<close>

definition held_slots :: "kstate \<Rightarrow> caddr set" where
  "held_slots s = {a. index_of a < CNODE_SIZE \<and> (space_of a = RootC
     \<or> (\<exists>t<k_max_tasks s. t_state (k_tasks s t) \<noteq> 0 \<and> get_cspace s t = Some (space_of a) \<and> index_of a < get_sz s t))}"

lemma revoke_spaces_slots: "set (space_slots (revoke_spaces s)) = held_slots s"
  by (auto simp: set_space_slots revoke_spaces_def held_slots_def task_desc_def root_desc_def has_space_def desc_limit_def)

lemma kernel_revoke_mem:
  assumes inv: "kcap_inv s" and run: "cap_revoke slot s = (True, s')"
    and tgt: "live (k_mem s (Slot (cur_array s) slot))" "c_typ (k_mem s (Slot (cur_array s) slot)) \<noteq> CAP_REVOCATION"
  shows "k_mem s' a = (if a \<in> subtree (k_mem s) (held_slots s) (Slot (cur_array s) slot)
      then null_cap else k_mem s a)" and "k_next_serial s' = k_next_serial s"
proof -
  obtain sz ref st where r: "rust_cap_revoke_global (Some (cur_array s)) sz slot ref (revoke_spaces s) (rev_of s) = (True, st)"
    and m: "k_mem s' = rv_mem st" "k_next_serial s' = k_next_serial s" by (rule cap_revoke_ok[OF run tgt(2)])
  have "lineage_inv (rv_mem (rev_of s)) (Some (k_next_serial s))" "live (rv_mem (rev_of s) (Slot (cur_array s) slot))"
    using kcap_invD(1)[OF inv] tgt(1) by (simp_all add: rev_of_def)
  from revoke_global_spec(1)[OF this(1) r this(2), of a]
  show "k_mem s' a = (if a \<in> subtree (k_mem s) (held_slots s) (Slot (cur_array s) slot)
      then null_cap else k_mem s a)" by (simp add: m rev_of_def revoke_spaces_slots)
  show "k_next_serial s' = k_next_serial s" by (fact m)
qed

lemma gone_serial_never_returns:
  assumes "kcap_inv s" "list_all call_ok cs" "unat sn \<le> issued (Some (k_next_serial s))"
    and "\<And>a. live (k_mem s a) \<Longrightarrow> c_serial (k_mem s a) \<noteq> sn" and l: "live (k_mem (fold run_call cs s) a)"
  shows "c_serial (k_mem (fold run_call cs s) a) \<noteq> sn"
proof -
  have "serials_fresh s (fold run_call cs s)" using step_calls[OF assms(2), of s] assms(1) by (simp add: cap_step_def)
  hence "(\<exists>b. live (k_mem s b) \<and> c_serial (k_mem s b) = c_serial (k_mem (fold run_call cs s) a))
    \<or> issued (Some (k_next_serial s)) < unat (c_serial (k_mem (fold run_call cs s) a))"
    using l by (simp add: serials_fresh_def)
  thus ?thesis using assms(3,4) by (metis not_less)
qed

text \<open>Two tasks with the tree of capabilities of the revocation example: task 1 runs, its
  slot 5 is the ancestor of its slot 6 and of slots 5 and 6 of task 2.\<close>

definition two_tasks :: kstate where
  "two_tasks = zero_kstate\<lparr> k_mem := sample_tree, k_next_serial := 0x100000005, k_cur := 1,
     k_tasks := (\<lambda>_. zero_tcb)(1 := zero_tcb\<lparr> t_state := 1, t_cspace := Some (TaskC 1), t_cspace_size := 256, t_inuse := 2 \<rparr>,
       2 := zero_tcb\<lparr> t_state := 1, t_cspace := Some (TaskC 2), t_cspace_size := 256, t_inuse := 3 \<rparr>) \<rparr>"

lemma two_tasks_inv: "kcap_inv two_tasks"
  using sample_lineage
  by (auto simp: kcap_inv_def view_inv_def cap_view_def two_tasks_def zero_kstate_def zero_tcb_def sample_tree_cases sample_cap_def)

lemma two_tasks_sel:
  "cur_array two_tasks = TaskC 1" "k_mem two_tasks = sample_tree" "live (sample_tree (Slot (TaskC 1) 5))"
  "c_typ (sample_tree (Slot (TaskC 1) 5)) \<noteq> CAP_REVOCATION"
  by (simp_all add: two_tasks_def cur_array_def get_cspace_def sample_tree_cases sample_cap_def live_def)

lemma two_tasks_revoke: "\<exists>s'. cap_revoke 5 two_tasks = (True, s')"
proof -
  have "fst (cap_revoke 5 two_tasks)"
    unfolding cap_revoke_def Let_def split_beta rust_cap_revoke_global_def
    by (simp add: two_tasks_sel caller_has_authority_def get_cspace_def get_sz_def cspace_sz_def sample_tree_cases sample_cap_def rev_of_def
        is_primordial_root_def del: upt_rec_numeral) (simp add: two_tasks_def)
  thus ?thesis by (metis prod.collapse)
qed

lemma two_tasks_subtree:
  "Slot (TaskC 2) 6 \<in> subtree sample_tree (held_slots two_tasks) (Slot (TaskC 1) 5)"
proof -
  let ?A = "held_slots two_tasks"
  have A: "Slot (TaskC 2) 5 \<in> ?A" "Slot (TaskC 2) 6 \<in> ?A"
    by (auto simp: held_slots_def two_tasks_def get_cspace_def get_sz_def cspace_sz_def zero_kstate_def intro!: exI[of _ 2])
  have "descends sample_tree ?A 0x100000001 (Slot (TaskC 2) 5)"
    using A(1) by (intro descends.direct) (simp_all add: child_of_def live_def sample_tree_cases sample_cap_def)
  hence "descends sample_tree ?A 0x100000001 (Slot (TaskC 2) 6)"
    by (rule descends.further) (use A(2) in \<open>simp_all add: child_of_def live_def sample_tree_cases sample_cap_def\<close>)
  thus ?thesis by (simp add: subtree_def sample_tree_cases sample_cap_def)
qed

text \<open>C1.  Whatever sequence of capability calls the kernel makes after boot, by whichever
  tasks: every serial in any cspace is unique, above its badge and no larger than what the
  counter issued, no child has a right its living parent lacks, no slot is left marked,
  and no task's count passes its quota.\<close>

theorem capability_calls_keep_invariant:
  assumes "before_boot s0" "list_all call_ok cs" "s = fold run_call cs (cap_init nic s0)"
  shows "lineage_inv (k_mem s) (Some (k_next_serial s)) \<and> (\<forall>t. t_inuse (k_tasks s t) \<le> MAX_CAPS_PER_TASK)"
  using step_calls[OF assms(2), of "cap_init nic s0"] boot_inv[OF assms(1), of nic] kcap_invD(1,3)[of s]
  by (simp add: cap_step_def assms(3))

theorem capability_calls_keep_invariant_witness:
  "before_boot zero_kstate
   \<and> lineage_inv (k_mem (fold run_call [Mint 30 17 0xFF, Revoke 30, Mint 31 17 1] (cap_init 3 zero_kstate)))
       (Some (k_next_serial (fold run_call [Mint 30 17 0xFF, Revoke 30, Mint 31 17 1] (cap_init 3 zero_kstate))))"
proof -
  have "before_boot zero_kstate" by (simp add: before_boot_def zero_kstate_def zero_tcb_def)
  thus ?thesis using capability_calls_keep_invariant[OF _ _ refl, of zero_kstate "[Mint 30 17 0xFF, Revoke 30, Mint 31 17 1]" 3]
    by (simp del: fold_simps)
qed

text \<open>C3.  A successful \<open>cap_revoke\<close> of a live capability that is not itself a revocation
  capability empties exactly the capability the caller named and everything derived from it, in the cspaces of all living tasks and in the root cnode,
  and leaves every other slot of the system as it was.\<close>

theorem kernel_revoke_exact:
  assumes "kcap_inv s" "cap_revoke slot s = (True, s')" "live (k_mem s (Slot (cur_array s) slot))"
    and "c_typ (k_mem s (Slot (cur_array s) slot)) \<noteq> CAP_REVOCATION"
  shows "k_mem s' a = (if a \<in> subtree (k_mem s) (held_slots s) (Slot (cur_array s) slot)
      then null_cap else k_mem s a)"
  by (rule kernel_revoke_mem(1)[OF assms])

theorem kernel_revoke_exact_witness:
  "\<exists>s'. cap_revoke 5 two_tasks = (True, s') \<and> k_mem s' (Slot (TaskC 2) 6) = null_cap"
proof -
  obtain s' where r: "cap_revoke 5 two_tasks = (True, s')" using two_tasks_revoke ..
  show ?thesis
    using kernel_revoke_exact[OF two_tasks_inv r, of "Slot (TaskC 2) 6"] two_tasks_subtree r by (simp add: two_tasks_sel[simplified])
qed

text \<open>C8.  Once a capability other than a revocation capability was revoked, a snapshot of it or of anything derived from it
  never revalidates again: not in any slot, for any task, with any rights, after any
  further sequence of capability calls.\<close>

theorem revoked_snapshot_never_revalidates:
  assumes inv: "kcap_inv s" and run: "cap_revoke slot s = (True, s')"
    and tgt: "live (k_mem s (Slot (cur_array s) slot))" "c_typ (k_mem s (Slot (cur_array s) slot)) \<noteq> CAP_REVOCATION"
    and a: "a \<in> subtree (k_mem s) (held_slots s) (Slot (cur_array s) slot)"
    and calls: "list_all call_ok cs"
  shows "cap_revalidate (fold run_call cs s') slot' rights (Some (take_snapshot (Some (k_mem s a)))) = None"
proof (rule ccontr)
  let ?t = "fold run_call cs s'"
  note K = kernel_revoke_mem[OF inv run tgt]
  have la: "live (k_mem s a)" using subtree_live[OF tgt(1) a] .
  have inv': "kcap_inv s'" using step_revoke[of s slot] inv run by (simp add: cap_step_def)
  have gone: "c_serial (k_mem s' b) \<noteq> c_serial (k_mem s a)" if b: "live (k_mem s' b)" for b
  proof
    assume e: "c_serial (k_mem s' b) = c_serial (k_mem s a)"
    have m: "b \<notin> subtree (k_mem s) (held_slots s) (Slot (cur_array s) slot)" "k_mem s' b = k_mem s b"
      using K(1)[of b] b by (auto simp: live_def split: if_splits)
    hence "b = a" using lineage_invD(5)[OF kcap_invD(1)[OF inv], of b a] la b e by simp
    thus False using m(1) a by simp
  qed
  have i: "unat (c_serial (k_mem s a)) \<le> issued (Some (k_next_serial s'))"
    using lineage_invD(3)[OF kcap_invD(1)[OF inv] la] K(2) by simp
  assume "cap_revalidate ?t slot' rights (Some (take_snapshot (Some (k_mem s a)))) \<noteq> None"
  then obtain p where "cap_lookup ?t slot' CAP_ANYTYPE rights = Some p" "c_serial (k_mem ?t p) = c_serial (k_mem s a)"
    by (auto simp: cap_revalidate_def take_snapshot_def split: option.splits if_splits)
  thus False using gone_serial_never_returns[OF inv' calls i gone] cap_lookup_live by blast
qed

theorem revoked_snapshot_never_revalidates_witness:
  "\<exists>s'. cap_revoke 5 two_tasks = (True, s')
     \<and> cap_revalidate (fold run_call [Switch 2, Install_Object 6 CAP_PIPE 0x100000001 0x22] s') 6 2
         (Some (take_snapshot (Some (sample_tree (Slot (TaskC 2) 6))))) = None"
proof -
  obtain s' where r: "cap_revoke 5 two_tasks = (True, s')" using two_tasks_revoke ..
  show ?thesis
    using revoked_snapshot_never_revalidates[OF two_tasks_inv r, of "Slot (TaskC 2) 6"
        "[Switch 2, Install_Object 6 CAP_PIPE 0x100000001 0x22]" 6 2] two_tasks_subtree r
    by (simp add: two_tasks_sel[simplified] kernel_type_def)
qed

text \<open>C37.  A lookup returns a slot exactly when the running task has it: in its own cspace
  and in range (the root cnode only for the kernel task when it has no cspace), holding a
  live capability of the type asked for with every right asked for.\<close>

theorem cap_lookup_exact:
  "cap_lookup s slot ty rights = Some a \<longleftrightarrow>
    (\<exists>cs sz. (get_cspace s (k_cur s) = Some cs \<and> sz = get_sz s (k_cur s)
              \<or> get_cspace s (k_cur s) = None \<and> k_cur s = 0 \<and> cs = RootC \<and> sz = CNODE_SIZE)
       \<and> a = Slot cs slot \<and> slot < sz \<and> slot < CNODE_SIZE \<and> live (k_mem s a) \<and> c_rights (k_mem s a) AND rights = rights
       \<and> (ty = CAP_ANYTYPE \<or> c_typ (k_mem s a) = ty))"
  by (auto simp: cap_lookup_def cap_current_cspace_Some rust_cap_lookup_typed_Some_iff split: option.splits prod.splits)
    (auto simp: cap_current_cspace_def Let_def split: option.splits if_splits)

end
