(* ===== verification/User_Mem.thy ===== *)
theory User_Mem
  imports Kobj
begin

text \<open>
  User memory as the kernel reaches it (\<^verbatim>\<open>src/kernel/paging.c\<close>): physical memory
  as bytes, the four-level page tables in it, the walk \<open>pt_walk\<close>, the copies
  between kernel buffers and user addresses, and the demand fault handler with its
  copy-on-write break.  A machine is the kernel state with that memory; the physical
  window \<open>PHYS_KVA\<close> is the memory itself.  The swap device is not modelled: its four
  entry points are the argument \<open>swap_ops\<close> and its state the type parameter \<open>'d\<close>.

  The lemmas show that a copy from user memory returns exactly the bytes the walk
  translates to and fails on any page that is not a present user page, that a copy to
  user memory writes those bytes and nothing else and is read back by the same task,
  and that a write to a page shared copy-on-write leaves the other sharers' bytes as
  they were.
\<close>

section \<open>Physical memory and page-table entries\<close>

type_synonym pmem = "u64 \<Rightarrow> u8"

definition rd64 :: "pmem \<Rightarrow> u64 \<Rightarrow> u64" where
  "rd64 m a = foldr (\<lambda>i w. push_bit (8 * i) (ucast (m (a + of_nat i))) OR w) [0..<8] 0"

definition wr64 :: "u64 \<Rightarrow> u64 \<Rightarrow> pmem \<Rightarrow> pmem" where
  "wr64 a x m = (\<lambda>b. if b - a < 8 then ucast (drop_bit (8 * unat (b - a)) x) else m b)"

definition zero_page :: "u64 \<Rightarrow> pmem \<Rightarrow> pmem" where
  "zero_page p m = (\<lambda>a. if a - p < 0x1000 then 0 else m a)"

definition copy_page :: "u64 \<Rightarrow> u64 \<Rightarrow> pmem \<Rightarrow> pmem" where
  "copy_page dst src m = (\<lambda>a. if a - dst < 0x1000 then m (src + (a - dst)) else m a)"

abbreviation (input) PAGE_PRESENT :: u64 where "PAGE_PRESENT \<equiv> 1"
abbreviation (input) PAGE_WRITE :: u64 where "PAGE_WRITE \<equiv> 2"
abbreviation (input) PAGE_USER :: u64 where "PAGE_USER \<equiv> 4"
abbreviation (input) PAGE_PS :: u64 where "PAGE_PS \<equiv> 0x80"
abbreviation (input) PAGE_COW :: u64 where "PAGE_COW \<equiv> 0x200"
abbreviation (input) PAGE_SEALED :: u64 where "PAGE_SEALED \<equiv> 0x400"
abbreviation (input) PAGE_SWAPPED :: u64 where "PAGE_SWAPPED \<equiv> 0x800"
abbreviation (input) PAGE_NX :: u64 where "PAGE_NX \<equiv> 0x8000000000000000"
abbreviation (input) PTE_ADDR_MASK :: u64 where "PTE_ADDR_MASK \<equiv> 0x000FFFFFFFFFF000"
abbreviation (input) USER_MEM_MAX_COPY :: nat where "USER_MEM_MAX_COPY \<equiv> 65536"

text \<open>The index of \<open>v\<close> in a table of the level with shift \<open>sh\<close>, and the address of
  that entry in the table at \<open>tab\<close>.\<close>

definition pt_index :: "nat \<Rightarrow> u64 \<Rightarrow> u64" where
  "pt_index sh v = drop_bit sh v AND 0x1FF"

definition pt_entry :: "pmem \<Rightarrow> u64 \<Rightarrow> nat \<Rightarrow> u64 \<Rightarrow> u64" where
  "pt_entry m tab sh v = rd64 m (tab + 8 * pt_index sh v)"

section \<open>The walk\<close>

definition pt_walk :: "pmem \<Rightarrow> u64 \<Rightarrow> u64 \<Rightarrow> u64" where
  "pt_walk m cr3 v =
    (let e = pt_entry m (cr3 AND PTE_ADDR_MASK) 39 v in
     if e AND PAGE_PRESENT = 0 then 0
     else let e = pt_entry m (e AND PTE_ADDR_MASK) 30 v in
       if e AND PAGE_PRESENT = 0 then 0
       else if e AND PAGE_PS \<noteq> 0 then e
       else let e = pt_entry m (e AND PTE_ADDR_MASK) 21 v in
         if e AND PAGE_PRESENT = 0 then 0
         else if e AND PAGE_PS \<noteq> 0 then e
         else let e = pt_entry m (e AND PTE_ADDR_MASK) 12 v in
           if e AND PAGE_PRESENT = 0 then 0 else e)"

definition user_lookup_pte :: "pmem \<Rightarrow> u64 \<Rightarrow> u64 \<Rightarrow> u64" where
  "user_lookup_pte m cr3 vaddr = (if cr3 = 0 then 0 else pt_walk m cr3 vaddr)"

definition is_canonical_address :: "u64 \<Rightarrow> bool" where
  "is_canonical_address addr \<longleftrightarrow> (let high_bits = drop_bit 48 addr in high_bits = 0 \<or> high_bits = 0xFFFF)"

text \<open>The address of an existing last-level entry.\<close>

definition user_pte_existing :: "pmem \<Rightarrow> u64 \<Rightarrow> u64 \<Rightarrow> u64 option" where
  "user_pte_existing m pml4_tab vaddr =
    (if \<not> is_canonical_address vaddr then None
     else if pt_index 39 vaddr \<ge> 256 then None
     else let e = pt_entry m pml4_tab 39 vaddr in
       if e AND PAGE_PRESENT = 0 \<or> e AND PAGE_PS \<noteq> 0 then None
       else let e = pt_entry m (e AND PTE_ADDR_MASK) 30 vaddr in
         if e AND PAGE_PRESENT = 0 \<or> e AND PAGE_PS \<noteq> 0 then None
         else let e = pt_entry m (e AND PTE_ADDR_MASK) 21 vaddr in
           if e AND PAGE_PRESENT = 0 \<or> e AND PAGE_PS \<noteq> 0 then None
           else Some ((e AND PTE_ADDR_MASK) + 8 * pt_index 12 vaddr))"

section \<open>The machine and its swap device\<close>

record 'd mach =
  m_k :: kstate
  m_mem :: pmem
  m_cow_faults :: u64
  m_dev :: 'd

record 'd swap_ops =
  sw_enabled :: "'d \<Rightarrow> bool"
  sw_evict_idle :: "int \<Rightarrow> 'd mach \<Rightarrow> int \<times> 'd mach"
  sw_evict_self :: "int \<Rightarrow> 'd mach \<Rightarrow> int \<times> 'd mach"
  sw_fault_in :: "u64 \<Rightarrow> u64 \<Rightarrow> u64 \<Rightarrow> 'd mach \<Rightarrow> int \<times> 'd mach"

abbreviation (input) SWAP_LOW_WATER :: nat where "SWAP_LOW_WATER \<equiv> 512"
abbreviation (input) SWAP_EVICT_BATCH :: int where "SWAP_EVICT_BATCH \<equiv> 32"

definition m_pool :: "'d mach \<Rightarrow> page_pool" where
  "m_pool \<sigma> = k_pool (m_k \<sigma>)"

definition set_pool :: "page_pool \<Rightarrow> 'd mach \<Rightarrow> 'd mach" where
  "set_pool p \<sigma> = \<sigma>\<lparr> m_k := (m_k \<sigma>)\<lparr> k_pool := p \<rparr> \<rparr>"

definition m_cur :: "'d mach \<Rightarrow> tcb" where
  "m_cur \<sigma> = k_tasks (m_k \<sigma>) (k_cur (m_k \<sigma>))"

section \<open>The policy of the Rust core\<close>

definition rust_validate_page_fault :: "u64 \<Rightarrow> u32 \<Rightarrow> u64 \<Rightarrow> u64 \<Rightarrow> u64 \<Rightarrow> u64 \<Rightarrow> bool" where
  "rust_validate_page_fault fault_addr err image_base image_end heap_start heap_end =
    (if fault_addr \<ge> 0x0000800000000000 then False
     else if image_base \<noteq> 0 \<and> fault_addr \<ge> image_base \<and> fault_addr < image_end then True
     else if heap_start \<noteq> 0 \<and> fault_addr \<ge> heap_start \<and> fault_addr < heap_end then True
     else fault_addr \<ge> 0x7df000 \<and> fault_addr < 0x7ff000)"

definition rust_get_user_page_protection :: "u64 \<Rightarrow> u32" where
  "rust_get_user_page_protection vaddr =
    (if vaddr \<ge> 0x400000 \<and> vaddr < 0x800000 \<or> vaddr \<ge> 0x1000000 \<and> vaddr < 0x5000000
        \<or> vaddr \<ge> 0x7FC000 \<and> vaddr < 0x800000 \<or> vaddr \<ge> 0xff000000 \<and> vaddr < 0xfff00000
     then 7 else 0)"

definition rust_user_page_is_noexec :: "u64 \<Rightarrow> bool" where
  "rust_user_page_is_noexec vaddr \<longleftrightarrow>
     0x7d0000 \<le> vaddr \<and> vaddr < 0x800000 \<or> 0x7feffff00000 \<le> vaddr \<and> vaddr < 0x7ff000100000"

definition rust_cow_copy_required :: "bool \<Rightarrow> bool \<Rightarrow> 16 word \<Rightarrow> bool" where
  "rust_cow_copy_required is_cow is_write ref_count \<longleftrightarrow> is_cow \<and> is_write \<and> ref_count > 1"

section \<open>Copy on write\<close>

text \<open>\<open>cow_break_pte\<close> on the entry at \<open>slot\<close>.\<close>

definition cow_flags :: "u64 \<Rightarrow> u64 \<Rightarrow> u64" where
  "cow_flags pte fault_addr =
    (let nf = ((pte AND 0xFFF) OR PAGE_PRESENT OR PAGE_WRITE) AND NOT PAGE_COW
     in if rust_user_page_is_noexec fault_addr then nf OR PAGE_NX else nf)"

definition cow_break_pte :: "u64 \<Rightarrow> u64 \<Rightarrow> 'd mach \<Rightarrow> int \<times> 'd mach" where
  "cow_break_pte slot fault_addr \<sigma> =
    (let pte = rd64 (m_mem \<sigma>) slot; old_phys = pte AND PTE_ADDR_MASK in
     if pte AND PAGE_SEALED \<noteq> 0 then (-5, \<sigma>)
     else if phys_in_untyped_arena (m_k \<sigma>) old_phys then (-4, \<sigma>)
     else let phys32 = unat old_phys mod 2 ^ 32;
              (refs, p1) = rust_page_ref_dec phys32 (m_pool \<sigma>);
              nf = cow_flags pte fault_addr;
              undo = (\<lambda>p. if refs \<ge> 0 then snd (rust_page_ref_inc phys32 p) else p)
       in if \<not> rust_cow_copy_required True True (of_int ((if refs > 0 then refs else 0) + 1))
          then (0, (set_pool (undo p1) \<sigma>)\<lparr> m_mem := wr64 slot (old_phys OR nf) (m_mem \<sigma>) \<rparr>)
          else let (np, p2) = alloc_user_physical_page p1 in
            if np = 0 then (-3, set_pool (undo p2) \<sigma>)
            else (0, (set_pool p2 \<sigma>)\<lparr> m_mem := wr64 slot (of_nat np OR nf) (copy_page (of_nat np) old_phys (m_mem \<sigma>)) \<rparr>))"

section \<open>Demand faults\<close>

text \<open>One level on the way down: a missing table is allocated and zeroed.\<close>

definition demand_table :: "u64 \<Rightarrow> 'd mach \<Rightarrow> int \<times> u64 \<times> 'd mach" where
  "demand_table slot \<sigma> =
    (let e = rd64 (m_mem \<sigma>) slot in
     if e AND PAGE_PRESENT \<noteq> 0 \<and> e AND PAGE_PS \<noteq> 0 then (-1, 0, \<sigma>)
     else if e AND PAGE_PRESENT = 0
     then let (np, p) = alloc_user_physical_page (m_pool \<sigma>) in
       if np = 0 then (-3, 0, set_pool p \<sigma>)
       else let m = wr64 slot (of_nat np OR PAGE_PRESENT OR PAGE_WRITE OR PAGE_USER) (zero_page (of_nat np) (m_mem \<sigma>))
            in (0, rd64 m slot AND NOT 0xFFF, (set_pool p \<sigma>)\<lparr> m_mem := m \<rparr>)
     else (0, e AND NOT 0xFFF, \<sigma>))"

definition noexec_flag :: "u64 \<Rightarrow> u64 \<Rightarrow> u64" where
  "noexec_flag fault_addr flags = (if rust_user_page_is_noexec fault_addr then flags OR PAGE_NX else flags)"

text \<open>The last level, for the entry at \<open>slot\<close>.\<close>

definition demand_leaf :: "u64 \<Rightarrow> u64 \<Rightarrow> u32 \<Rightarrow> 'd mach \<Rightarrow> int \<times> 'd mach" where
  "demand_leaf slot fault_addr err_code \<sigma> =
    (let pte = rd64 (m_mem \<sigma>) slot; is_write = (err_code AND 2 \<noteq> 0); cur = k_cur (m_k \<sigma>);
         zero = of_nat (pp_zero_page (m_pool \<sigma>)) in
     if is_write \<and> pte AND PAGE_COW \<noteq> 0
     then (if pte AND PTE_ADDR_MASK = zero
           then let (np, p) = alloc_user_physical_page (m_pool \<sigma>) in
             if np = 0 then (-3, set_pool p \<sigma>)
             else (0, (set_pool p \<sigma>)\<lparr> m_mem := wr64 slot (of_nat np OR noexec_flag fault_addr (PAGE_PRESENT OR PAGE_WRITE OR PAGE_USER))
                                        (zero_page (of_nat np) (m_mem \<sigma>)), m_cow_faults := m_cow_faults \<sigma> + 1 \<rparr>)
           else let (rc, \<sigma>1) = cow_break_pte slot fault_addr \<sigma>
                in if rc \<noteq> 0 then (rc, \<sigma>1) else (0, \<sigma>1\<lparr> m_cow_faults := m_cow_faults \<sigma>1 + 1 \<rparr>))
     else if is_write \<and> pte AND PAGE_PRESENT \<noteq> 0 \<and> pte AND PAGE_SEALED \<noteq> 0 then (-6, \<sigma>)
     else if pte AND PAGE_PRESENT \<noteq> 0 then (-2, \<sigma>)
     else if cur = 0 \<or> cur \<ge> k_max_tasks (m_k \<sigma>)
             \<or> \<not> rust_validate_page_fault fault_addr err_code (im_base (t_image (m_cur \<sigma>))) (im_end (t_image (m_cur \<sigma>)))
                   (im_heap_start (t_image (m_cur \<sigma>))) (im_heap_end (t_image (m_cur \<sigma>))) then (-1, \<sigma>)
     else if \<not> is_write \<and> zero \<noteq> 0
     then (0, \<sigma>\<lparr> m_mem := wr64 slot (zero OR noexec_flag fault_addr (PAGE_PRESENT OR PAGE_USER OR PAGE_COW)) (m_mem \<sigma>) \<rparr>)
     else let (np, p) = alloc_user_physical_page (m_pool \<sigma>) in
       if np = 0 then (-3, set_pool p \<sigma>)
       else let prot = rust_get_user_page_protection fault_addr;
                flags = (if prot \<noteq> 0 then ucast prot AND 7 else PAGE_PRESENT OR PAGE_WRITE OR PAGE_USER)
            in (0, (set_pool p \<sigma>)\<lparr> m_mem := wr64 slot (of_nat np OR noexec_flag fault_addr flags OR PAGE_PRESENT)
                                      (zero_page (of_nat np) (m_mem \<sigma>)) \<rparr>))"

definition handle_demand_page_fault :: "'d swap_ops \<Rightarrow> u64 \<Rightarrow> u32 \<Rightarrow> 'd mach \<Rightarrow> int \<times> 'd mach" where
  "handle_demand_page_fault sw fault_addr err_code \<sigma> =
    (let \<sigma>0 = (if sw_enabled sw (m_dev \<sigma>) \<and> length (pp_stack (m_pool \<sigma>)) < SWAP_LOW_WATER
               then let (n, \<sigma>') = sw_evict_idle sw SWAP_EVICT_BATCH \<sigma>
                    in if n < SWAP_EVICT_BATCH then snd (sw_evict_self sw (SWAP_EVICT_BATCH - n) \<sigma>') else \<sigma>'
               else \<sigma>);
         cr3_phys = t_cr3 (m_cur \<sigma>0)
     in if cr3_phys = 0 then (-1, \<sigma>0\<lparr> m_k := upd_task (k_cur (m_k \<sigma>0)) (\<lambda>t. t\<lparr> t_state := 0 \<rparr>) (m_k \<sigma>0) \<rparr>)
        else let pml4e = pt_entry (m_mem \<sigma>0) cr3_phys 39 fault_addr in
          if pml4e AND PAGE_PRESENT = 0 then (-1, \<sigma>0)
          else let (rc1, pd, \<sigma>1) = demand_table ((pml4e AND NOT 0xFFF) + 8 * pt_index 30 fault_addr) \<sigma>0 in
            if rc1 \<noteq> 0 then (rc1, \<sigma>1)
            else let (rc2, pt, \<sigma>2) = demand_table (pd + 8 * pt_index 21 fault_addr) \<sigma>1 in
              if rc2 \<noteq> 0 then (rc2, \<sigma>2)
              else let slot = pt + 8 * pt_index 12 fault_addr; pte = rd64 (m_mem \<sigma>2) slot in
                if pte AND PAGE_PRESENT = 0 \<and> pte AND PAGE_SWAPPED \<noteq> 0
                then sw_fault_in sw pt (pt_index 12 fault_addr) fault_addr \<sigma>2
                else demand_leaf slot fault_addr err_code \<sigma>2)"

section \<open>Copies between the kernel and user memory\<close>

text \<open>The physical address of \<open>v\<close> under the leaf entry \<open>e\<close>, and how many bytes from
  there the entry still maps.\<close>

definition leaf_phys :: "u64 \<Rightarrow> u64 \<Rightarrow> u64" where
  "leaf_phys e v = (if e AND PAGE_PS \<noteq> 0 then (e AND 0x000FFFFFFFE00000) + (v AND 0x1FFFFF)
                    else (e AND PTE_ADDR_MASK) + (v AND 0xFFF))"

definition leaf_chunk :: "u64 \<Rightarrow> u64 \<Rightarrow> nat" where
  "leaf_chunk e v = (if e AND PAGE_PS \<noteq> 0 then 0x200000 - unat (v AND 0x1FFFFF) else 0x1000 - unat (v AND 0xFFF))"

lemma leaf_chunk_pos: "0 < leaf_chunk e v"
  using unat_and_mask[of 12 v] unat_and_mask[of 21 v] by (auto simp: leaf_chunk_def)

definition get_bytes :: "u64 \<Rightarrow> nat \<Rightarrow> pmem \<Rightarrow> u8 list" where
  "get_bytes a n m = map (\<lambda>i. m (a + of_nat i)) [0..<n]"

definition put_bytes :: "u64 \<Rightarrow> u8 list \<Rightarrow> pmem \<Rightarrow> pmem" where
  "put_bytes a bs m = (\<lambda>x. if unat (x - a) < length bs then bs ! unat (x - a) else m x)"

text \<open>One page: the entry, after the faults a copy may take on it.\<close>

definition copy_entry :: "'d swap_ops \<Rightarrow> u64 \<Rightarrow> bool \<Rightarrow> u64 \<Rightarrow> 'd mach \<Rightarrow> int \<times> u64 \<times> 'd mach" where
  "copy_entry sw ucr3 need_write v \<sigma> =
    (let e = pt_walk (m_mem \<sigma>) ucr3 v;
         raw = (case user_pte_existing (m_mem \<sigma>) ucr3 v of None \<Rightarrow> 0 | Some a \<Rightarrow> rd64 (m_mem \<sigma>) a);
         (rc, \<sigma>1) = (if e AND PAGE_PRESENT = 0 \<and> raw AND PAGE_PRESENT = 0 \<and> raw AND PAGE_SWAPPED \<noteq> 0
                     then handle_demand_page_fault sw v (if need_write then 2 else 0) \<sigma> else (0, \<sigma>))
     in if rc \<noteq> 0 then (-1, 0, \<sigma>1)
        else let e1 = pt_walk (m_mem \<sigma>1) ucr3 v in
          if need_write \<and> e1 AND (PAGE_PRESENT OR PAGE_USER OR PAGE_COW) = PAGE_PRESENT OR PAGE_USER OR PAGE_COW
             \<and> e1 AND PAGE_WRITE = 0
          then let \<sigma>2 = snd (handle_demand_page_fault sw v 2 \<sigma>1) in (0, pt_walk (m_mem \<sigma>2) ucr3 v, \<sigma>2)
          else (0, e1, \<sigma>1))"

text \<open>The copy loop.  \<open>kbuf\<close> is the kernel's buffer on a write and the bytes read so
  far on a read.\<close>

function user_copy_loop ::
  "'d swap_ops \<Rightarrow> u64 \<Rightarrow> u64 \<Rightarrow> nat \<Rightarrow> bool \<Rightarrow> bool \<Rightarrow> nat \<Rightarrow> u8 list \<Rightarrow> 'd mach \<Rightarrow> int \<times> u8 list \<times> 'd mach" where
  "user_copy_loop sw ucr3 uaddr n to_user need_write dn kbuf \<sigma> =
    (if dn \<ge> n then (0, kbuf, \<sigma>)
     else let v = uaddr + of_nat dn; (rc, e, \<sigma>1) = copy_entry sw ucr3 need_write v \<sigma>;
              need = PAGE_PRESENT OR PAGE_USER OR (if need_write then PAGE_WRITE else 0)
       in if rc \<noteq> 0 then (-1, kbuf, \<sigma>1)
          else if e AND need \<noteq> need then (-1, kbuf, \<sigma>1)
          else let phys = leaf_phys e v;
                   chunk = (if leaf_chunk e v > n - dn then n - dn else leaf_chunk e v)
            in if to_user
               then user_copy_loop sw ucr3 uaddr n to_user need_write (dn + chunk) kbuf
                      (\<sigma>1\<lparr> m_mem := put_bytes phys (take chunk (drop dn kbuf)) (m_mem \<sigma>1) \<rparr>)
               else user_copy_loop sw ucr3 uaddr n to_user need_write (dn + chunk) (kbuf @ get_bytes phys chunk (m_mem \<sigma>1)) \<sigma>1)"
  by pat_completeness auto
termination
  by (relation "measure (\<lambda>(sw, ucr3, uaddr, n, tu, nw, dn, kbuf, \<sigma>). n - dn)")
    (use leaf_chunk_pos in \<open>auto simp: diff_less_mono2\<close>)

declare user_copy_loop.simps [simp del]

definition user_copy :: "'d swap_ops \<Rightarrow> u64 \<Rightarrow> u8 list \<Rightarrow> nat \<Rightarrow> bool \<Rightarrow> bool \<Rightarrow> 'd mach \<Rightarrow> int \<times> u8 list \<times> 'd mach" where
  "user_copy sw uaddr kbuf n to_user need_write \<sigma> =
    (if n = 0 then (0, kbuf, \<sigma>)
     else let cur = k_cur (m_k \<sigma>) in
       if cur = 0 \<or> cur \<ge> k_max_tasks (m_k \<sigma>) then (-1, kbuf, \<sigma>)
       else let ucr3 = t_cr3 (m_cur \<sigma>) in
         if ucr3 = 0 then (-1, kbuf, \<sigma>)
         else if \<not> is_canonical_address uaddr \<or> uaddr + of_nat n < uaddr then (-1, kbuf, \<sigma>)
         else user_copy_loop sw ucr3 uaddr n to_user need_write 0 kbuf \<sigma>)"

definition copy_from_user :: "'d swap_ops \<Rightarrow> u64 \<Rightarrow> nat \<Rightarrow> 'd mach \<Rightarrow> int \<times> u8 list \<times> 'd mach" where
  "copy_from_user sw src n \<sigma> =
    (if n = 0 then (0, [], \<sigma>) else if n > USER_MEM_MAX_COPY then (-1, [], \<sigma>)
     else user_copy sw src [] n False False \<sigma>)"

definition copy_to_user :: "'d swap_ops \<Rightarrow> u64 \<Rightarrow> u8 list \<Rightarrow> 'd mach \<Rightarrow> int \<times> 'd mach" where
  "copy_to_user sw dst bs \<sigma> =
    (if length bs = 0 then (0, \<sigma>) else if length bs > USER_MEM_MAX_COPY then (-1, \<sigma>)
     else let (rc, _, \<sigma>1) = user_copy sw dst bs (length bs) True True \<sigma> in (rc, \<sigma>1))"

section \<open>Reading and writing entries\<close>

lemma bit_byte_shift: "bit (push_bit k (ucast (b :: u8) :: u64)) n \<longleftrightarrow> k \<le> n \<and> n < 64 \<and> n < k + 8 \<and> bit b (n - k)"
  by (auto simp: bit_simps dest: bit_imp_le_length)

lemma bit_rd64: "bit (rd64 m a) n \<longleftrightarrow> n < 64 \<and> bit (m (a + of_nat (n div 8))) (n mod 8)"
proof -
  have f: "bit (foldr (\<lambda>i w. f i OR w) xs 0) n \<longleftrightarrow> (\<exists>i\<in>set xs. bit (f i) n)" for f :: "nat \<Rightarrow> u64" and xs
    by (induction xs) (auto simp: bit_or_iff)
  have "bit (rd64 m a) n \<longleftrightarrow> (\<exists>i<8. 8 * i \<le> n \<and> n < 64 \<and> n < 8 * i + 8 \<and> bit (m (a + of_nat i)) (n - 8 * i))"
    unfolding rd64_def f by (auto simp only: bit_byte_shift set_upt atLeastLessThan_iff)
  also have "\<dots> \<longleftrightarrow> n < 64 \<and> bit (m (a + of_nat (n div 8))) (n mod 8)"
  proof
    assume "\<exists>i<8. 8 * i \<le> n \<and> n < 64 \<and> n < 8 * i + 8 \<and> bit (m (a + of_nat i)) (n - 8 * i)"
    then obtain i where i: "8 * i \<le> n" "n < 64" "n < 8 * i + 8" "bit (m (a + of_nat i)) (n - 8 * i)" by blast
    have q: "i = n div 8" using i(1,3) by simp
    have "n - 8 * i = n mod 8" unfolding q by (simp add: minus_mult_div_eq_mod)
    with q show "n < 64 \<and> bit (m (a + of_nat (n div 8))) (n mod 8)" using i(2,4) by simp
  next
    assume r: "n < 64 \<and> bit (m (a + of_nat (n div 8))) (n mod 8)"
    have "n - 8 * (n div 8) = n mod 8" by (simp add: minus_mult_div_eq_mod)
    thus "\<exists>i<8. 8 * i \<le> n \<and> n < 64 \<and> n < 8 * i + 8 \<and> bit (m (a + of_nat i)) (n - 8 * i)"
      using r by (intro exI[of _ "n div 8"]) (auto simp: less_mult_imp_div_less dividend_less_times_div)
  qed
  finally show ?thesis .
qed

lemma rd64_cong: "(\<And>i. i < 8 \<Longrightarrow> m (a + of_nat i) = m' (a + of_nat i)) \<Longrightarrow> rd64 m a = rd64 m' a"
  by (rule bit_eqI) (auto simp: bit_rd64 less_mult_imp_div_less)

lemma of_nat_small: "i < 8 \<Longrightarrow> unat (of_nat i :: u64) = i"
  by (rule unat_of_nat64) simp

lemma rd64_wr64: "rd64 (wr64 a x m) a = x"
proof (rule bit_word_eqI)
  fix n assume "n < LENGTH(64)"
  hence n: "n < 64" "n div 8 < 8" by auto
  have "(of_nat (n div 8) :: u64) < 8" using of_nat_small[OF n(2)] n(2) by (simp add: word_less_nat_alt)
  thus "bit (rd64 (wr64 a x m) a) n \<longleftrightarrow> bit x n" using n of_nat_small[OF n(2)]
    by (simp add: bit_rd64 wr64_def bit_simps)
qed

text \<open>Two aligned entries are the same or apart.\<close>

definition apart8 :: "u64 \<Rightarrow> u64 \<Rightarrow> bool" where
  "apart8 a b \<longleftrightarrow> (\<forall>i<8. b + of_nat i - a \<ge> 8)"

lemma rd64_wr64_apart: "apart8 a b \<Longrightarrow> rd64 (wr64 a x m) b = rd64 m b"
  by (rule rd64_cong) (auto simp: apart8_def wr64_def not_less)

section \<open>What a page maps\<close>

text \<open>Within one page, or one large page, the walk finds the same entry and the physical
  address moves with the virtual one.\<close>

lemma add_within:
  assumes "unat (v :: u64) mod 2 ^ k + i < 2 ^ k" "k \<le> 64"
  shows "unat (v + of_nat i) = unat v + i" "drop_bit k (v + of_nat i) = drop_bit k v"
    "unat (v + of_nat i) mod 2 ^ k = unat v mod 2 ^ k + i"
proof -
  have d: "unat v = 2 ^ k * (unat v div 2 ^ k) + unat v mod 2 ^ k" by simp
  have p: "(2 :: nat) ^ 64 = 2 ^ (64 - k) * 2 ^ k" using assms(2) by (simp flip: power_add)
  have "unat v < 2 ^ (64 - k) * 2 ^ k" using unat_lt_2p[of v] p by simp
  hence "Suc (unat v div 2 ^ k) \<le> 2 ^ (64 - k)" by (simp add: less_mult_imp_div_less Suc_leI)
  hence "2 ^ k * Suc (unat v div 2 ^ k) \<le> 2 ^ k * 2 ^ (64 - k)" by (rule mult_le_mono2)
  hence "2 ^ k * (unat v div 2 ^ k) + 2 ^ k \<le> (2 ^ 64 :: nat)" unfolding p by (simp add: algebra_simps)
  hence b: "unat v + i < 2 ^ 64" using assms(1) d by linarith
  hence i: "unat (of_nat i :: u64) = i" by (intro unat_of_nat64) linarith
  show u: "unat (v + of_nat i) = unat v + i" using b i by (simp add: unat_word_ariths)
  have q: "(unat v + i) div 2 ^ k = unat v div 2 ^ k"
  proof -
    have "unat v + i = (unat v mod 2 ^ k + i) + 2 ^ k * (unat v div 2 ^ k)" using d by linarith
    hence "(unat v + i) div 2 ^ k = (unat v mod 2 ^ k + i + 2 ^ k * (unat v div 2 ^ k)) div 2 ^ k" by (rule arg_cong)
    also have "\<dots> = unat v div 2 ^ k + (unat v mod 2 ^ k + i) div 2 ^ k" by (rule div_mult_self2) simp
    finally show ?thesis using assms(1) by simp
  qed
  show "drop_bit k (v + of_nat i) = drop_bit k v"
    by (rule word_unat_eq_iff[THEN iffD2]) (simp only: unat_drop_bit_eq u, simp only: drop_bit_eq_div q)
  show "unat (v + of_nat i) mod 2 ^ k = unat v mod 2 ^ k + i"
  proof -
    have "(unat v + i) mod 2 ^ k = (unat v mod 2 ^ k + i) mod 2 ^ k" by (simp only: mod_add_left_eq)
    thus ?thesis using assms(1) by (simp add: u)
  qed
qed

lemma pt_index_same:
  assumes "drop_bit k v = drop_bit k v'" "k \<le> sh"
  shows "pt_index sh v = pt_index sh v'"
proof -
  have "drop_bit sh x = drop_bit (sh - k) (drop_bit k x)" for x :: u64 using assms(2) by (simp only: drop_bit_drop_bit) simp
  thus ?thesis unfolding pt_index_def assms(1) by (metis assms(1))
qed

lemma pt_walk_same_page:
  assumes "drop_bit 12 v = drop_bit 12 v'"
  shows "pt_walk m cr3 v = pt_walk m cr3 v'"
proof -
  have "pt_entry m tab sh v = pt_entry m tab sh v'" if "12 \<le> sh" for tab sh
    using pt_index_same[OF assms that] by (simp add: pt_entry_def)
  thus ?thesis unfolding pt_walk_def by (simp only: order.refl rel_simps Let_def)
qed

text \<open>The physical address of a user address, and a page that is out on the swap device.\<close>

definition xlate :: "pmem \<Rightarrow> u64 \<Rightarrow> u64 \<Rightarrow> u64" where
  "xlate m cr3 v = leaf_phys (pt_walk m cr3 v) v"

definition swapped :: "pmem \<Rightarrow> u64 \<Rightarrow> u64 \<Rightarrow> bool" where
  "swapped m cr3 v \<longleftrightarrow> pt_walk m cr3 v AND PAGE_PRESENT = 0 \<and> (\<exists>a. user_pte_existing m cr3 v = Some a
     \<and> rd64 m a AND PAGE_PRESENT = 0 \<and> rd64 m a AND PAGE_SWAPPED \<noteq> 0)"

definition small :: "pmem \<Rightarrow> u64 \<Rightarrow> u64 \<Rightarrow> bool" where
  "small m cr3 v \<longleftrightarrow> pt_walk m cr3 v AND PAGE_PS = 0"

lemma page_same:
  assumes "unat v mod 4096 + j < 4096" "small m cr3 v"
  shows "pt_walk m cr3 (v + of_nat j) = pt_walk m cr3 v" "xlate m cr3 (v + of_nat j) = xlate m cr3 v + of_nat j"
proof -
  note A = add_within[of v 12 j, simplified, OF assms(1)]
  show w: "pt_walk m cr3 (v + of_nat j) = pt_walk m cr3 v" by (rule pt_walk_same_page) (rule A(2))
  have "unat ((v + of_nat j) AND 0xFFF) = unat ((v AND 0xFFF) + of_nat j)"
    using unat_and_mask[of 12 "v + of_nat j"] unat_and_mask[of 12 v] A(3) assms(1)
    by (simp add: unat_word_ariths unat_of_nat64)
  hence "(v + of_nat j) AND 0xFFF = (v AND 0xFFF) + of_nat j" by (rule word_unat_eq_iff[THEN iffD2])
  thus "xlate m cr3 (v + of_nat j) = xlate m cr3 v + of_nat j"
    using assms(2) by (simp add: xlate_def w leaf_phys_def small_def add.assoc)
qed

lemma small_chunk: "small m cr3 v \<Longrightarrow> leaf_chunk (pt_walk m cr3 v) v = 4096 - unat v mod 4096"
  using unat_and_mask[of 12 v] by (simp add: small_def leaf_chunk_def)

lemma get_bytes_page:
  assumes "small m cr3 v" "c \<le> leaf_chunk (pt_walk m cr3 v) v"
  shows "get_bytes (leaf_phys (pt_walk m cr3 v) v) c m = map (\<lambda>j. m (xlate m cr3 (v + of_nat j))) [0..<c]"
proof -
  have "unat v mod 4096 + j < 4096" if "j < c" for j using assms(2) that by (simp add: small_chunk[OF assms(1)])
  thus ?thesis using page_same(2)[OF _ assms(1)] by (auto simp: get_bytes_def xlate_def)
qed

lemma copy_entry_read:
  "\<not> swapped (m_mem \<sigma>) cr3 v \<Longrightarrow> copy_entry sw cr3 False v \<sigma> = (0, pt_walk (m_mem \<sigma>) cr3 v, \<sigma>)"
  by (auto simp: copy_entry_def swapped_def Let_def split: option.splits)

text \<open>The part of the range one round of the loop copies.\<close>

lemma read_loop:
  fixes uaddr cr3 :: u64 and \<sigma> :: "'d mach"
  defines "ok \<equiv> \<lambda>i. pt_walk (m_mem \<sigma>) cr3 (uaddr + of_nat i) AND 5 = 5"
  assumes all: "\<And>i. i < n \<Longrightarrow> \<not> swapped (m_mem \<sigma>) cr3 (uaddr + of_nat i) \<and> small (m_mem \<sigma>) cr3 (uaddr + of_nat i)"
    and dn: "dn \<le> n"
  shows "fst (user_copy_loop sw cr3 uaddr n False False dn kbuf \<sigma>) = (if \<forall>i. dn \<le> i \<and> i < n \<longrightarrow> ok i then 0 else -1)
    \<and> snd (snd (user_copy_loop sw cr3 uaddr n False False dn kbuf \<sigma>)) = \<sigma>
    \<and> ((\<forall>i. dn \<le> i \<and> i < n \<longrightarrow> ok i) \<longrightarrow> fst (snd (user_copy_loop sw cr3 uaddr n False False dn kbuf \<sigma>))
         = kbuf @ map (\<lambda>i. m_mem \<sigma> (xlate (m_mem \<sigma>) cr3 (uaddr + of_nat i))) [dn..<n])"
  using dn
proof (induction "n - dn" arbitrary: dn kbuf rule: less_induct)
  case less
  show ?case
  proof (cases "dn = n")
    case True
    thus ?thesis by (subst (1 2 3) user_copy_loop.simps) auto
  next
    case False
    hence d: "dn < n" using less.prems by simp
    define v where "v = uaddr + of_nat dn"
    define e where "e = pt_walk (m_mem \<sigma>) cr3 v"
    define c where "c = (if leaf_chunk e v > n - dn then n - dn else leaf_chunk e v)"
    have sm: "small (m_mem \<sigma>) cr3 v" and sw: "\<not> swapped (m_mem \<sigma>) cr3 v" using all[OF d] by (simp_all add: v_def)
    have c: "0 < c" "dn + c \<le> n" "c \<le> leaf_chunk e v" using leaf_chunk_pos[of e v] d by (auto simp: c_def)
    have okc: "ok (dn + j) = ok dn" if "j < c" for j
      using page_same(1)[OF _ sm, of j] that c(3) small_chunk[OF sm]
      by (simp add: ok_def v_def e_def add.assoc)
    have step: "user_copy_loop sw cr3 uaddr n False False dn kbuf \<sigma> =
        (if ok dn then user_copy_loop sw cr3 uaddr n False False (dn + c) (kbuf @ get_bytes (leaf_phys e v) c (m_mem \<sigma>)) \<sigma>
         else (-1, kbuf, \<sigma>))"
      using d by (subst user_copy_loop.simps) (simp add: copy_entry_read[OF sw] Let_def ok_def flip: v_def e_def c_def)
    show ?thesis
    proof (cases "ok dn")
      case False
      thus ?thesis using d by (auto simp: step)
    next
      case True
      have b: "get_bytes (leaf_phys e v) c (m_mem \<sigma>) = map (\<lambda>i. m_mem \<sigma> (xlate (m_mem \<sigma>) cr3 (uaddr + of_nat i))) [dn..<dn + c]"
      proof -
        have u: "[dn..<dn + c] = map (\<lambda>i. i + dn) [0..<c]" by (simp add: map_add_upt add.commute)
        show ?thesis unfolding e_def get_bytes_page[OF sm c(3)[unfolded e_def]] u map_map
          by (simp add: v_def add.assoc add.commute[of "of_nat dn :: u64"])
      qed
      have s: "[dn..<n] = [dn..<dn + c] @ [dn + c..<n]" using upt_add_eq_append[of dn "dn + c" "n - (dn + c)"] c(2) by simp
      have q: "(\<forall>i. dn \<le> i \<and> i < n \<longrightarrow> ok i) \<longleftrightarrow> (\<forall>i. dn + c \<le> i \<and> i < n \<longrightarrow> ok i)"
      proof
        assume a: "\<forall>i. dn + c \<le> i \<and> i < n \<longrightarrow> ok i"
        show "\<forall>i. dn \<le> i \<and> i < n \<longrightarrow> ok i"
        proof (intro allI impI)
          fix i assume i: "dn \<le> i \<and> i < n"
          show "ok i" using okc[of "i - dn"] a i True by (cases "i < dn + c") auto
        qed
      qed auto
      have "n - (dn + c) < n - dn" using c(1) d by simp
      note IH = less.hyps[OF this c(2), of "kbuf @ get_bytes (leaf_phys e v) c (m_mem \<sigma>)"]
      thus ?thesis unfolding q step using True by (simp add: b s)
    qed
  qed
qed

text \<open>The bytes of the table entries a walk reads.\<close>

definition walk_slots :: "pmem \<Rightarrow> u64 \<Rightarrow> u64 \<Rightarrow> u64 list" where
  "walk_slots m cr3 v =
    (let s4 = (cr3 AND PTE_ADDR_MASK) + 8 * pt_index 39 v;
         s3 = (rd64 m s4 AND PTE_ADDR_MASK) + 8 * pt_index 30 v;
         s2 = (rd64 m s3 AND PTE_ADDR_MASK) + 8 * pt_index 21 v;
         s1 = (rd64 m s2 AND PTE_ADDR_MASK) + 8 * pt_index 12 v
     in [s4, s3, s2, s1])"

definition walk_bytes :: "pmem \<Rightarrow> u64 \<Rightarrow> u64 \<Rightarrow> u64 set" where
  "walk_bytes m cr3 v = {s + of_nat i | s i. s \<in> set (walk_slots m cr3 v) \<and> i < 8}"

lemma walk_cong:
  assumes "\<And>b. b \<in> walk_bytes m cr3 v \<Longrightarrow> m' b = m b"
  shows "pt_walk m' cr3 v = pt_walk m cr3 v" "walk_slots m' cr3 v = walk_slots m cr3 v"
proof -
  define s4 where "s4 = (cr3 AND PTE_ADDR_MASK) + 8 * pt_index 39 v"
  define s3 where "s3 = (rd64 m s4 AND PTE_ADDR_MASK) + 8 * pt_index 30 v"
  define s2 where "s2 = (rd64 m s3 AND PTE_ADDR_MASK) + 8 * pt_index 21 v"
  define s1 where "s1 = (rd64 m s2 AND PTE_ADDR_MASK) + 8 * pt_index 12 v"
  have W: "walk_slots m cr3 v = [s4, s3, s2, s1]" by (simp add: walk_slots_def s4_def s3_def s2_def s1_def Let_def)
  have r: "rd64 m' s = rd64 m s" if "s \<in> {s4, s3, s2, s1}" for s
  proof (rule rd64_cong)
    fix i :: nat assume "i < 8"
    thus "m' (s + of_nat i) = m (s + of_nat i)" using that by (intro assms) (auto simp: walk_bytes_def W)
  qed
  note R = r[of s4, simplified] r[of s3, simplified] r[of s2, simplified] r[of s1, simplified]
  show "walk_slots m' cr3 v = walk_slots m cr3 v"
    unfolding W by (simp only: walk_slots_def Let_def s4_def[symmetric] R s3_def[symmetric] s2_def[symmetric] s1_def[symmetric])
  show "pt_walk m' cr3 v = pt_walk m cr3 v"
    by (simp only: pt_walk_def pt_entry_def Let_def s4_def[symmetric] R s3_def[symmetric] s2_def[symmetric] s1_def[symmetric])
qed

text \<open>The reference for a write: one byte after the other, at its physical address.\<close>

definition poke :: "(nat \<Rightarrow> u64) \<Rightarrow> u8 list \<Rightarrow> nat list \<Rightarrow> pmem \<Rightarrow> pmem" where
  "poke xl bs is m = fold (\<lambda>i f. f(xl i := bs ! i)) is m"

lemma poke_other: "x \<notin> xl ` set is \<Longrightarrow> poke xl bs is m x = m x"
  unfolding poke_def by (induction "is" arbitrary: m) auto

lemma poke_append: "poke xl bs (is @ js) m = poke xl bs js (poke xl bs is m)"
  by (simp add: poke_def)

lemma poke_inj:
  assumes "inj_on xl {..<n}" "i < n"
  shows "poke xl bs [0..<n] m (xl i) = bs ! i"
  using assms
proof (induction n)
  case (Suc n)
  have "xl i \<noteq> xl n" if "i \<noteq> n" using Suc.prems that by (auto dest: inj_onD)
  moreover have "inj_on xl {..<n}" using Suc.prems(1) by (rule inj_on_subset) auto
  ultimately show ?case using Suc by (auto simp: poke_append poke_def less_Suc_eq)
qed simp

lemma put_bytes_poke:
  assumes "length bs \<le> 4096"
  shows "put_bytes a bs m = poke (\<lambda>j. a + of_nat j) bs [0..<length bs] m"
proof
  fix x
  have u: "unat (of_nat j :: u64) = j" if "j < length bs" for j using that assms by (intro unat_of_nat64) simp
  have inj: "inj_on (\<lambda>j. a + of_nat j :: u64) {..<length bs}" by (rule inj_onI) (metis add_left_cancel lessThan_iff u)
  show "put_bytes a bs m x = poke (\<lambda>j. a + of_nat j) bs [0..<length bs] m x"
  proof (cases "unat (x - a) < length bs")
    case True
    have "x = a + of_nat (unat (x - a))" by simp
    thus ?thesis using poke_inj[OF inj True, of bs m] True by (simp add: put_bytes_def)
  next
    case False
    have "x \<notin> (\<lambda>j. a + of_nat j) ` set [0..<length bs]" using False u by auto
    thus ?thesis using False by (simp add: poke_other put_bytes_def)
  qed
qed

lemma poke_shift:
  assumes "\<And>j. j < length bs \<Longrightarrow> xl' j = xl (j + k) \<and> bs ! j = cs ! (j + k)"
  shows "poke xl' bs [0..<length bs] m = poke xl cs [k..<k + length bs] m"
proof -
  have u: "[k..<k + length bs] = map (\<lambda>i. i + k) [0..<length bs]" by (simp add: map_add_upt add.commute)
  have "fold (\<lambda>i f. f(xl' i := bs ! i)) js m = fold (\<lambda>i f. f(xl i := cs ! i)) (map (\<lambda>i. i + k) js) m"
    if "set js \<subseteq> {..<length bs}" for js m
    using that by (induction js arbitrary: m) (auto simp: assms add.commute)
  thus ?thesis unfolding poke_def u by (simp only: set_upt atLeast0LessThan order.refl)
qed

text \<open>The addresses a write goes to, and what it needs: every page of the range a present,
  writable user page of four kilobytes, and none of the bytes written in the tables
  that translate the range.\<close>

definition target :: "pmem \<Rightarrow> u64 \<Rightarrow> u64 \<Rightarrow> nat \<Rightarrow> u64" where
  "target m cr3 uaddr i = xlate m cr3 (uaddr + of_nat i)"

definition write_ok :: "pmem \<Rightarrow> u64 \<Rightarrow> u64 \<Rightarrow> nat \<Rightarrow> bool" where
  "write_ok m cr3 uaddr n \<longleftrightarrow> (\<forall>i<n. pt_walk m cr3 (uaddr + of_nat i) AND 7 = 7 \<and> small m cr3 (uaddr + of_nat i)
     \<and> walk_bytes m cr3 (uaddr + of_nat i) \<inter> target m cr3 uaddr ` {..<n} = {})"

lemma and_seven:
  assumes "(e :: u64) AND 7 = 7"
  shows "e AND 1 = 1" "e AND 2 = 2" "e AND 5 = 5"
proof -
  have "e AND k = (e AND 7) AND k" if "7 AND k = k" for k using that by (simp add: and.assoc)
  from this[of 1] this[of 2] this[of 5] show "e AND 1 = 1" "e AND 2 = 2" "e AND 5 = 5" using assms by simp_all
qed

lemma copy_entry_present:
  "pt_walk (m_mem \<sigma>) cr3 v AND 7 = 7 \<Longrightarrow> copy_entry sw cr3 w v \<sigma> = (0, pt_walk (m_mem \<sigma>) cr3 v, \<sigma>)"
  using and_seven[of "pt_walk (m_mem \<sigma>) cr3 v"] by (simp add: copy_entry_def Let_def)

lemma write_loop:
  fixes \<sigma> :: "'d mach" and cr3 uaddr :: u64
  defines "xl \<equiv> target (m_mem \<sigma>) cr3 uaddr" and "m \<equiv> m_mem \<sigma>"
  assumes ok: "write_ok (m_mem \<sigma>) cr3 uaddr n" and len: "length bs = n" and dn: "dn \<le> n"
  shows "user_copy_loop sw cr3 uaddr n True True dn bs (\<sigma>\<lparr> m_mem := poke xl bs [0..<dn] m \<rparr>)
    = (0, bs, \<sigma>\<lparr> m_mem := poke xl bs [0..<n] m \<rparr>)"
  using dn
proof (induction "n - dn" arbitrary: dn rule: less_induct)
  case less
  show ?case
  proof (cases "dn = n")
    case True
    thus ?thesis by (subst user_copy_loop.simps) simp
  next
    case False
    hence d: "dn < n" using less.prems by simp
    define v where "v = uaddr + of_nat dn"
    define e where "e = pt_walk m cr3 v"
    define c where "c = (if leaf_chunk e v > n - dn then n - dn else leaf_chunk e v)"
    define mm where "mm = poke xl bs [0..<dn] m"
    have p: "e AND 7 = 7" and sm: "small m cr3 v" using ok d by (simp_all add: write_ok_def v_def e_def m_def)
    have c: "0 < c" "dn + c \<le> n" "c \<le> leaf_chunk e v" using leaf_chunk_pos[of e v] d by (auto simp: c_def)
    have c4: "c \<le> 4096" using c(3) small_chunk[OF sm] by (simp add: e_def)
    have "mm b = m b" if "b \<in> walk_bytes m cr3 v" for b unfolding mm_def
      by (rule poke_other) (use ok d that in \<open>fastforce simp: write_ok_def v_def xl_def m_def\<close>)
    hence e: "pt_walk mm cr3 v = e" using walk_cong(1)[of m cr3 v mm] by (simp add: e_def)
    have t: "leaf_phys e v + of_nat j = xl (j + dn)" if "j < c" for j
      using page_same(2)[OF _ sm, of j] that c(3) small_chunk[OF sm]
      by (simp add: xl_def target_def v_def e_def m_def xlate_def add.assoc add.commute[of "of_nat dn"])
    have l: "length (take c (drop dn bs)) = c" using len c(2) by simp
    have "put_bytes (leaf_phys e v) (take c (drop dn bs)) mm = poke (\<lambda>j. leaf_phys e v + of_nat j) (take c (drop dn bs)) [0..<c] mm"
      using put_bytes_poke[of "take c (drop dn bs)" "leaf_phys e v" mm] c4 unfolding l by simp
    also have "\<dots> = poke xl bs [dn..<dn + c] mm"
      using poke_shift[of "take c (drop dn bs)" "\<lambda>j. leaf_phys e v + of_nat j" xl dn bs mm] t len c(2) unfolding l
      by (simp add: add.commute)
    also have "\<dots> = poke xl bs [0..<dn + c] m"
      using upt_add_eq_append[of 0 dn c] by (simp add: mm_def poke_append)
    finally have w: "put_bytes (leaf_phys e v) (take c (drop dn bs)) mm = poke xl bs [0..<dn + c] m" .
    have "user_copy_loop sw cr3 uaddr n True True dn bs (\<sigma>\<lparr> m_mem := mm \<rparr>) =
        user_copy_loop sw cr3 uaddr n True True (dn + c) bs (\<sigma>\<lparr> m_mem := poke xl bs [0..<dn + c] m \<rparr>)"
      using d copy_entry_present[of "\<sigma>\<lparr> m_mem := mm \<rparr>" cr3 v sw True] p e w
      by (subst user_copy_loop.simps) (simp add: Let_def flip: v_def c_def)
    also have "\<dots> = (0, bs, \<sigma>\<lparr> m_mem := poke xl bs [0..<n] m \<rparr>)" using less.hyps[of "dn + c"] c(1,2) d by simp
    finally show ?thesis by (simp add: mm_def)
  qed
qed

text \<open>Who a copy acts for, and what the entry checks before it.\<close>

definition copy_guard :: "'d mach \<Rightarrow> u64 \<Rightarrow> nat \<Rightarrow> bool" where
  "copy_guard \<sigma> uaddr n \<longleftrightarrow> 0 < n \<and> n \<le> USER_MEM_MAX_COPY \<and> 0 < k_cur (m_k \<sigma>) \<and> k_cur (m_k \<sigma>) < k_max_tasks (m_k \<sigma>)
     \<and> t_cr3 (m_cur \<sigma>) \<noteq> 0 \<and> is_canonical_address uaddr \<and> \<not> uaddr + of_nat n < uaddr"

lemma copy_from_user_guard:
  "copy_guard \<sigma> uaddr n \<Longrightarrow> copy_from_user sw uaddr n \<sigma> = user_copy_loop sw (t_cr3 (m_cur \<sigma>)) uaddr n False False 0 [] \<sigma>"
  "\<not> copy_guard \<sigma> uaddr n \<Longrightarrow> 0 < n \<Longrightarrow> copy_from_user sw uaddr n \<sigma> = (-1, [], \<sigma>)"
  by (auto simp: copy_guard_def copy_from_user_def user_copy_def Let_def)

lemma copy_to_user_guard:
  "copy_guard \<sigma> uaddr (length bs) \<Longrightarrow> copy_to_user sw uaddr bs \<sigma>
     = (let (rc, _, \<sigma>1) = user_copy_loop sw (t_cr3 (m_cur \<sigma>)) uaddr (length bs) True True 0 bs \<sigma> in (rc, \<sigma>1))"
  "\<not> copy_guard \<sigma> uaddr (length bs) \<Longrightarrow> bs \<noteq> [] \<Longrightarrow> copy_to_user sw uaddr bs \<sigma> = (-1, \<sigma>)"
  by (auto simp: copy_guard_def copy_to_user_def user_copy_def Let_def)

text \<open>C25.  A copy from user memory agrees with reading byte by byte through the page
  tables of the running task: it succeeds exactly when every byte of the range is on a
  present user page, returns those bytes, and changes nothing; kernel pages are never
  read.  The range has no page out on the swap device and no large page.\<close>

theorem copy_from_user_exact:
  fixes \<sigma> :: "'d mach"
  defines "m \<equiv> m_mem \<sigma>" and "cr3 \<equiv> t_cr3 (m_cur \<sigma>)"
  assumes "copy_guard \<sigma> uaddr n"
    and "\<forall>i<n. \<not> swapped m cr3 (uaddr + of_nat i) \<and> small m cr3 (uaddr + of_nat i)"
  shows "(\<exists>bs. copy_from_user sw uaddr n \<sigma> = (if \<forall>i<n. pt_walk m cr3 (uaddr + of_nat i) AND 5 = 5 then 0 else -1, bs, \<sigma>)
    \<and> ((\<forall>i<n. pt_walk m cr3 (uaddr + of_nat i) AND 5 = 5) \<longrightarrow> bs = map (\<lambda>i. m (xlate m cr3 (uaddr + of_nat i))) [0..<n]))"
  using read_loop[of n \<sigma> cr3 uaddr 0 sw "[]"] assms(4) copy_from_user_guard(1)[OF assms(3), of sw]
  by (simp add: m_def cr3_def) (metis prod.collapse)

text \<open>A small address space for concrete runs: the tables at \<open>0x1000\<close> to \<open>0x4000\<close> map the
  page \<open>0x400000\<close> of task 1 to the frame \<open>0x5000\<close>, writable.\<close>

lemma apart8I: "8 \<le> unat (b - a) \<Longrightarrow> unat (b - a) + 8 \<le> 2 ^ 64 \<Longrightarrow> apart8 a b"
  unfolding apart8_def
proof (intro allI impI)
  fix i :: nat assume a: "8 \<le> unat (b - a)" "unat (b - a) + 8 \<le> 2 ^ 64" "i < 8"
  have e: "b + of_nat i - a = (b - a) + of_nat i" by simp
  have "unat (b + of_nat i - a) = unat (b - a) + i"
    unfolding e using a of_nat_small[OF a(3)] by (simp add: unat_word_ariths)
  thus "8 \<le> b + of_nat i - a" using a by (simp add: word_le_nat_alt)
qed

definition demo_mem :: pmem where
  "demo_mem = wr64 0x1000 0x2007 (wr64 0x2000 0x3007 (wr64 0x3010 0x4007 (wr64 0x4000 0x5007 (\<lambda>_. 0))))"

definition no_swap :: "unit swap_ops" where
  "no_swap = \<lparr> sw_enabled = (\<lambda>_. False), sw_evict_idle = (\<lambda>_ \<sigma>. (0, \<sigma>)), sw_evict_self = (\<lambda>_ \<sigma>. (0, \<sigma>)),
     sw_fault_in = (\<lambda>_ _ _ \<sigma>. (-1, \<sigma>)) \<rparr>"

definition demo_mach :: "unit mach" where
  "demo_mach = \<lparr> m_k = zero_kstate\<lparr> k_cur := 1, k_tasks := (\<lambda>_. zero_tcb)(1 := zero_tcb\<lparr> t_state := 1, t_cr3 := 0x1000 \<rparr>) \<rparr>,
     m_mem = demo_mem, m_cow_faults = 0, m_dev = () \<rparr>"

lemma demo_walk:
  assumes "drop_bit 12 v = 0x400"
  shows "pt_walk demo_mem 0x1000 v = 0x5007" "walk_slots demo_mem 0x1000 v = [0x1000, 0x2000, 0x3010, 0x4000]"
    "leaf_phys 0x5007 v = 0x5000 + (v AND 0xFFF)"
proof -
  have i: "pt_index sh v = pt_index sh 0x400000" if "12 \<le> sh" for sh
    by (rule pt_index_same[OF _ that]) (simp add: assms)
  have I: "pt_index 39 v = 0" "pt_index 30 v = 0" "pt_index 21 v = 2" "pt_index 12 v = 0"
    by (simp_all add: i) (simp_all add: pt_index_def)
  have r: "rd64 demo_mem 0x1000 = 0x2007" "rd64 demo_mem 0x2000 = 0x3007" "rd64 demo_mem 0x3010 = 0x4007" "rd64 demo_mem 0x4000 = 0x5007"
    by (simp_all add: demo_mem_def rd64_wr64 rd64_wr64_apart apart8I)
  show "pt_walk demo_mem 0x1000 v = 0x5007" "walk_slots demo_mem 0x1000 v = [0x1000, 0x2000, 0x3010, 0x4000]"
    using r by (simp_all add: pt_walk_def walk_slots_def pt_entry_def I Let_def)
  show "leaf_phys 0x5007 v = 0x5000 + (v AND 0xFFF)" by (simp add: leaf_phys_def)
qed

lemma demo_page: "i < 3 \<Longrightarrow> drop_bit 12 (0x400000 + of_nat i :: u64) = 0x400"
  using add_within(2)[of "0x400000" 12 i] by simp

lemma demo_target: "i < 3 \<Longrightarrow> target demo_mem 0x1000 0x400000 i = 0x5000 + of_nat i"
proof -
  assume i: "i < 3"
  have "(0x400000 + of_nat i :: u64) AND 0xFFF = of_nat i"
    using unat_and_mask[of 12 "0x400000 + of_nat i"] add_within(3)[of "0x400000" 12 i] i
    by (intro word_unat_eq_iff[THEN iffD2]) (simp add: unat_of_nat64)
  thus ?thesis using demo_walk(1,3)[OF demo_page[OF i]] by (simp add: target_def xlate_def)
qed

lemma demo_guard: "copy_guard demo_mach 0x400000 3"
  by (simp add: copy_guard_def demo_mach_def m_cur_def zero_kstate_def is_canonical_address_def Let_def)

lemma demo_write_ok: "write_ok demo_mem 0x1000 0x400000 3"
proof -
  have "0x5000 + of_nat j \<notin> walk_bytes demo_mem 0x1000 (0x400000 + of_nat i)" if i: "i < 3" and j: "j < 3" for i j
  proof
    assume "0x5000 + of_nat j \<in> walk_bytes demo_mem 0x1000 (0x400000 + of_nat i)"
    hence "\<exists>s k. s \<in> {0x1000, 0x2000, 0x3010, 0x4000 :: u64} \<and> k < (8::nat) \<and> 0x5000 + of_nat j = s + of_nat k"
      unfolding walk_bytes_def demo_walk(2)[OF demo_page[OF i]] by auto
    then obtain s k where s: "s \<in> {0x1000, 0x2000, 0x3010, 0x4000 :: u64}" "k < (8::nat)" "0x5000 + of_nat j = s + of_nat k" by blast
    have "unat (0x5000 + of_nat j :: u64) = 0x5000 + j" "unat (s + of_nat k) = unat s + k"
      using j s(1,2) of_nat_small[of j] of_nat_small[of k] by (auto simp: unat_word_ariths)
    thus False using s j by auto
  qed
  thus ?thesis using demo_walk(1)[OF demo_page] demo_target by (auto simp: write_ok_def small_def)
qed

theorem copy_from_user_exact_witness:
  "\<exists>bs. copy_from_user no_swap 0x400000 3 demo_mach = (0, bs, demo_mach)"
proof -
  have m: "m_mem demo_mach = demo_mem" "t_cr3 (m_cur demo_mach) = 0x1000" by (simp_all add: demo_mach_def m_cur_def)
  have a: "\<forall>i<3. \<not> swapped demo_mem 0x1000 (0x400000 + of_nat i) \<and> small demo_mem 0x1000 (0x400000 + of_nat i)"
    using demo_walk(1)[OF demo_page] by (simp add: swapped_def small_def)
  have b: "(\<forall>i<3. pt_walk demo_mem 0x1000 (0x400000 + of_nat i) AND 5 = 5) = True" using demo_walk(1)[OF demo_page] by simp
  show ?thesis using copy_from_user_exact[OF demo_guard, unfolded m, OF a, of no_swap, unfolded b if_True] by blast
qed

text \<open>C4.  A copy to user memory whose pages are all present, writable user pages, no two bytes of
  the buffer sharing a physical address, agrees with writing byte by byte through the page tables, changes no other byte of physical
  memory and nothing of the kernel's state, and the running task reads the same bytes
  back.\<close>

theorem copy_to_user_roundtrip:
  fixes \<sigma> :: "'d mach"
  assumes "copy_guard \<sigma> uaddr (length bs)" "write_ok (m_mem \<sigma>) (t_cr3 (m_cur \<sigma>)) uaddr (length bs)"
    and "inj_on (target (m_mem \<sigma>) (t_cr3 (m_cur \<sigma>)) uaddr) {..<length bs}"
  shows "\<exists>m'. copy_to_user sw uaddr bs \<sigma> = (0, \<sigma>\<lparr> m_mem := m' \<rparr>)
    \<and> (\<forall>x. x \<notin> target (m_mem \<sigma>) (t_cr3 (m_cur \<sigma>)) uaddr ` {..<length bs} \<longrightarrow> m' x = m_mem \<sigma> x)
    \<and> copy_from_user sw uaddr (length bs) (\<sigma>\<lparr> m_mem := m' \<rparr>) = (0, bs, \<sigma>\<lparr> m_mem := m' \<rparr>)"
proof -
  define cr3 n m xl where "cr3 = t_cr3 (m_cur \<sigma>)" and "n = length bs" and "m = m_mem \<sigma>" and "xl = target (m_mem \<sigma>) (t_cr3 (m_cur \<sigma>)) uaddr"
  define m' where "m' = poke xl bs [0..<n] m"
  have wl: "copy_to_user sw uaddr bs \<sigma> = (0, \<sigma>\<lparr> m_mem := m' \<rparr>)"
    using write_loop[OF assms(2) refl, of 0 sw] copy_to_user_guard(1)[OF assms(1), of sw]
    by (simp add: poke_def m'_def xl_def n_def m_def)
  have other: "m' x = m x" if "x \<notin> xl ` {..<n}" for x unfolding m'_def by (rule poke_other) (use that in auto)
  have ok: "pt_walk m cr3 (uaddr + of_nat i) AND 7 = 7" "small m cr3 (uaddr + of_nat i)"
    "walk_bytes m cr3 (uaddr + of_nat i) \<inter> xl ` {..<n} = {}" if "i < n" for i
    using assms(2) that by (simp_all add: write_ok_def m_def cr3_def n_def xl_def)
  have w: "pt_walk m' cr3 (uaddr + of_nat i) = pt_walk m cr3 (uaddr + of_nat i)" if "i < n" for i
    by (rule walk_cong(1)) (use ok(3)[OF that] other in blast)
  have g: "copy_guard (\<sigma>\<lparr> m_mem := m' \<rparr>) uaddr n" "m_cur (\<sigma>\<lparr> m_mem := m' \<rparr>) = m_cur \<sigma>"
    using assms(1) by (simp_all add: copy_guard_def m_cur_def n_def)
  have p: "\<not> swapped m' cr3 (uaddr + of_nat i) \<and> small m' cr3 (uaddr + of_nat i) \<and> pt_walk m' cr3 (uaddr + of_nat i) AND 5 = 5"
    if "i < n" for i
    using w[OF that] ok(1,2)[OF that] and_seven[OF ok(1)[OF that]] by (simp add: swapped_def small_def)
  have "m' (xlate m' cr3 (uaddr + of_nat i)) = bs ! i" if "i < n" for i
  proof -
    have "xlate m' cr3 (uaddr + of_nat i) = xl i" using w[OF that] by (simp add: xlate_def xl_def target_def m_def cr3_def)
    thus ?thesis using poke_inj[OF assms(3), of i bs m] that by (simp add: m'_def xl_def n_def)
  qed
  hence "map (\<lambda>i. m' (xlate m' cr3 (uaddr + of_nat i))) [0..<n] = bs" by (intro nth_equalityI) (simp_all add: n_def)
  hence "copy_from_user sw uaddr n (\<sigma>\<lparr> m_mem := m' \<rparr>) = (0, bs, \<sigma>\<lparr> m_mem := m' \<rparr>)"
    using read_loop[of n "\<sigma>\<lparr> m_mem := m' \<rparr>" cr3 uaddr 0 sw "[]"] p copy_from_user_guard(1)[OF g(1), of sw] g(2)
    by (simp add: cr3_def) (metis prod.collapse)
  thus ?thesis using wl other by (auto simp: n_def m_def xl_def)
qed

theorem copy_to_user_roundtrip_witness:
  "\<exists>m'. copy_to_user no_swap 0x400000 [0x61, 0x62, 0x63] demo_mach = (0, demo_mach\<lparr> m_mem := m' \<rparr>)
    \<and> copy_from_user no_swap 0x400000 3 (demo_mach\<lparr> m_mem := m' \<rparr>) = (0, [0x61, 0x62, 0x63], demo_mach\<lparr> m_mem := m' \<rparr>)"
proof -
  have m: "m_mem demo_mach = demo_mem" "t_cr3 (m_cur demo_mach) = 0x1000" by (simp_all add: demo_mach_def m_cur_def)
  have inj: "inj_on (target demo_mem 0x1000 0x400000) {..<3}"
  proof (rule inj_onI)
    fix x y :: nat assume a: "x \<in> {..<3}" "y \<in> {..<3}" "target demo_mem 0x1000 0x400000 x = target demo_mem 0x1000 0x400000 y"
    hence "(of_nat x :: u64) = of_nat y" by (simp only: demo_target lessThan_iff add_left_cancel)
    hence "unat (of_nat x :: u64) = unat (of_nat y :: u64)" by (rule arg_cong)
    moreover have "x < 8" "y < 8" using a(1,2) by simp_all
    ultimately show "x = y" by (simp only: of_nat_small)
  qed
  have l: "length [0x61, 0x62, 0x63 :: u8] = 3" by simp
  from copy_to_user_roundtrip[of demo_mach "0x400000" "[0x61, 0x62, 0x63]" no_swap, unfolded l m, OF demo_guard demo_write_ok inj]
  show ?thesis by blast
qed

section \<open>Breaking copy on write\<close>

lemma bit_cow_flags:
  "bit (cow_flags pte v) 63 \<longleftrightarrow> rust_user_page_is_noexec v" "bit (cow_flags pte v) 1" "\<not> bit (cow_flags pte v) 9"
  by (simp_all add: cow_flags_def Let_def bit_simps bit_numeral_rec)

lemma bit_below: "p < 2 ^ 52 \<Longrightarrow> \<not> bit (of_nat p :: u64) 63"
proof -
  assume "p < 2 ^ 52"
  hence "p < 2 ^ 63" by simp
  hence "\<not> bit p 63" by (metis bit_iff_odd div_less even_zero)
  thus ?thesis by (simp add: bit_of_nat_iff)
qed

text \<open>C26.  Breaking a page that is shared copy-on-write gives the writer its own frame with
  the same bytes and a writable entry, and leaves every byte of the shared frame, and of
  all other memory but the entry, as it was: the other sharers see no change.\<close>

theorem cow_break_private:
  fixes \<sigma> :: "'d mach"
  assumes pte: "rd64 (m_mem \<sigma>) slot = pte" "pte AND PAGE_SEALED = 0" "\<not> phys_in_untyped_arena (m_k \<sigma>) (pte AND PTE_ADDR_MASK)"
    and refs: "refc_index (unat (pte AND PTE_ADDR_MASK) mod 2 ^ 32) (pp_pages (m_pool \<sigma>)) = Some idx" "1 < pp_refs (m_pool \<sigma>) idx"
    and new: "pp_stack (m_pool \<sigma>) = np # rest" "np \<noteq> 0" "pool_frame_index (m_pool \<sigma>) np \<noteq> Some idx"
    and apart: "\<forall>i<8. 0x1000 \<le> slot + of_nat i - of_nat np"
  shows "\<exists>\<sigma>'. cow_break_pte slot v \<sigma> = (0, \<sigma>') \<and> rd64 (m_mem \<sigma>') slot = of_nat np OR cow_flags pte v
    \<and> (\<forall>i. i < 0x1000 \<longrightarrow> m_mem \<sigma>' (of_nat np + i) = m_mem \<sigma> ((pte AND PTE_ADDR_MASK) + i))
    \<and> (\<forall>a. 8 \<le> a - slot \<and> 0x1000 \<le> a - of_nat np \<longrightarrow> m_mem \<sigma>' a = m_mem \<sigma> a)
    \<and> pp_refs (m_pool \<sigma>') idx = pp_refs (m_pool \<sigma>) idx - 1 \<and> m_k \<sigma>' = (m_k \<sigma>)\<lparr> k_pool := m_pool \<sigma>' \<rparr>"
proof -
  let ?p = "m_pool \<sigma>" and ?old = "pte AND PTE_ADDR_MASK"
  define c where "c = pp_refs ?p idx"
  define p1 where "p1 = set_refs idx (c - 1) ?p"
  have c: "1 < c" using refs(2) by (simp add: c_def)
  hence nz: "c \<noteq> 0" "c - 1 \<noteq> 0" by auto
  hence "uint (c - 1) \<noteq> 0" by (simp only: uint_0_iff not_False_eq_True)
  hence cn: "c \<noteq> 0" "1 \<le> uint (c - 1)" using nz(1) uint_ge_0[of "c - 1"] by linarith+
  have dec: "rust_page_ref_dec (unat ?old mod 2 ^ 32) ?p = (uint (c - 1), p1)"
    using cn(1) refs(1) by (simp add: rust_page_ref_dec_def c_def p1_def Let_def)
  have cnt: "(of_int ((if uint (c - 1) > 0 then uint (c - 1) else 0) + 1) :: 16 word) = c" using cn(2) by simp
  have fi: "pool_frame_index (p1\<lparr> pp_stack := rest \<rparr>) np \<noteq> Some idx"
    using new(3) pool_frame_index_cong[of "p1\<lparr> pp_stack := rest \<rparr>" ?p] by (simp add: p1_def set_refs_def)
  obtain p2 where al: "alloc_user_physical_page p1 = (np, p2)" "pp_refs p2 idx = c - 1"
  proof
    show "alloc_user_physical_page p1 = (np, snd (alloc_user_physical_page p1))"
      using new(1) by (simp add: alloc_user_physical_page_def p1_def set_refs_def Let_def)
    show "pp_refs (snd (alloc_user_physical_page p1)) idx = c - 1"
      using new(1) fi by (auto simp: alloc_user_physical_page_def p1_def set_refs_def set_on_loan_def Let_def split: option.split)
  qed
  let ?m = "wr64 slot (of_nat np OR cow_flags pte v) (copy_page (of_nat np) ?old (m_mem \<sigma>))"
  have run: "cow_break_pte slot v \<sigma> = (0, (set_pool p2 \<sigma>)\<lparr> m_mem := ?m \<rparr>)"
    unfolding cow_break_pte_def Let_def pte(1) dec prod.case cnt rust_cow_copy_required_def al using pte(2,3) c new(2) by simp
  have ns: "\<not> (of_nat np + i) - slot < 8" if i: "i < 0x1000" for i :: u64
  proof
    assume l: "of_nat np + i - slot < 8"
    hence j: "unat (of_nat np + i - slot) < 8" by (simp add: word_less_nat_alt)
    have "slot + of_nat (unat (of_nat np + i - slot)) - of_nat np = i" by simp
    thus False using apart[rule_format, OF j] i by simp
  qed
  have "?m (of_nat np + i) = m_mem \<sigma> (?old + i)" if "i < 0x1000" for i
    using ns[OF that] that by (simp add: wr64_def copy_page_def)
  moreover have "?m a = m_mem \<sigma> a" if "8 \<le> a - slot \<and> 0x1000 \<le> a - of_nat np" for a
    using that by (auto simp: wr64_def copy_page_def)
  ultimately show ?thesis using run al(2) by (simp add: rd64_wr64 set_pool_def m_pool_def c_def)
qed

text \<open>C38.  The entry a copy-on-write break leaves is writable, and executable at every
  address outside the two stack windows, whatever protection the entry had before: the
  no-execute bit of a data page does not survive its first write after a fork.\<close>

theorem cow_break_drops_noexec:
  fixes \<sigma> :: "'d mach"
  assumes "cow_break_pte slot v \<sigma> = (0, \<sigma>')" "\<forall>p\<in>set (pp_stack (m_pool \<sigma>)). p < 2 ^ 52"
  shows "bit (rd64 (m_mem \<sigma>') slot) 1 \<and> (bit (rd64 (m_mem \<sigma>') slot) 63 \<longleftrightarrow> rust_user_page_is_noexec v)"
proof -
  let ?pte = "rd64 (m_mem \<sigma>) slot"
  have st: "pp_stack (snd (rust_page_ref_dec x p)) = pp_stack p" for x p
    by (auto simp: rust_page_ref_dec_def set_refs_def Let_def split: option.split)
  have old: "\<not> bit (?pte AND PTE_ADDR_MASK) 63" by (simp add: bit_simps bit_numeral_rec)
  have np: "\<not> bit (of_nat (fst (alloc_user_physical_page (snd (rust_page_ref_dec x (m_pool \<sigma>))))) :: u64) 63" for x
  proof -
    let ?np = "fst (alloc_user_physical_page (snd (rust_page_ref_dec x (m_pool \<sigma>))))"
    have "?np = 0 \<or> ?np \<in> set (pp_stack (m_pool \<sigma>))"
      using st[of x "m_pool \<sigma>"] by (auto simp: alloc_user_physical_page_def Let_def split: list.splits)
    thus ?thesis using assms(2) bit_below[of ?np] by auto
  qed
  have "\<exists>w. rd64 (m_mem \<sigma>') slot = w OR cow_flags ?pte v \<and> \<not> bit w 63"
  proof -
    have "\<exists>w p mm. (set_pool p \<sigma>)\<lparr> m_mem := wr64 slot (w OR cow_flags ?pte v) mm \<rparr> = \<sigma>' \<and> \<not> bit w 63"
      using assms(1) old np unfolding cow_break_pte_def Let_def split_beta
      by (simp only: prod.inject rel_simps neg_equal_0_iff_equal simp_thms split: if_splits) blast+
    thus ?thesis by (auto simp: rd64_wr64)
  qed
  thus ?thesis using bit_cow_flags[of ?pte v] by (auto simp: bit_or_iff)
qed

text \<open>A data page that is not executable, shared by two tasks after a fork.\<close>

definition shared_page :: "unit mach" where
  "shared_page = \<lparr> m_k = zero_kstate\<lparr> k_pool := zero_pool\<lparr> pp_stack := [0x1001000], pp_refs := (\<lambda>_. 0)(0 := 2) \<rparr> \<rparr>,
     m_mem = wr64 0x4000 0x8000000001000205 (\<lambda>_. 0), m_cow_faults = 0, m_dev = () \<rparr>"

lemma shared_page_break: "\<exists>\<sigma>'. cow_break_pte 0x4000 0x410000 shared_page = (0, \<sigma>')"
  by (simp add: cow_break_pte_def shared_page_def rd64_wr64 phys_in_untyped_arena_def zero_kstate_def m_pool_def zero_pool_def
      rust_page_ref_dec_def refc_index_def rust_cow_copy_required_def alloc_user_physical_page_def set_refs_def Let_def)

theorem cow_break_private_witness:
  "\<exists>\<sigma>'. cow_break_pte 0x4000 0x410000 shared_page = (0, \<sigma>') \<and> pp_refs (m_pool \<sigma>') 0 = 1"
proof -
  have p: "m_pool shared_page = zero_pool\<lparr> pp_stack := [0x1001000], pp_refs := (\<lambda>_. 0)(0 := 2) \<rparr>" by (simp add: m_pool_def shared_page_def)
  have "0x1000 \<le> (0x4000 :: u64) + of_nat i - of_nat 0x1001000" if "i < 8" for i
  proof -
    have "i \<in> {0, 1, 2, 3, 4, 5, 6, 7}" using that by auto
    thus ?thesis by auto
  qed
  hence ap: "\<forall>i<8. 0x1000 \<le> (0x4000 :: u64) + of_nat i - of_nat 0x1001000" by blast
  have r: "rd64 (m_mem shared_page) 0x4000 = 0x8000000001000205" "\<not> phys_in_untyped_arena (m_k shared_page) (0x8000000001000205 AND PTE_ADDR_MASK)"
    by (simp_all add: shared_page_def rd64_wr64 phys_in_untyped_arena_def zero_kstate_def)
  have i: "refc_index (unat (0x8000000001000205 AND PTE_ADDR_MASK :: u64) mod 2 ^ 32) (pp_pages (m_pool shared_page)) = Some 0"
    "1 < pp_refs (m_pool shared_page) 0" "pp_stack (m_pool shared_page) = [0x1001000]"
    "pool_frame_index (m_pool shared_page) 0x1001000 \<noteq> Some 0" "pp_refs (m_pool shared_page) 0 - 1 = 1"
    by (simp_all add: p zero_pool_def refc_index_def pool_frame_index_def Let_def)
  have "0x8000000001000205 AND PAGE_SEALED = 0" "(0x1001000 :: nat) \<noteq> 0" by simp_all
  from cow_break_private[OF r(1) this(1) r(2) i(1,2,3) this(2) i(4) ap, of "0x410000"] show ?thesis unfolding i(5) by blast
qed

theorem cow_break_drops_noexec_witness:
  "bit (rd64 (m_mem shared_page) 0x4000) 63
   \<and> (\<exists>\<sigma>'. cow_break_pte 0x4000 0x410000 shared_page = (0, \<sigma>') \<and> bit (rd64 (m_mem \<sigma>') 0x4000) 1 \<and> \<not> bit (rd64 (m_mem \<sigma>') 0x4000) 63)"
proof -
  obtain \<sigma>' where r: "cow_break_pte 0x4000 0x410000 shared_page = (0, \<sigma>')" using shared_page_break ..
  have "bit (rd64 (m_mem shared_page) 0x4000) 63" by (simp add: shared_page_def rd64_wr64 bit_numeral_rec)
  thus ?thesis using cow_break_drops_noexec[OF r] r
    by (auto simp: shared_page_def m_pool_def rust_user_page_is_noexec_def)
qed

section \<open>What a copy leaves alone\<close>

text \<open>\<open>pool_only\<close>: of the kernel's state at most the page pool differs.  The swap device
  moves pages between memory and its store, so that is all it may change there.\<close>

definition off_pool :: "kstate \<Rightarrow> kstate" where
  "off_pool s = s\<lparr> k_pool := zero_pool \<rparr>"

definition pool_only :: "'d mach \<Rightarrow> 'd mach \<Rightarrow> bool" where
  "pool_only \<sigma> \<sigma>' \<longleftrightarrow> off_pool (m_k \<sigma>') = off_pool (m_k \<sigma>)"

definition swap_frame :: "'d swap_ops \<Rightarrow> bool" where
  "swap_frame sw \<longleftrightarrow> (\<forall>n \<sigma>. pool_only \<sigma> (snd (sw_evict_idle sw n \<sigma>)) \<and> pool_only \<sigma> (snd (sw_evict_self sw n \<sigma>)))
     \<and> (\<forall>pt i v \<sigma>. pool_only \<sigma> (snd (sw_fault_in sw pt i v \<sigma>)))"

lemma swap_frame_no_swap [simp]: "swap_frame no_swap"
  by (simp add: swap_frame_def no_swap_def pool_only_def)

lemma pool_only_refl [simp]: "pool_only \<sigma> \<sigma>"
  by (simp add: pool_only_def)

lemma pool_only_trans: "pool_only \<sigma> \<sigma>1 \<Longrightarrow> pool_only \<sigma>1 \<sigma>2 \<Longrightarrow> pool_only \<sigma> \<sigma>2"
  by (simp add: pool_only_def)

lemma pool_only_intro [simp]:
  "pool_only \<sigma> (\<sigma>'\<lparr> m_mem := m \<rparr>) = pool_only \<sigma> \<sigma>'"
  "pool_only \<sigma> (\<sigma>'\<lparr> m_cow_faults := c \<rparr>) = pool_only \<sigma> \<sigma>'"
  "pool_only \<sigma> (set_pool p \<sigma>') = pool_only \<sigma> \<sigma>'"
  "pool_only (\<sigma>\<lparr> m_mem := m \<rparr>) \<sigma>' = pool_only \<sigma> \<sigma>'"
  by (simp_all add: pool_only_def set_pool_def off_pool_def)

lemma off_pool_sel:
  assumes "off_pool s' = off_pool s"
  shows "k_mem s' = k_mem s" "k_next_serial s' = k_next_serial s" "k_tasks s' = k_tasks s" "k_max_tasks s' = k_max_tasks s"
    "k_cur s' = k_cur s" "k_eps s' = k_eps s" "k_notifs s' = k_notifs s" "k_dyn_eps s' = k_dyn_eps s" "k_dyn_notifs s' = k_dyn_notifs s"
  using assms by (cases s; cases s'; simp add: off_pool_def)+

lemmas pool_only_sel = off_pool_sel[OF pool_only_def[THEN iffD1]]

lemma pool_only_cur: "pool_only \<sigma> \<sigma>' \<Longrightarrow> m_cur \<sigma>' = m_cur \<sigma>"
  by (simp add: pool_only_sel m_cur_def)

lemma cow_break_pool: "pool_only \<sigma> (snd (cow_break_pte slot v \<sigma>))"
  by (simp add: cow_break_pte_def Let_def split: prod.splits)

lemma demand_table_pool: "demand_table slot \<sigma> = (rc, t, \<sigma>') \<Longrightarrow> pool_only \<sigma> \<sigma>'"
  by (auto simp: demand_table_def Let_def split: prod.splits if_splits)

lemma demand_leaf_pool: "pool_only \<sigma> (snd (demand_leaf slot v err \<sigma>))"
  using cow_break_pool[of \<sigma> slot v] by (auto simp: demand_leaf_def Let_def split: prod.splits if_splits)

lemma demand_fault_pool:
  assumes "swap_frame sw" "t_cr3 (m_cur \<sigma>) \<noteq> 0"
  shows "pool_only \<sigma> (snd (handle_demand_page_fault sw v err \<sigma>))"
proof -
  define \<sigma>0 where "\<sigma>0 = (if sw_enabled sw (m_dev \<sigma>) \<and> length (pp_stack (m_pool \<sigma>)) < SWAP_LOW_WATER
               then let (n, \<sigma>') = sw_evict_idle sw SWAP_EVICT_BATCH \<sigma>
                    in if n < SWAP_EVICT_BATCH then snd (sw_evict_self sw (SWAP_EVICT_BATCH - n) \<sigma>') else \<sigma>'
               else \<sigma>)"
  have sf: "pool_only a (snd (sw_evict_idle sw n a))" "pool_only a (snd (sw_evict_self sw n a))"
    "pool_only a (snd (sw_fault_in sw pt i w a))" for a n pt i w
    using assms(1) by (simp_all add: swap_frame_def)
  have p0: "pool_only \<sigma> \<sigma>0"
    using sf(1)[of \<sigma> SWAP_EVICT_BATCH] pool_only_trans[OF sf(1)[of \<sigma> SWAP_EVICT_BATCH] sf(2)]
    by (auto simp: \<sigma>0_def Let_def split: prod.splits)
  hence c: "t_cr3 (m_cur \<sigma>0) \<noteq> 0" using assms(2) pool_only_cur by metis
  have tab: "pool_only \<sigma> b" if "demand_table sl a = (rc, t, b)" "pool_only \<sigma> a" for sl a rc t b
    using pool_only_trans[OF that(2) demand_table_pool[OF that(1)]] .
  have fin: "pool_only \<sigma> (snd (demand_leaf sl v err a))" "pool_only \<sigma> (snd (sw_fault_in sw pt i v a))"
    if "pool_only \<sigma> a" for a sl pt i
    using pool_only_trans[OF that demand_leaf_pool] pool_only_trans[OF that sf(3)] by blast+
  show ?thesis
    unfolding handle_demand_page_fault_def Let_def[of "if _ then _ else _"] \<sigma>0_def[symmetric]
    using p0 c by (auto simp: Let_def split: prod.splits intro: fin dest: tab)
qed

lemma copy_entry_pool:
  assumes "swap_frame sw" "t_cr3 (m_cur \<sigma>) \<noteq> 0" "copy_entry sw cr3 w v \<sigma> = (rc, e, \<sigma>')"
  shows "pool_only \<sigma> \<sigma>'"
proof -
  have t: "pool_only \<sigma> (snd (handle_demand_page_fault sw v x a))" if p: "pool_only \<sigma> a" for x a
    using demand_fault_pool[OF assms(1), of a v x] pool_only_cur[OF p] assms(2) pool_only_trans[OF p] by simp
  have s: "pool_only \<sigma> a" if "handle_demand_page_fault sw v x \<sigma> = (rc, a)" for x rc a
    using t[OF pool_only_refl, of x] that by simp
  show ?thesis
    using assms(3) t s by (auto simp: copy_entry_def Let_def split: prod.splits if_splits)
qed

lemma user_copy_loop_pool:
  "swap_frame sw \<Longrightarrow> t_cr3 (m_cur \<sigma>) \<noteq> 0 \<Longrightarrow> pool_only \<sigma> (snd (snd (user_copy_loop sw cr3 v n tu w dn kbuf \<sigma>)))"
proof (induction sw cr3 v n tu w dn kbuf \<sigma> rule: user_copy_loop.induct)
  case (1 sw cr3 v n tu w dn kbuf \<sigma>)
  obtain rc e \<sigma>1 where c: "copy_entry sw cr3 w (v + of_nat dn) \<sigma> = (rc, e, \<sigma>1)" by (metis prod_cases3)
  have p: "pool_only \<sigma> \<sigma>1" using copy_entry_pool[OF "1.prems" c] .
  have k: "t_cr3 (m_cur \<sigma>1) \<noteq> 0" "t_cr3 (m_cur (\<sigma>1\<lparr> m_mem := m \<rparr>)) \<noteq> 0" for m
    using pool_only_cur[OF p] "1.prems"(2) by (simp_all add: m_cur_def)
  show ?case
    using p pool_only_trans[OF p] "1.IH"(1)[OF _ refl c[symmetric] refl refl, simplified] "1.IH"(2)[OF _ refl c[symmetric] refl refl, simplified] "1.prems"(1) k
    by (subst user_copy_loop.simps) (auto simp: Let_def c)
qed

lemma copy_pool:
  assumes "swap_frame sw"
  shows "pool_only \<sigma> (snd (snd (copy_from_user sw src n \<sigma>)))" "pool_only \<sigma> (snd (copy_to_user sw dst bs \<sigma>))"
  using user_copy_loop_pool[OF assms, of \<sigma>]
  by (auto simp: copy_from_user_def copy_to_user_def user_copy_def Let_def m_cur_def split: prod.splits) (metis snd_conv)

text \<open>A read that succeeds returns as many bytes as were asked for.\<close>

lemma read_loop_length:
  "user_copy_loop sw cr3 v n False w dn kbuf \<sigma> = (0, bs, \<sigma>') \<Longrightarrow> length bs = length kbuf + (n - dn)"
proof (induction sw cr3 v n "False" w dn kbuf \<sigma> rule: user_copy_loop.induct)
  case (1 sw cr3 v n w dn kbuf \<sigma>)
  obtain rc e \<sigma>1 where c: "copy_entry sw cr3 w (v + of_nat dn) \<sigma> = (rc, e, \<sigma>1)" by (metis prod_cases3)
  show ?case
    using "1.prems" "1.hyps"(2)[OF _ refl c[symmetric] refl refl, simplified]
    by (subst (asm) user_copy_loop.simps) (auto simp: Let_def c get_bytes_def split: if_splits)
qed

lemma copy_from_user_length: "copy_from_user sw src n \<sigma> = (0, bs, \<sigma>') \<Longrightarrow> length bs = n"
  using read_loop_length by (fastforce simp: copy_from_user_def user_copy_def Let_def split: if_splits)

end
