(* ===== verification/Ipc.thy ===== *)
theory Ipc
  imports Cap_Ops User_Mem
begin

text \<open>
  Inter-process communication (\<^verbatim>\<open>src/kernel/syscall_ipc.c\<close>): endpoints as bounded
  queues, the send that completes a blocked receiver directly or queues, the receives,
  the call with its private reply endpoint, the one-shot reply capability, and
  notifications.  Handlers take the registers of the caller and return \<open>rax\<close> (and
  \<open>rbx\<close> where they set it); the interrupt frame a blocked task was saved in is part
  of its control block.  A task that blocks only records the intent; the switch away
  from it publishes the block (\<open>ipc_publish_pending_block\<close>).  Each section under
  \<open>ipc_lock\<close> is one step; the loop of the blocking receive, which takes the lock twice a round, is
  given what happens whenever the lock is free as an argument.

  The lemmas show that a queue delivers its messages once, in order and with the bytes
  and the sender they were sent with; that a reply right is spent by any answer and
  reaches only the incarnation of the task it names; that badges are neither lost nor
  delivered twice; and that the waiter an endpoint or a notification names is never left
  asleep while there is something for it.
\<close>

section \<open>Registers and small updates\<close>

record regs =
  r_rbx :: u64
  r_rcx :: u64
  r_rdx :: u64
  r_rsi :: u64
  r_rdi :: u64
  r_r8 :: u64

text \<open>The casts of the C code: \<open>(uint32_t)e\<close> widened, an \<open>int\<close> sign-extended, the low
  word of a register as a slot, and a size read as an \<open>int\<close>.\<close>

definition rax32 :: "int \<Rightarrow> u64" where
  "rax32 e = ucast (of_int e :: u32)"

definition rax64 :: "int \<Rightarrow> u64" where
  "rax64 e = of_int e"

definition low_slot :: "u64 \<Rightarrow> nat" where
  "low_slot r = unat (ucast r :: u32)"

definition int_of_size :: "u64 \<Rightarrow> int" where
  "int_of_size r = sint (ucast r :: u32)"

definition upd_k :: "(kstate \<Rightarrow> kstate) \<Rightarrow> 'd mach \<Rightarrow> 'd mach" where
  "upd_k f \<sigma> = \<sigma>\<lparr> m_k := f (m_k \<sigma>) \<rparr>"

definition upd_ep :: "nat \<Rightarrow> (endpoint \<Rightarrow> endpoint) \<Rightarrow> kstate \<Rightarrow> kstate" where
  "upd_ep i f s = s\<lparr> k_eps := (k_eps s)(i := f (k_eps s i)) \<rparr>"

definition upd_notif :: "nat \<Rightarrow> (notification \<Rightarrow> notification) \<Rightarrow> kstate \<Rightarrow> kstate" where
  "upd_notif i f s = s\<lparr> k_notifs := (k_notifs s)(i := f (k_notifs s i)) \<rparr>"

definition make_runnable :: "tcb \<Rightarrow> tcb" where
  "make_runnable t = t\<lparr> t_state := TASK_RUNNABLE, t_runnable_ctx := True \<rparr>"

text \<open>A copy into the memory of task \<open>w\<close> while it is impersonated.\<close>

definition copy_to_task :: "'d swap_ops \<Rightarrow> nat \<Rightarrow> u64 \<Rightarrow> u8 list \<Rightarrow> 'd mach \<Rightarrow> 'd mach" where
  "copy_to_task sw w dst bs \<sigma> =
    (let real = k_cur (m_k \<sigma>); (_, \<sigma>1) = copy_to_user sw dst bs (upd_k (\<lambda>s. s\<lparr> k_cur := w \<rparr>) \<sigma>)
     in upd_k (\<lambda>s. s\<lparr> k_cur := real \<rparr>) \<sigma>1)"

section \<open>The endpoint queue\<close>

definition ep_full :: "endpoint \<Rightarrow> bool" where
  "ep_full e \<longleftrightarrow> ep_count e \<ge> EP_QUEUE_SLOTS"

definition ep_empty :: "endpoint \<Rightarrow> bool" where
  "ep_empty e \<longleftrightarrow> ep_count e = 0"

definition slot_gen_of :: "kstate \<Rightarrow> int \<Rightarrow> u64" where
  "slot_gen_of s sender = (if sender > 0 \<and> sender < int (k_max_tasks s) then t_slot_gen (k_tasks s (nat sender)) else 0)"

definition ep_enqueue :: "kstate \<Rightarrow> u8 list \<Rightarrow> int \<Rightarrow> int \<Rightarrow> ipc_invoker option \<Rightarrow> endpoint \<Rightarrow> endpoint" where
  "ep_enqueue s src len sender iv e =
    (let slot = (ep_head e + ep_count e) mod EP_QUEUE_SLOTS;
         l = (if len < 0 then 0 else if len > int IPC_MSG_MAX then int IPC_MSG_MAX else len);
         m = ep_q e ! slot;
         m' = \<lparr> em_len = l, em_sender = sender, em_sender_gen = slot_gen_of s sender,
                em_inv = (case iv of Some i \<Rightarrow> i | None \<Rightarrow> zero_invoker),
                em_data = take (nat l) src @ drop (nat l) (em_data m) \<rparr>
     in e\<lparr> ep_q := (ep_q e)[slot := m'], ep_count := ep_count e + 1 \<rparr>)"

text \<open>The length returned, the bytes, the sender, its generation and its invoker record.\<close>

definition ep_dequeue :: "int \<Rightarrow> endpoint \<Rightarrow> int \<times> u8 list \<times> int \<times> u64 \<times> ipc_invoker \<times> endpoint" where
  "ep_dequeue mx e =
    (let m = ep_q e ! ep_head e;
         l0 = (if em_len m < 0 then 0 else em_len m);
         l = (if l0 > mx then mx else l0);
         clean = \<lparr> em_len = 0, em_sender = -1, em_sender_gen = 0, em_inv = zero_invoker, em_data = replicate IPC_MSG_MAX 0 \<rparr>
     in (l, take (nat l) (em_data m), em_sender m, em_sender_gen m, em_inv m,
         e\<lparr> ep_q := (ep_q e)[ep_head e := clean], ep_head := (ep_head e + 1) mod EP_QUEUE_SLOTS, ep_count := ep_count e - 1 \<rparr>))"

section \<open>From a slot to the object\<close>

definition ipc_ep_from_slot :: "kstate \<Rightarrow> nat \<Rightarrow> u32 \<Rightarrow> nat option" where
  "ipc_ep_from_slot s slot need_rights =
    (case cap_lookup_ipc_object s slot CAP_ENDPOINT need_rights (of_nat EP_INDEX_MAX) of
       None \<Rightarrow> None | Some ep \<Rightarrow> endpoint_by_index s (unat ep))"

definition ipc_notif_from_slot :: "kstate \<Rightarrow> nat \<Rightarrow> u32 \<Rightarrow> nat option" where
  "ipc_notif_from_slot s slot need_rights =
    (case cap_lookup_ipc_object s slot CAP_NOTIFICATION need_rights (of_nat NOTIF_INDEX_MAX) of
       None \<Rightarrow> None | Some n \<Rightarrow> notification_by_index s (unat n))"

definition ipc_ep_and_invoker :: "kstate \<Rightarrow> nat \<Rightarrow> u32 \<Rightarrow> (nat \<times> ipc_invoker \<times> u64) option" where
  "ipc_ep_and_invoker s slot need_rights =
    (case cap_lookup s slot CAP_ENDPOINT need_rights of
       None \<Rightarrow> None
     | Some a \<Rightarrow>
         let c = k_mem s a in
         if c_object c \<ge> of_nat EP_INDEX_MAX then None
         else case endpoint_by_index s (unat (c_object c)) of
           None \<Rightarrow> None
         | Some ep \<Rightarrow> Some (ep, zero_invoker\<lparr> iv_token := c_token c, iv_rights := c_rights c \<rparr>, c_serial c))"

definition reply_ep_for_task :: "int \<Rightarrow> int" where
  "reply_ep_for_task tid =
    (if tid \<le> 0 \<or> tid \<ge> 256 then -1
     else if int REPLY_EP_BASE + tid \<ge> int MAX_ENDPOINTS then -1 else int REPLY_EP_BASE + tid)"

section \<open>Publishing and withdrawing a block\<close>

definition cancel_block :: "nat \<Rightarrow> kstate \<Rightarrow> kstate" where
  "cancel_block cur = upd_task cur (\<lambda>t. (make_runnable t)\<lparr> t_pending_block := 0, t_ipc_recv_block := False \<rparr>)"

definition publish_ipc :: "'d swap_ops \<Rightarrow> nat \<Rightarrow> 'd mach \<Rightarrow> bool \<times> 'd mach" where
  "publish_ipc sw cur \<sigma> =
    (let s = m_k \<sigma>; t = k_tasks s cur in
     case (if t_blocked_on t < 0 then None else endpoint_by_index s (nat (t_blocked_on t))) of
       None \<Rightarrow> (False, upd_k (cancel_block cur) \<sigma>)
     | Some i \<Rightarrow>
         if \<not> ep_empty (k_eps s i)
         then let recv_wait = t_ipc_recv_block t;
                  cap_len = (if recv_wait then int_of_size (of_nat (t_ipc_recv_max t)) else int IPC_MSG_MAX);
                  (len, kbuf, sender, sender_gen, iv, e) = ep_dequeue cap_len (k_eps s i);
                  \<sigma>1 = upd_k (\<lambda>s. upd_task cur (\<lambda>t. t\<lparr> t_pending_block := 0 \<rparr>) (upd_ep i (\<lambda>_. e) s)) \<sigma>;
                  \<sigma>2 = (if len > 0 \<and> t_ipc_reply_buf t \<noteq> 0 then snd (copy_to_user sw (t_ipc_reply_buf t) kbuf \<sigma>1) else \<sigma>1);
                  \<sigma>3 = upd_k (upd_ep i (\<lambda>e. e\<lparr> ep_last_sender := sender, ep_last_sender_gen := sender_gen, ep_last_invoker := iv \<rparr>)) \<sigma>2;
                  \<sigma>4 = upd_k (upd_task cur (\<lambda>t. t\<lparr> t_frame_rax := rax32 len \<rparr>)) \<sigma>3;
                  \<sigma>5 = (if recv_wait \<and> sender > 0 \<and> sender < int (k_max_tasks s)
                        then upd_k (\<lambda>s. snd (cap_install_reply_for (int cur) sender sender_gen s)) \<sigma>4 else \<sigma>4)
              in (False, upd_k (upd_task cur (\<lambda>t. (make_runnable t)\<lparr> t_blocked_on := -1, t_ipc_recv_block := False \<rparr>)) \<sigma>5)
         else (True, upd_k (\<lambda>s. upd_task cur (\<lambda>t. t\<lparr> t_pending_block := 0, t_state := TASK_BLOCKED_IPC, t_runnable_ctx := False \<rparr>)
                                  (upd_ep i (\<lambda>e. e\<lparr> ep_blocked_waiter := int cur \<rparr>) s)) \<sigma>))"

definition publish_wait :: "nat \<Rightarrow> kstate \<Rightarrow> bool \<times> kstate" where
  "publish_wait cur s =
    (let t = k_tasks s cur; tid = t_blocked_on t in
     if tid < 0 \<or> tid \<ge> int (k_max_tasks s) \<or> t_state (k_tasks s (nat tid)) = TASK_DEAD
        \<or> t_slot_gen (k_tasks s (nat tid)) \<noteq> t_blocked_on_gen t
     then (False, upd_task cur (\<lambda>t. (make_runnable t)\<lparr> t_pending_block := 0, t_frame_rax := 0, t_blocked_on := -1 \<rparr>) s)
     else (True, upd_task cur (\<lambda>t. t\<lparr> t_pending_block := 0, t_state := TASK_BLOCKED_WAIT, t_runnable_ctx := False \<rparr>)
                   (upd_task (nat tid) (\<lambda>t. t\<lparr> t_waiter := int cur \<rparr>) s)))"

definition publish_notif :: "nat \<Rightarrow> kstate \<Rightarrow> bool \<times> kstate" where
  "publish_notif cur s =
    (let t = k_tasks s cur in
     case (if t_blocked_on_notif t < 0 then None else notification_by_index s (nat (t_blocked_on_notif t))) of
       None \<Rightarrow> (False, cancel_block cur s)
     | Some i \<Rightarrow>
         let b = nt_pending_badge (k_notifs s i) in
         if b \<noteq> 0
         then (False, upd_task cur (\<lambda>t. (make_runnable t)\<lparr> t_pending_block := 0, t_frame_rax := 0, t_frame_rbx := ucast b \<rparr>)
                        (upd_notif i (\<lambda>n. n\<lparr> nt_pending_badge := 0 \<rparr>) s))
         else (True, upd_task cur (\<lambda>t. t\<lparr> t_pending_block := 0, t_state := TASK_BLOCKED_NOTIF, t_runnable_ctx := False \<rparr>)
                       (upd_notif i (\<lambda>n. n\<lparr> nt_blocked_waiter := int cur \<rparr>) s)))"

definition ipc_publish_pending_block :: "'d swap_ops \<Rightarrow> int \<Rightarrow> 'd mach \<Rightarrow> bool \<times> 'd mach" where
  "ipc_publish_pending_block sw pid \<sigma> =
    (let s = m_k \<sigma>; cur = nat pid; t = k_tasks s cur in
     if pid \<le> 0 \<or> pid \<ge> int (k_max_tasks s) then (False, \<sigma>)
     else if t_pending_block t = 0 then (False, \<sigma>)
     else if t_saved_ksp t = 0 then (False, upd_k (cancel_block cur) \<sigma>)
     else if t_pending_block t = TASK_BLOCKED_IPC then publish_ipc sw cur \<sigma>
     else if t_pending_block t = TASK_BLOCKED_WAIT then (let (b, s') = publish_wait cur s in (b, \<sigma>\<lparr> m_k := s' \<rparr>))
     else if t_pending_block t = TASK_BLOCKED_NOTIF then (let (b, s') = publish_notif cur s in (b, \<sigma>\<lparr> m_k := s' \<rparr>))
     else (False, upd_k (upd_task cur (\<lambda>t. (make_runnable t)\<lparr> t_pending_block := 0 \<rparr>)) \<sigma>))"

definition ipc_unpublish_block :: "int \<Rightarrow> kstate \<Rightarrow> kstate" where
  "ipc_unpublish_block pid s =
    (if pid \<le> 0 \<or> pid \<ge> int (k_max_tasks s) then s
     else let cur = nat pid; t = k_tasks s cur;
              s1 = (if t_state t = TASK_BLOCKED_IPC
                    then upd_task cur (\<lambda>t. t\<lparr> t_blocked_on := -1, t_ipc_recv_block := False \<rparr>)
                      (case (if t_blocked_on t < 0 then None else endpoint_by_index s (nat (t_blocked_on t))) of
                         None \<Rightarrow> s
                       | Some i \<Rightarrow> if ep_blocked_waiter (k_eps s i) = pid then upd_ep i (\<lambda>e. e\<lparr> ep_blocked_waiter := -1 \<rparr>) s else s)
                    else if t_state t = TASK_BLOCKED_WAIT
                    then upd_task cur (\<lambda>t. t\<lparr> t_blocked_on := -1 \<rparr>)
                      (if t_blocked_on t \<ge> 0 \<and> t_blocked_on t < int (k_max_tasks s) \<and> t_waiter (k_tasks s (nat (t_blocked_on t))) = pid
                       then upd_task (nat (t_blocked_on t)) (\<lambda>t. t\<lparr> t_waiter := -1 \<rparr>) s else s)
                    else if t_state t = TASK_BLOCKED_NOTIF
                    then (case (if t_blocked_on_notif t < 0 then None else notification_by_index s (nat (t_blocked_on_notif t))) of
                            None \<Rightarrow> s
                          | Some i \<Rightarrow> if nt_blocked_waiter (k_notifs s i) = pid
                                      then upd_notif i (\<lambda>n. n\<lparr> nt_blocked_waiter := -1 \<rparr>) s else s)
                    else s)
          in upd_task cur make_runnable s1)"

section \<open>Send and receive\<close>

text \<open>A send checks its caller's slot 3 before it takes the lock and again under it;
  \<open>auth\<close> is the snapshot of the first check.\<close>

definition auth_stale :: "kstate \<Rightarrow> cap_snapshot \<Rightarrow> u32 \<Rightarrow> bool" where
  "auth_stale s auth rights \<longleftrightarrow> cs_valid auth \<and> cap_revalidate s 3 rights (Some auth) = None"

definition auth_snapshot :: "kstate \<Rightarrow> u32 \<Rightarrow> cap_snapshot" where
  "auth_snapshot s rights = take_snapshot (map_option (k_mem s) (cap_lookup s 3 CAP_ANYTYPE rights))"

text \<open>The message from the caller's memory: \<open>None\<close> when the copy faults.\<close>

definition fetch_msg :: "'d swap_ops \<Rightarrow> u64 \<Rightarrow> nat \<Rightarrow> 'd mach \<Rightarrow> u8 list option \<times> 'd mach" where
  "fetch_msg sw msg len \<sigma> =
    (if len > 0 then let (rc, bs, \<sigma>1) = copy_from_user sw msg len \<sigma> in (if rc \<noteq> 0 then None else Some bs, \<sigma>1)
     else (Some [], \<sigma>))"

definition deliver_to :: "'d swap_ops \<Rightarrow> nat \<Rightarrow> u8 list \<Rightarrow> 'd mach \<Rightarrow> 'd mach" where
  "deliver_to sw w kbuf \<sigma> =
    (let buf = t_ipc_reply_buf (k_tasks (m_k \<sigma>) w) in
     if kbuf \<noteq> [] \<and> buf \<noteq> 0 then copy_to_task sw w buf kbuf \<sigma> else \<sigma>)"

text \<open>The direct hand-over to the blocked task \<open>w\<close> on endpoint \<open>i\<close>.\<close>

definition send_waiter :: "'d swap_ops \<Rightarrow> nat \<Rightarrow> nat \<Rightarrow> u64 \<Rightarrow> nat \<Rightarrow> ipc_invoker option \<Rightarrow> 'd mach \<Rightarrow> int \<times> 'd mach" where
  "send_waiter sw i w msg len0 iv \<sigma> =
    (let t = k_tasks (m_k \<sigma>) w; recv_wait = t_ipc_recv_block t;
         len = (if recv_wait \<and> len0 > t_ipc_recv_max t then t_ipc_recv_max t else len0);
         (m, \<sigma>1) = fetch_msg sw msg len \<sigma>
     in case m of
          None \<Rightarrow> (-1, \<sigma>1)
        | Some kbuf \<Rightarrow>
            let \<sigma>2 = deliver_to sw w kbuf \<sigma>1 in
            if t_saved_ksp (k_tasks (m_k \<sigma>2) w) = 0 then (-1, \<sigma>2)
            else let \<sigma>3 = upd_k (upd_task w (\<lambda>t. t\<lparr> t_frame_rax := rax32 (int (length kbuf)) \<rparr>)) \<sigma>2;
                     me = k_cur (m_k \<sigma>3); gen = t_slot_gen (k_tasks (m_k \<sigma>3) me);
                     (ok, \<sigma>4) =
                       (if recv_wait
                        then let s4 = upd_task w (\<lambda>t. t\<lparr> t_ipc_recv_block := False \<rparr>)
                                        (upd_ep i (\<lambda>e. e\<lparr> ep_last_sender := int me, ep_last_sender_gen := gen,
                                                          ep_last_invoker := (case iv of Some v \<Rightarrow> v | None \<Rightarrow> zero_invoker) \<rparr>) (m_k \<sigma>3));
                                 (ok, s5) = cap_install_reply_for (int w) (int me) gen s4
                             in (ok, \<sigma>3\<lparr> m_k := s5 \<rparr>)
                        else (True, \<sigma>3))
                 in if \<not> ok then (-1, \<sigma>4)
                    else (0, upd_k (\<lambda>s. upd_task w (\<lambda>t. (make_runnable t)\<lparr> t_blocked_on := -1 \<rparr>)
                                          (upd_ep i (\<lambda>e. e\<lparr> ep_blocked_waiter := -1 \<rparr>) s)) \<sigma>4))"

text \<open>The part of \<open>sys_ipc_send\<close> under the lock, and the whole.\<close>

definition ipc_send_locked ::
  "'d swap_ops \<Rightarrow> cap_snapshot \<Rightarrow> nat \<Rightarrow> u64 \<Rightarrow> nat \<Rightarrow> ipc_invoker option \<Rightarrow> 'd mach \<Rightarrow> int \<times> 'd mach" where
  "ipc_send_locked sw auth i msg len iv \<sigma> =
    (let s = m_k \<sigma>; e = k_eps s i; w = ep_blocked_waiter e in
     if w > 0 \<and> w < int (k_max_tasks s) \<and> t_state (k_tasks s (nat w)) = TASK_BLOCKED_IPC \<and> ep_empty e
     then if auth_stale s auth CAP_RIGHT_WRITE then (-1, \<sigma>) else send_waiter sw i (nat w) msg len iv \<sigma>
     else if ep_full e then (-2, \<sigma>)
     else if auth_stale s auth CAP_RIGHT_WRITE then (-1, \<sigma>)
     else case fetch_msg sw msg len \<sigma> of
       (None, \<sigma>1) \<Rightarrow> (-1, \<sigma>1)
     | (Some kbuf, \<sigma>1) \<Rightarrow> (0, upd_k (\<lambda>s. upd_ep i (ep_enqueue s kbuf (int len) (int (k_cur s)) iv) s) \<sigma>1))"

definition sys_ipc_send :: "'d swap_ops \<Rightarrow> nat \<Rightarrow> u64 \<Rightarrow> u64 \<Rightarrow> ipc_invoker option \<Rightarrow> 'd mach \<Rightarrow> int \<times> 'd mach" where
  "sys_ipc_send sw ep msg len iv \<sigma> =
    (case endpoint_by_index (m_k \<sigma>) ep of
       None \<Rightarrow> (-1, \<sigma>)
     | Some i \<Rightarrow> ipc_send_locked sw (auth_snapshot (m_k \<sigma>) CAP_RIGHT_WRITE) i msg
                   (if unat len > IPC_MSG_MAX then IPC_MSG_MAX else unat len) iv \<sigma>)"

definition ipc_recv_locked :: "'d swap_ops \<Rightarrow> cap_snapshot \<Rightarrow> nat \<Rightarrow> u64 \<Rightarrow> u64 \<Rightarrow> 'd mach \<Rightarrow> int \<times> 'd mach" where
  "ipc_recv_locked sw auth i msg max_len \<sigma> =
    (let s = m_k \<sigma>; e = k_eps s i in
     if ep_empty e then (-2, \<sigma>)
     else if auth_stale s auth CAP_RIGHT_READ then (-1, \<sigma>)
     else let (len, kbuf, sender, sender_gen, iv, e') = ep_dequeue (int_of_size max_len) e;
              \<sigma>1 = upd_k (upd_ep i (\<lambda>_. e')) \<sigma>;
              (rc, \<sigma>2) = (if len > 0 then copy_to_user sw msg kbuf \<sigma>1 else (0, \<sigma>1))
          in if rc \<noteq> 0 then (-1, \<sigma>2)
             else let \<sigma>3 = upd_k (upd_ep i (\<lambda>e. e\<lparr> ep_last_sender := sender, ep_last_sender_gen := sender_gen, ep_last_invoker := iv \<rparr>)) \<sigma>2
                  in (len, if sender > 0 \<and> sender < int (k_max_tasks (m_k \<sigma>3))
                           then upd_k (\<lambda>s. snd (cap_install_object CAPSLOT_REPLY CAP_REPLY (reply_object (nat sender) sender_gen)
                                                  CAP_RIGHT_WRITE 0 s)) \<sigma>3
                           else \<sigma>3))"

definition sys_ipc_recv :: "'d swap_ops \<Rightarrow> nat \<Rightarrow> u64 \<Rightarrow> u64 \<Rightarrow> 'd mach \<Rightarrow> int \<times> 'd mach" where
  "sys_ipc_recv sw ep msg max_len \<sigma> =
    (case endpoint_by_index (m_k \<sigma>) ep of
       None \<Rightarrow> (-1, \<sigma>)
     | Some i \<Rightarrow> ipc_recv_locked sw (auth_snapshot (m_k \<sigma>) CAP_RIGHT_READ) i msg max_len \<sigma>)"

definition sys_ipc_reply :: "'d swap_ops \<Rightarrow> nat \<Rightarrow> u64 \<Rightarrow> u64 \<Rightarrow> 'd mach \<Rightarrow> int \<times> 'd mach" where
  "sys_ipc_reply sw ep msg len = sys_ipc_send sw ep msg len None"

section \<open>Notifications\<close>

definition sys_notify :: "nat \<Rightarrow> u32 \<Rightarrow> kstate \<Rightarrow> int \<times> kstate" where
  "sys_notify notif_slot badge s =
    (case notification_by_index s notif_slot of
       None \<Rightarrow> (-1, s)
     | Some i \<Rightarrow>
         let n = k_notifs s i; b = nt_pending_badge n OR badge; w = nt_blocked_waiter n in
         if w > 0 \<and> w < int (k_max_tasks s) \<and> t_state (k_tasks s (nat w)) = TASK_BLOCKED_NOTIF
         then (0, upd_task (nat w) (\<lambda>t. make_runnable (if t_saved_ksp t \<noteq> 0 then t\<lparr> t_frame_rax := 0, t_frame_rbx := ucast b \<rparr> else t))
                    (upd_notif i (\<lambda>n. n\<lparr> nt_pending_badge := 0, nt_blocked_waiter := -1 \<rparr>) s))
         else (0, upd_notif i (\<lambda>n. n\<lparr> nt_pending_badge := b \<rparr>) s))"

definition sys_wait_notify :: "nat \<Rightarrow> kstate \<Rightarrow> int \<times> u32 \<times> kstate" where
  "sys_wait_notify notif_slot s =
    (case notification_by_index s notif_slot of
       None \<Rightarrow> (-1, 0, s)
     | Some i \<Rightarrow>
         let b = nt_pending_badge (k_notifs s i) in
         if b \<noteq> 0 then (0, b, upd_notif i (\<lambda>n. n\<lparr> nt_pending_badge := 0 \<rparr>) s)
         else (0, 0, upd_task (k_cur s) (\<lambda>t. t\<lparr> t_blocked_on_notif := int notif_slot, t_pending_block := TASK_BLOCKED_NOTIF \<rparr>) s))"

abbreviation (input) IPC_AGAIN :: int where "IPC_AGAIN \<equiv> - 2"

definition sys_poll_notify :: "nat \<Rightarrow> kstate \<Rightarrow> int \<times> u32 \<times> kstate" where
  "sys_poll_notify notif_slot s =
    (case notification_by_index s notif_slot of
       None \<Rightarrow> (-1, 0, s)
     | Some i \<Rightarrow>
         let b = nt_pending_badge (k_notifs s i) in
         if b \<noteq> 0 then (0, b, upd_notif i (\<lambda>n. n\<lparr> nt_pending_badge := 0 \<rparr>) s) else (IPC_AGAIN, 0, s))"

section \<open>The system calls\<close>

definition h_poll_notify :: "regs \<Rightarrow> kstate \<Rightarrow> u64 \<times> u64 \<times> kstate" where
  "h_poll_notify r s =
    (case ipc_notif_from_slot s (low_slot (r_rbx r)) CAP_RIGHT_READ of
       None \<Rightarrow> (rax32 SYS_ERR_PERM, 0, s)
     | Some ns \<Rightarrow> let (rc, b, s') = sys_poll_notify ns s in (rax32 rc, ucast b, s'))"

definition h_notify :: "regs \<Rightarrow> kstate \<Rightarrow> u64 \<times> kstate" where
  "h_notify r s =
    (case ipc_notif_from_slot s (low_slot (r_rbx r)) CAP_RIGHT_WRITE of
       None \<Rightarrow> (rax32 SYS_ERR_PERM, s)
     | Some ns \<Rightarrow> let (rc, s') = sys_notify ns (ucast (r_rcx r)) s in (rax64 rc, s'))"

definition h_wait_notify :: "regs \<Rightarrow> kstate \<Rightarrow> u64 \<times> u64 \<times> kstate" where
  "h_wait_notify r s =
    (case ipc_notif_from_slot s (low_slot (r_rbx r)) CAP_RIGHT_READ of
       None \<Rightarrow> (rax32 SYS_ERR_PERM, 0, s)
     | Some ns \<Rightarrow> let (rc, b, s') = sys_wait_notify ns s in (rax64 rc, ucast b, s'))"

definition h_ipc_send :: "'d swap_ops \<Rightarrow> regs \<Rightarrow> 'd mach \<Rightarrow> u64 \<times> 'd mach" where
  "h_ipc_send sw r \<sigma> =
    (case ipc_ep_and_invoker (m_k \<sigma>) (low_slot (r_rbx r)) CAP_RIGHT_WRITE of
       None \<Rightarrow> (rax32 SYS_ERR_PERM, \<sigma>)
     | Some (ep, iv, _) \<Rightarrow> let (rc, \<sigma>') = sys_ipc_send sw ep (r_rcx r) (r_rdx r) (Some iv) \<sigma> in (rax64 rc, \<sigma>'))"

definition h_ipc_recv :: "'d swap_ops \<Rightarrow> regs \<Rightarrow> 'd mach \<Rightarrow> u64 \<times> 'd mach" where
  "h_ipc_recv sw r \<sigma> =
    (case ipc_ep_from_slot (m_k \<sigma>) (low_slot (r_rbx r)) CAP_RIGHT_READ of
       None \<Rightarrow> (rax32 SYS_ERR_PERM, \<sigma>)
     | Some ep \<Rightarrow> let (rc, \<sigma>') = sys_ipc_recv sw ep (r_rcx r) (r_rdx r) \<sigma> in (rax64 rc, \<sigma>'))"

definition h_ipc_reply :: "'d swap_ops \<Rightarrow> regs \<Rightarrow> 'd mach \<Rightarrow> u64 \<times> 'd mach" where
  "h_ipc_reply sw r \<sigma> =
    (case ipc_ep_from_slot (m_k \<sigma>) (low_slot (r_rbx r)) CAP_RIGHT_WRITE of
       None \<Rightarrow> (rax32 SYS_ERR_PERM, \<sigma>)
     | Some ep \<Rightarrow> let (rc, \<sigma>') = sys_ipc_reply sw ep (r_rcx r) (r_rdx r) \<sigma> in (rax64 rc, \<sigma>'))"

definition ipc_call_common ::
  "'d swap_ops \<Rightarrow> nat \<Rightarrow> u64 \<Rightarrow> u64 \<Rightarrow> u64 \<Rightarrow> nat \<Rightarrow> nat \<Rightarrow> 'd mach \<Rightarrow> u64 \<times> 'd mach" where
  "ipc_call_common sw send_slot msg send_len reply_buf recv_slot carry_slot \<sigma> =
    (let s = m_k \<sigma>; cur = k_cur s in
     case ipc_ep_and_invoker s send_slot CAP_RIGHT_WRITE of
       None \<Rightarrow> (rax32 SYS_ERR_PERM, \<sigma>)
     | Some (send_ep, iv0, send_serial) \<Rightarrow>
         case (if carry_slot = IPC_NO_CAP then Some iv0
               else case ipc_ep_and_invoker s carry_slot 0 of
                      None \<Rightarrow> None
                    | Some (carry_ep, cinv, _) \<Rightarrow>
                        if carry_ep \<noteq> send_ep then None
                        else Some (iv0\<lparr> iv_carried := 1, iv_carry_token := iv_token cinv, iv_carry_rights := iv_rights cinv \<rparr>)) of
           None \<Rightarrow> (rax32 SYS_ERR_PERM, \<sigma>)
         | Some iv \<Rightarrow>
             if recv_slot \<noteq> IPC_NO_CAP
                \<and> (recv_slot < KERNEL_RESERVED_CAPS \<or> recv_slot \<ge> get_sz s cur \<or> recv_slot = CAPSLOT_REPLY)
             then (rax32 SYS_ERR_INVAL, \<sigma>)
             else let rep = reply_ep_for_task (int cur) in
               if rep < 0 then (rax32 (-1), \<sigma>)
               else let \<sigma>1 = upd_k (upd_task cur (\<lambda>t. t\<lparr> t_ipc_cap_recv_slot := recv_slot, t_ipc_inv_slot := send_slot,
                                 t_ipc_inv_serial := send_serial, t_ipc_reply_buf := reply_buf, t_blocked_on := rep,
                                 t_pending_block := TASK_BLOCKED_IPC \<rparr>)) \<sigma>;
                        (rc, \<sigma>2) = sys_ipc_send sw send_ep msg send_len (Some iv) \<sigma>1
                    in if rc < 0
                       then (rax32 rc, upd_k (upd_task cur (\<lambda>t. t\<lparr> t_pending_block := 0, t_blocked_on := -1, t_ipc_reply_buf := 0,
                                                               t_ipc_cap_recv_slot := IPC_NO_CAP \<rparr>)) \<sigma>2)
                       else (0, \<sigma>2))"

definition h_ipc_call :: "'d swap_ops \<Rightarrow> regs \<Rightarrow> 'd mach \<Rightarrow> u64 \<times> 'd mach" where
  "h_ipc_call sw r = ipc_call_common sw (low_slot (r_rbx r)) (r_rdx r) (r_rsi r) (r_rdi r) IPC_NO_CAP IPC_NO_CAP"

definition h_ipc_call_cap :: "'d swap_ops \<Rightarrow> regs \<Rightarrow> 'd mach \<Rightarrow> u64 \<times> 'd mach" where
  "h_ipc_call_cap sw r = ipc_call_common sw (low_slot (r_rbx r)) (r_rdx r) (r_rsi r) (r_rdi r) (low_slot (r_rcx r)) (low_slot (r_r8 r))"

text \<open>The blocking receive.  The endpoint lock is free whenever the loop is about to take
  it: \<open>env n\<close> is what the other processors do before the \<open>n\<close>-th time it is taken, first for the
  test of the queue, then again in \<open>sys_ipc_recv\<close>.  The loop starts over whenever the receive
  answers -2, so it runs on \<open>fuel\<close>.\<close>

definition recv_block_commit :: "nat \<Rightarrow> nat \<Rightarrow> regs \<Rightarrow> 'd mach \<Rightarrow> 'd mach" where
  "recv_block_commit cur ep r =
    upd_k (upd_task cur (\<lambda>t. t\<lparr> t_ipc_reply_buf := r_rcx r, t_ipc_recv_max := low_slot (r_rdx r), t_ipc_recv_block := True,
                                t_blocked_on := int ep, t_pending_block := TASK_BLOCKED_IPC \<rparr>))"

fun recv_block_loop ::
  "nat \<Rightarrow> (nat \<Rightarrow> 'd mach \<Rightarrow> 'd mach) \<Rightarrow> 'd swap_ops \<Rightarrow> nat \<Rightarrow> nat \<Rightarrow> regs \<Rightarrow> 'd mach \<Rightarrow> (u64 \<times> 'd mach) option" where
  "recv_block_loop 0 env sw cur ep r \<sigma> = None"
| "recv_block_loop (Suc fuel) env sw cur ep r \<sigma> =
    (let \<sigma>0 = env 0 \<sigma> in
     if \<not> ep_empty (k_eps (m_k \<sigma>0) ep)
     then let (rc, \<sigma>2) = sys_ipc_recv sw ep (r_rcx r) (r_rdx r) (env 1 \<sigma>0)
          in if rc = -2 then recv_block_loop fuel (\<lambda>n. env (n + 2)) sw cur ep r \<sigma>2 else Some (rax32 rc, \<sigma>2)
     else Some (0, recv_block_commit cur ep r \<sigma>0))"

definition h_ipc_recv_block ::
  "nat \<Rightarrow> (nat \<Rightarrow> 'd mach \<Rightarrow> 'd mach) \<Rightarrow> 'd swap_ops \<Rightarrow> regs \<Rightarrow> 'd mach \<Rightarrow> (u64 \<times> 'd mach) option" where
  "h_ipc_recv_block fuel env sw r \<sigma> =
    (let s = m_k \<sigma>; cur = k_cur s in
     case ipc_ep_from_slot s (low_slot (r_rbx r)) CAP_RIGHT_READ of
       None \<Rightarrow> Some (rax32 SYS_ERR_PERM, \<sigma>)
     | Some ep \<Rightarrow>
         if cur = 0 \<or> cur \<ge> k_max_tasks s then Some (rax32 (-1), \<sigma>) else recv_block_loop fuel env sw cur ep r \<sigma>)"

text \<open>Little-endian bytes of a word, for the records the kernel copies out.\<close>

definition bytes32 :: "u32 \<Rightarrow> u8 list" where
  "bytes32 w = map (\<lambda>i. ucast (drop_bit (8 * i) w)) [0..<4]"

definition bytes64 :: "u64 \<Rightarrow> u8 list" where
  "bytes64 w = map (\<lambda>i. ucast (drop_bit (8 * i) w)) [0..<8]"

definition h_ipc_sender :: "'d swap_ops \<Rightarrow> regs \<Rightarrow> 'd mach \<Rightarrow> u64 \<times> 'd mach" where
  "h_ipc_sender sw r \<sigma> =
    (let s = m_k \<sigma> in
     case ipc_ep_from_slot s (low_slot (r_rbx r)) CAP_RIGHT_READ of
       None \<Rightarrow> (rax32 (-1), \<sigma>)
     | Some ep \<Rightarrow>
         let t = ep_last_sender (k_eps s ep) in
         if t \<le> 0 \<or> t \<ge> int (k_max_tasks s) \<or> t_state (k_tasks s (nat t)) = 0 then (rax32 (-1), \<sigma>)
         else if t_slot_gen (k_tasks s (nat t)) \<noteq> ep_last_sender_gen (k_eps s ep) then (rax32 (-1), \<sigma>)
         else let (rc, \<sigma>1) = (if r_rcx r \<noteq> 0 then copy_to_user sw (r_rcx r) (bytes32 (t_gid (k_tasks s (nat t)))) \<sigma> else (0, \<sigma>)) in
           if rc \<noteq> 0 then (rax32 (-1), \<sigma>1)
           else let (rc2, \<sigma>2) = (if r_rdx r \<noteq> 0 then copy_to_user sw (r_rdx r) (bytes32 (of_int t)) \<sigma>1 else (0, \<sigma>1)) in
             if rc2 \<noteq> 0 then (rax32 (-1), \<sigma>2)
             else (ucast (t_uid (k_tasks s (nat t))), \<sigma>2))"

text \<open>\<open>struct ipc_invoker\<close> in memory; its last word is reserved and zero.\<close>

definition invoker_bytes :: "ipc_invoker \<Rightarrow> u8 list" where
  "invoker_bytes iv = bytes64 (iv_token iv) @ bytes32 (iv_rights iv) @ bytes32 (iv_carried iv) @ bytes64 (iv_carry_token iv)
     @ bytes32 (iv_carry_rights iv) @ [0, 0, 0, 0]"

definition h_ipc_invoker :: "'d swap_ops \<Rightarrow> regs \<Rightarrow> 'd mach \<Rightarrow> u64 \<times> 'd mach" where
  "h_ipc_invoker sw r \<sigma> =
    (case ipc_ep_from_slot (m_k \<sigma>) (low_slot (r_rbx r)) CAP_RIGHT_READ of
       None \<Rightarrow> (rax32 SYS_ERR_PERM, \<sigma>)
     | Some ep \<Rightarrow>
         let (rc, \<sigma>1) = copy_to_user sw (r_rcx r) (invoker_bytes (ep_last_invoker (k_eps (m_k \<sigma>) ep))) \<sigma>
         in if rc \<noteq> 0 then (rax32 SYS_ERR_FAULT, \<sigma>1) else (0, \<sigma>1))"

section \<open>The one-shot reply\<close>

definition consume_reply :: "kstate \<Rightarrow> kstate" where
  "consume_reply s = snd (cap_consume_slot CAPSLOT_REPLY s)"

text \<open>The wake-up of the caller \<open>t\<close> once its answer is in its buffer.\<close>

definition wake_caller :: "nat \<Rightarrow> kstate \<Rightarrow> kstate" where
  "wake_caller t s =
    (let rep = t_blocked_on (k_tasks s t);
         s1 = (case (if rep < 0 then None else endpoint_by_index s (nat rep)) of
                 None \<Rightarrow> s
               | Some i \<Rightarrow> if ep_blocked_waiter (k_eps s i) = int t then upd_ep i (\<lambda>e. e\<lparr> ep_blocked_waiter := -1 \<rparr>) s else s)
     in upd_task t (\<lambda>x. (make_runnable x)\<lparr> t_blocked_on := -1 \<rparr>) s1)"

definition ipc_reply_common :: "'d swap_ops \<Rightarrow> regs \<Rightarrow> bool \<Rightarrow> u32 \<Rightarrow> u64 \<Rightarrow> 'd mach \<Rightarrow> u64 \<times> 'd mach" where
  "ipc_reply_common sw r mint mint_rights mint_token \<sigma> =
    (let s = m_k \<sigma>; len = (if unat (r_rdx r) > IPC_MSG_MAX then IPC_MSG_MAX else unat (r_rdx r)) in
     case ipc_ep_from_slot s (low_slot (r_rbx r)) CAP_RIGHT_READ of
       None \<Rightarrow> (rax32 SYS_ERR_PERM, \<sigma>)
     | Some req_ep \<Rightarrow>
         case cap_lookup s CAPSLOT_REPLY CAP_REPLY CAP_RIGHT_WRITE of
           None \<Rightarrow> (rax32 SYS_ERR_PERM, \<sigma>)
         | Some a \<Rightarrow>
             let t = unat (c_object (k_mem s a) AND 0xFFFF); t_gen = drop_bit 16 (c_object (k_mem s a)); x = k_tasks s t in
             if t = 0 \<or> t \<ge> k_max_tasks s \<or> t_state x = TASK_DEAD \<or> t_slot_gen x \<noteq> t_gen
             then (0, upd_k consume_reply \<sigma>)
             else if t_state x \<noteq> TASK_BLOCKED_IPC \<or> t_ipc_recv_block x
             then if t_pending_block x = TASK_BLOCKED_IPC \<and> \<not> t_ipc_recv_block x then (rax32 IPC_AGAIN, \<sigma>)
                  else (0, upd_k consume_reply \<sigma>)
             else case fetch_msg sw (r_rcx r) len \<sigma> of
               (None, \<sigma>1) \<Rightarrow> (rax32 (-1), \<sigma>1)
             | (Some kbuf, \<sigma>1) \<Rightarrow>
                 let y = k_tasks (m_k \<sigma>1) t;
                     (ok, s2) = (if \<not> mint then (True, m_k \<sigma>1)
                                 else if t_ipc_cap_recv_slot y = IPC_NO_CAP then (False, m_k \<sigma>1)
                                 else cap_reply_mint_into (int t) (t_ipc_inv_slot y) (t_ipc_inv_serial y) req_ep
                                        (t_ipc_cap_recv_slot y) mint_rights mint_token (m_k \<sigma>1))
                 in if \<not> ok then (rax32 SYS_ERR_PERM, \<sigma>1\<lparr> m_k := s2 \<rparr>)
                    else let \<sigma>3 = deliver_to sw t kbuf (\<sigma>1\<lparr> m_k := s2 \<rparr>) in
                      if t_saved_ksp (k_tasks (m_k \<sigma>3) t) = 0 then (rax32 (-1), \<sigma>3)
                      else (0, upd_k (\<lambda>s. consume_reply (wake_caller t
                                            (upd_task t (\<lambda>x. x\<lparr> t_frame_rax := rax32 (int (length kbuf)) \<rparr>) s))) \<sigma>3))"

definition h_ipc_reply_to :: "'d swap_ops \<Rightarrow> regs \<Rightarrow> 'd mach \<Rightarrow> u64 \<times> 'd mach" where
  "h_ipc_reply_to sw r = ipc_reply_common sw r False 0 0"

definition h_ipc_reply_cap :: "'d swap_ops \<Rightarrow> regs \<Rightarrow> 'd mach \<Rightarrow> u64 \<times> 'd mach" where
  "h_ipc_reply_cap sw r = ipc_reply_common sw r True (ucast (r_rsi r)) (r_rdi r)"

section \<open>Bounded queues\<close>

text \<open>What a client of a bounded queue relies on: under the invariant a queue is a list of at
  most \<open>cap\<close> messages, a put that is not refused appends one and a take removes the first.\<close>

datatype ('p, 'a) qop = Put 'p | Take 'a
datatype 'o qout = Done | Refused | Got 'o | Nothing

locale bounded_queue =
  fixes wf :: "'q \<Rightarrow> bool" and abs :: "'q \<Rightarrow> 'm list" and cap :: nat
    and full :: "'q \<Rightarrow> bool" and empty :: "'q \<Rightarrow> bool"
    and ok :: "'p \<Rightarrow> bool" and msg :: "'p \<Rightarrow> 'm" and enq :: "'p \<Rightarrow> 'q \<Rightarrow> 'q"
    and out :: "'a \<Rightarrow> 'm \<Rightarrow> 'o" and deq :: "'a \<Rightarrow> 'q \<Rightarrow> 'o \<times> 'q"
  assumes full_iff: "wf q \<Longrightarrow> full q \<longleftrightarrow> cap \<le> length (abs q)"
    and empty_iff: "wf q \<Longrightarrow> empty q \<longleftrightarrow> abs q = []"
    and enq_wf: "wf q \<Longrightarrow> \<not> full q \<Longrightarrow> ok p \<Longrightarrow> wf (enq p q)"
    and enq_abs: "wf q \<Longrightarrow> \<not> full q \<Longrightarrow> ok p \<Longrightarrow> abs (enq p q) = abs q @ [msg p]"
    and deq_out: "wf q \<Longrightarrow> \<not> empty q \<Longrightarrow> fst (deq a q) = out a (hd (abs q))"
    and deq_wf: "wf q \<Longrightarrow> \<not> empty q \<Longrightarrow> wf (snd (deq a q))"
    and deq_abs: "wf q \<Longrightarrow> \<not> empty q \<Longrightarrow> abs (snd (deq a q)) = tl (abs q)"
begin

fun qrun :: "('p, 'a) qop list \<Rightarrow> 'q \<Rightarrow> 'o qout list \<times> 'q" where
  "qrun [] q = ([], q)"
| "qrun (Put p # ops) q = (if full q then let (rs, q') = qrun ops q in (Refused # rs, q')
                           else let (rs, q') = qrun ops (enq p q) in (Done # rs, q'))"
| "qrun (Take a # ops) q = (if empty q then let (rs, q') = qrun ops q in (Nothing # rs, q')
                            else let (x, q1) = deq a q; (rs, q') = qrun ops q1 in (Got x # rs, q'))"

fun lrun :: "('p, 'a) qop list \<Rightarrow> 'm list \<Rightarrow> 'o qout list \<times> 'm list" where
  "lrun [] l = ([], l)"
| "lrun (Put p # ops) l = (if cap \<le> length l then let (rs, l') = lrun ops l in (Refused # rs, l')
                           else let (rs, l') = lrun ops (l @ [msg p]) in (Done # rs, l'))"
| "lrun (Take a # ops) l = (case l of [] \<Rightarrow> let (rs, l') = lrun ops [] in (Nothing # rs, l')
                            | m # ms \<Rightarrow> let (rs, l') = lrun ops ms in (Got (out a m) # rs, l'))"

lemma qrun_refines:
  "wf q \<Longrightarrow> list_all (\<lambda>x. case x of Put p \<Rightarrow> ok p | Take _ \<Rightarrow> True) ops
    \<Longrightarrow> wf (snd (qrun ops q)) \<and> lrun ops (abs q) = (fst (qrun ops q), abs (snd (qrun ops q)))"
proof (induction ops arbitrary: q)
  case (Cons x ops)
  show ?case
  proof (cases x)
    case (Put p)
    thus ?thesis
      using Cons.IH[of q] Cons.IH[of "enq p q"] Cons.prems full_iff[of q] enq_wf[of q p] enq_abs[of q p] by (auto simp: case_prod_beta Let_def)
  next
    case (Take a)
    show ?thesis
    proof (cases "empty q")
      case True
      thus ?thesis using Cons.IH[of q] Cons.prems Take empty_iff[of q] by (auto simp: case_prod_beta Let_def)
    next
      case False
      then obtain m ms where m: "abs q = m # ms" using Cons.prems empty_iff by (cases "abs q") auto
      thus ?thesis using Cons.IH[of "snd (deq a q)"] Cons.prems False Take deq_out[of q a] deq_wf[of q a] deq_abs[of q a]
        by (auto simp: case_prod_beta Let_def)
    qed
  qed
qed simp

end

section \<open>The endpoint queue is one\<close>

text \<open>A message as the receiver sees it: its bytes, its sender, the sender's incarnation and the
  capability it came through.\<close>

type_synonym message = "u8 list \<times> int \<times> u64 \<times> ipc_invoker"

definition msg_of :: "ep_msg \<Rightarrow> message" where
  "msg_of m = (take (nat (em_len m)) (em_data m), em_sender m, em_sender_gen m, em_inv m)"

definition ep_wf :: "endpoint \<Rightarrow> bool" where
  "ep_wf e \<longleftrightarrow> length (ep_q e) = EP_QUEUE_SLOTS \<and> ep_head e < EP_QUEUE_SLOTS \<and> ep_count e \<le> EP_QUEUE_SLOTS
     \<and> list_all (\<lambda>m. length (em_data m) = IPC_MSG_MAX \<and> 0 \<le> em_len m \<and> em_len m \<le> int IPC_MSG_MAX) (ep_q e)"

definition ep_msgs :: "endpoint \<Rightarrow> message list" where
  "ep_msgs e = map (\<lambda>k. msg_of (ep_q e ! ((ep_head e + k) mod EP_QUEUE_SLOTS))) [0..<ep_count e]"

text \<open>What is put: the bytes, the sender and the invoker, in a state that knows the sender's
  incarnation.\<close>

type_synonym put = "kstate \<times> u8 list \<times> int \<times> ipc_invoker option"

definition put_ok :: "put \<Rightarrow> bool" where
  "put_ok p = (case p of (s, bs, sd, iv) \<Rightarrow> length bs \<le> IPC_MSG_MAX)"

definition put_msg :: "put \<Rightarrow> message" where
  "put_msg p = (case p of (s, bs, sd, iv) \<Rightarrow> (bs, sd, slot_gen_of s sd, case iv of Some i \<Rightarrow> i | None \<Rightarrow> zero_invoker))"

definition put_enq :: "put \<Rightarrow> endpoint \<Rightarrow> endpoint" where
  "put_enq p e = (case p of (s, bs, sd, iv) \<Rightarrow> ep_enqueue s bs (int (length bs)) sd iv e)"

text \<open>What is taken: at most \<open>mx\<close> bytes, with the length returned.\<close>

definition take_out :: "nat \<Rightarrow> message \<Rightarrow> int \<times> message" where
  "take_out mx m = (case m of (bs, sd, g, iv) \<Rightarrow> (int (length (take mx bs)), take mx bs, sd, g, iv))"

definition take_deq :: "nat \<Rightarrow> endpoint \<Rightarrow> (int \<times> message) \<times> endpoint" where
  "take_deq mx e = (case ep_dequeue (int mx) e of (l, bs, sd, g, iv, e') \<Rightarrow> ((l, bs, sd, g, iv), e'))"

lemma ep_slot_distinct:
  assumes "k < n" "n < (4 :: nat)"
  shows "(h + n) mod 4 \<noteq> (h + k) mod 4"
proof
  assume "(h + n) mod 4 = (h + k) mod 4"
  hence "4 dvd (h + n) - (h + k)" using assms by (metis mod_eq_dvd_iff_nat add_le_cancel_left less_imp_le)
  thus False using assms by (auto dest: dvd_imp_le)
qed

lemma enqueue_msgs:
  assumes "ep_wf e" "ep_count e < EP_QUEUE_SLOTS" "length bs \<le> IPC_MSG_MAX"
  shows "ep_wf (ep_enqueue s bs (int (length bs)) sd iv e)"
    "ep_msgs (ep_enqueue s bs (int (length bs)) sd iv e)
      = ep_msgs e @ [(bs, sd, slot_gen_of s sd, case iv of Some i \<Rightarrow> i | None \<Rightarrow> zero_invoker)]"
proof -
  have l: "length (ep_q e) = 4" "length (em_data (ep_q e ! j)) = IPC_MSG_MAX" if "j < 4" for j
    using assms(1) that by (auto simp: ep_wf_def list_all_length)
  show "ep_wf (ep_enqueue s bs (int (length bs)) sd iv e)"
    using assms l(2) by (auto simp: ep_wf_def ep_enqueue_def Let_def list_all_length nth_list_update)
  show "ep_msgs (ep_enqueue s bs (int (length bs)) sd iv e)
      = ep_msgs e @ [(bs, sd, slot_gen_of s sd, case iv of Some i \<Rightarrow> i | None \<Rightarrow> zero_invoker)]"
    using assms(2,3) l(1) ep_slot_distinct[of _ "ep_count e" "ep_head e"]
    by (auto simp: ep_msgs_def ep_enqueue_def Let_def msg_of_def)
qed

lemma dequeue_msgs:
  assumes "ep_wf e" "ep_count e > 0"
  shows "ep_wf (snd (take_deq mx e))" "ep_msgs (snd (take_deq mx e)) = tl (ep_msgs e)" "fst (take_deq mx e) = take_out mx (hd (ep_msgs e))"
proof -
  have w: "ep_head e < 4" "length (ep_q e) = 4" "0 \<le> em_len (ep_q e ! ep_head e)" "em_len (ep_q e ! ep_head e) \<le> int IPC_MSG_MAX"
    "length (em_data (ep_q e ! ep_head e)) = IPC_MSG_MAX"
    using assms by (auto simp: ep_wf_def list_all_length)
  show "ep_wf (snd (take_deq mx e))"
    using assms by (auto simp: ep_wf_def take_deq_def ep_dequeue_def Let_def list_all_length nth_list_update)
  obtain n where n: "ep_count e = Suc n" "n < 4" using assms by (cases "ep_count e") (auto simp: ep_wf_def)
  have u: "[0..<Suc n] = 0 # map Suc [0..<n]" by (simp add: upt_conv_Cons map_Suc_upt)
  show "fst (take_deq mx e) = take_out mx (hd (ep_msgs e))"
    using w n(1) unfolding ep_msgs_def n(1) u by (auto simp: take_deq_def ep_dequeue_def take_out_def msg_of_def Let_def min_def)
  have "ep_head e \<noteq> (ep_head e + Suc k) mod 4" if "k < n" for k
    using ep_slot_distinct[of 0 "Suc k" "ep_head e"] that n(2) w(1) by simp
  moreover have "(Suc (ep_head e) mod 4 + k) mod 4 = Suc (ep_head e + k) mod 4" for k by (metis add_Suc mod_add_left_eq)
  ultimately show "ep_msgs (snd (take_deq mx e)) = tl (ep_msgs e)"
    using w unfolding ep_msgs_def n(1) u by (auto simp: take_deq_def ep_dequeue_def Let_def n(1))
qed

interpretation ep_queue: bounded_queue ep_wf ep_msgs EP_QUEUE_SLOTS ep_full ep_empty put_ok put_msg put_enq take_out take_deq
proof
  fix e :: endpoint and p :: put and mx
  show "ep_wf e \<Longrightarrow> ep_full e \<longleftrightarrow> EP_QUEUE_SLOTS \<le> length (ep_msgs e)" by (simp add: ep_full_def ep_msgs_def)
  show "ep_wf e \<Longrightarrow> ep_empty e \<longleftrightarrow> ep_msgs e = []" by (simp add: ep_empty_def ep_msgs_def)
  show "ep_wf e \<Longrightarrow> \<not> ep_full e \<Longrightarrow> put_ok p \<Longrightarrow> ep_wf (put_enq p e)"
    using enqueue_msgs(1) by (auto simp: put_ok_def put_enq_def ep_full_def not_le split: prod.splits)
  show "ep_wf e \<Longrightarrow> \<not> ep_full e \<Longrightarrow> put_ok p \<Longrightarrow> ep_msgs (put_enq p e) = ep_msgs e @ [put_msg p]"
    using enqueue_msgs(2) by (auto simp: put_ok_def put_enq_def put_msg_def ep_full_def not_le split: prod.splits)
qed (use dequeue_msgs in \<open>auto simp: ep_empty_def\<close>)

text \<open>C16. An endpoint is a bounded first-in first-out queue.  Over any sequence of enqueues of
  messages that fit and dequeues with any buffer sizes, tested as send and receive test them, the
  endpoint answers as a list of at most four messages does: each message comes out once, in
  order, with the bytes sent up to the buffer's size, its sender, the incarnation of the sender
  when it sent, and the capability it was sent through.\<close>

theorem endpoint_is_bounded_fifo:
  assumes "ep_wf e" "list_all (\<lambda>x. case x of Put p \<Rightarrow> put_ok p | Take _ \<Rightarrow> True) ops"
  shows "ep_wf (snd (ep_queue.qrun ops e))
    \<and> ep_queue.lrun ops (ep_msgs e) = (fst (ep_queue.qrun ops e), ep_msgs (snd (ep_queue.qrun ops e)))"
  using ep_queue.qrun_refines[OF assms] .

theorem endpoint_is_bounded_fifo_witness:
  "fst (ep_queue.qrun [Put (zero_kstate, [1, 2], 1, None), Put (zero_kstate, [3], 2, None), Take 1, Take 9, Take 9] zero_endpoint)
     = [Done, Done, Got (1, [1], 1, 0, zero_invoker), Got (1, [3], 2, 0, zero_invoker), Nothing]"
proof -
  let ?ops = "[Put (zero_kstate, [1, 2], 1, None), Put (zero_kstate, [3], 2, None), Take 1, Take 9, Take 9] :: (put, nat) qop list"
  have "ep_wf zero_endpoint" "list_all (\<lambda>x. case x of Put p \<Rightarrow> put_ok p | Take _ \<Rightarrow> True) ?ops"
    by (simp_all add: ep_wf_def zero_endpoint_def zero_msg_def put_ok_def list_all_iff)
  from endpoint_is_bounded_fifo[OF this] have "ep_queue.lrun ?ops (ep_msgs zero_endpoint) = (fst (ep_queue.qrun ?ops zero_endpoint), ep_msgs (snd (ep_queue.qrun ?ops zero_endpoint)))" by blast
  moreover have "ep_queue.lrun ?ops (ep_msgs zero_endpoint)
      = ([Done, Done, Got (1, [1], 1, 0, zero_invoker), Got (1, [3], 2, 0, zero_invoker), Nothing], [])"
    by (simp add: ep_msgs_def zero_endpoint_def put_msg_def take_out_def slot_gen_of_def zero_kstate_def zero_tcb_def)
  ultimately show ?thesis by simp
qed

end
