(* ===== verification/Ipc_Wait.thy ===== *)
theory Ipc_Wait
  imports Ipc
begin

text \<open>
  Sleeping and waking over the endpoints and notifications of \<open>Ipc\<close>.  The operations are
  put together as a step relation over all tasks; the invariant says that a task
  asleep on an endpoint has a saved frame, is the waiter the endpoint names unless another task
  went to sleep there after it, and that where it is the waiter the queue is empty,
  and likewise for a notification, so that the next send or notification wakes it.  The kernel
  keeps one waiter per object, so the exception is real: a later sleeper takes the place of an
  earlier one.  Besides, the reply right works once and reaches only its caller, the blocking receive
  returns, and what a queued message says of its sender is what the kernel knows.
\<close>

section \<open>What the parts of an operation leave alone\<close>

text \<open>The state the invariant reads: a task's control block up to its capability count.\<close>

definition ipcv :: "kstate \<Rightarrow> (nat \<Rightarrow> endpoint) \<times> (nat \<Rightarrow> notification) \<times> (nat \<Rightarrow> tcb) \<times> nat \<times> nat \<times> (nat \<Rightarrow> nat option) \<times> (nat \<Rightarrow> nat option)" where
  "ipcv s = (k_eps s, k_notifs s, \<lambda>t. (k_tasks s t)\<lparr> t_inuse := 0 \<rparr>, k_max_tasks s, k_cur s, endpoint_by_index s, notification_by_index s)"

lemma ipcv_sel:
  assumes "ipcv s' = ipcv s"
  shows "k_eps s' = k_eps s" "k_notifs s' = k_notifs s" "k_max_tasks s' = k_max_tasks s" "k_cur s' = k_cur s"
    "endpoint_by_index s' = endpoint_by_index s" "notification_by_index s' = notification_by_index s"
  using assms by (simp_all add: ipcv_def)

lemma ipcv_tcb:
  assumes "ipcv s' = ipcv s"
  shows "t_state (k_tasks s' t) = t_state (k_tasks s t)" "t_blocked_on (k_tasks s' t) = t_blocked_on (k_tasks s t)"
    "t_blocked_on_notif (k_tasks s' t) = t_blocked_on_notif (k_tasks s t)"
    "t_saved_ksp (k_tasks s' t) = t_saved_ksp (k_tasks s t)" "t_ipc_recv_block (k_tasks s' t) = t_ipc_recv_block (k_tasks s t)"
    "t_slot_gen (k_tasks s' t) = t_slot_gen (k_tasks s t)" "t_frame_rax (k_tasks s' t) = t_frame_rax (k_tasks s t)"
proof -
  have "(k_tasks s' t)\<lparr> t_inuse := 0 \<rparr> = (k_tasks s t)\<lparr> t_inuse := 0 \<rparr>" using assms by (auto simp: ipcv_def fun_eq_iff)
  thus "t_state (k_tasks s' t) = t_state (k_tasks s t)" "t_blocked_on (k_tasks s' t) = t_blocked_on (k_tasks s t)"
    "t_blocked_on_notif (k_tasks s' t) = t_blocked_on_notif (k_tasks s t)"
    "t_saved_ksp (k_tasks s' t) = t_saved_ksp (k_tasks s t)" "t_ipc_recv_block (k_tasks s' t) = t_ipc_recv_block (k_tasks s t)"
    "t_slot_gen (k_tasks s' t) = t_slot_gen (k_tasks s t)" "t_frame_rax (k_tasks s' t) = t_frame_rax (k_tasks s t)"
    by (cases "k_tasks s' t", cases "k_tasks s t", simp)+
qed

named_theorems ipc_frames

lemma by_index_upd [simp]:
  "endpoint_by_index (upd_task t f s) = endpoint_by_index s" "notification_by_index (upd_task t f s) = notification_by_index s"
  "endpoint_by_index (upd_ep i g s) = endpoint_by_index s" "notification_by_index (upd_ep i g s) = notification_by_index s"
  "endpoint_by_index (upd_notif i h s) = endpoint_by_index s" "notification_by_index (upd_notif i h s) = notification_by_index s"
  by (simp_all add: fun_eq_iff endpoint_by_index_def notification_by_index_def upd_task_def upd_ep_def upd_notif_def)

lemma upd_ep_sel [simp]:
  "k_eps (upd_ep i g s) = (k_eps s)(i := g (k_eps s i))" "k_notifs (upd_ep i g s) = k_notifs s" "k_tasks (upd_ep i g s) = k_tasks s"
  "k_max_tasks (upd_ep i g s) = k_max_tasks s" "k_cur (upd_ep i g s) = k_cur s" "k_mem (upd_ep i g s) = k_mem s"
  "k_eps (upd_notif j h s) = k_eps s" "k_notifs (upd_notif j h s) = (k_notifs s)(j := h (k_notifs s j))"
  "k_tasks (upd_notif j h s) = k_tasks s" "k_max_tasks (upd_notif j h s) = k_max_tasks s" "k_cur (upd_notif j h s) = k_cur s"
  "k_eps (upd_task t f s) = k_eps s" "k_notifs (upd_task t f s) = k_notifs s"
  "k_next_serial (upd_ep i g s) = k_next_serial s" "k_next_serial (upd_notif j h s) = k_next_serial s" "k_mem (upd_notif j h s) = k_mem s"
  by (simp_all add: upd_ep_def upd_notif_def upd_task_def)

lemma ipcv_set_cap [simp]:
  "ipcv (set_cap a c s) = ipcv s" "ipcv (inc_inuse t s) = ipcv s" "ipcv (dec_inuse_of t s) = ipcv s"
  "ipcv (s\<lparr> k_next_serial := n \<rparr>) = ipcv s" "ipcv (s\<lparr> k_mem := m \<rparr>) = ipcv s" "ipcv (s\<lparr> k_mem := m, k_next_serial := n \<rparr>) = ipcv s"
  by (auto simp: ipcv_def set_cap_def inc_inuse_def dec_inuse_of_def upd_task_def fun_eq_iff endpoint_by_index_def notification_by_index_def)

lemma ipcv_place [simp]: "ipcv (place_cap t cs slot c s) = ipcv s" "ipcv (drop_cap t cs slot s) = ipcv s"
  by (simp_all add: place_cap_def drop_cap_def Let_def)

lemma ipcv_serial: "cap_alloc_fresh_serial s = (n, s1) \<Longrightarrow> ipcv s1 = ipcv s"
  by (auto simp: cap_alloc_fresh_serial_def Let_def split: prod.splits option.splits)

lemma ipcv_install_reply [ipc_frames]: "ipcv (snd (cap_install_reply_for pid sd gen s)) = ipcv s"
  using ipcv_serial[of s] by (auto simp: cap_install_reply_for_def Let_def split: prod.splits option.splits)

lemma ipcv_install_object [ipc_frames]: "ipcv (snd (cap_install_object slot CAP_REPLY obj rights b s)) = ipcv s"
  using ipcv_serial[of s]
  by (auto simp: cap_install_object_def kobj_note_named_def Let_def split: prod.splits option.splits)

lemma ipcv_consume [ipc_frames]: "ipcv (snd (cap_consume_slot slot s)) = ipcv s" "ipcv (consume_reply s) = ipcv s"
  by (auto simp: cap_consume_slot_def consume_reply_def Let_def split: option.splits)

lemma ipcv_reply_mint [ipc_frames]: "ipcv (snd (cap_reply_mint_into pid a b c d e f s)) = ipcv s"
  by (auto simp: cap_reply_mint_into_def put_rust_def Let_def split: option.splits prod.splits)

lemma ipcv_pool: "pool_only \<sigma> \<sigma>' \<Longrightarrow> ipcv (m_k \<sigma>') = ipcv (m_k \<sigma>)"
  by (simp add: ipcv_def pool_only_sel fun_eq_iff endpoint_by_index_def notification_by_index_def)

lemma ipcv_copy_to [ipc_frames]: "swap_frame sw \<Longrightarrow> ipcv (m_k (snd (copy_to_user sw dst bs \<sigma>))) = ipcv (m_k \<sigma>)"
  by (rule ipcv_pool) (rule copy_pool)

lemma ipcv_fetch [ipc_frames]: "swap_frame sw \<Longrightarrow> ipcv (m_k (snd (fetch_msg sw msg len \<sigma>))) = ipcv (m_k \<sigma>)"
  using ipcv_pool[OF copy_pool(1)[of sw \<sigma> msg len]] by (auto simp: fetch_msg_def Let_def split: prod.splits)

lemma ipcv_cur: "ipcv (s\<lparr> k_cur := c \<rparr>) = (case ipcv s of (a, b, t, m, _, e, n) \<Rightarrow> (a, b, t, m, c, e, n))"
  by (simp add: ipcv_def fun_eq_iff endpoint_by_index_def notification_by_index_def)

lemma ipcv_deliver [ipc_frames]:
  assumes "swap_frame sw"
  shows "ipcv (m_k (deliver_to sw w kbuf \<sigma>)) = ipcv (m_k \<sigma>)"
proof -
  have "ipcv (m_k (copy_to_task sw w dst kbuf \<sigma>)) = ipcv (m_k \<sigma>)" for dst
    using ipcv_copy_to[OF assms, of dst kbuf "upd_k (\<lambda>s. s\<lparr> k_cur := w \<rparr>) \<sigma>"]
    by (auto simp: copy_to_task_def Let_def upd_k_def ipcv_cur split: prod.splits) (auto simp: ipcv_def)
  thus ?thesis by (simp add: deliver_to_def Let_def)
qed

section \<open>The invariant of sleepers\<close>

definition ep_sleeper :: "kstate \<Rightarrow> nat \<Rightarrow> nat \<Rightarrow> bool" where
  "ep_sleeper s t i \<longleftrightarrow> 0 < t \<and> t < k_max_tasks s \<and> t_state (k_tasks s t) = TASK_BLOCKED_IPC \<and> t_blocked_on (k_tasks s t) = int i"

definition notif_sleeper :: "kstate \<Rightarrow> nat \<Rightarrow> nat \<Rightarrow> bool" where
  "notif_sleeper s t i \<longleftrightarrow> 0 < t \<and> t < k_max_tasks s \<and> t_state (k_tasks s t) = TASK_BLOCKED_NOTIF \<and> t_blocked_on_notif (k_tasks s t) = int i"

text \<open>Every sleeper has a saved frame; unless it is one of the tasks \<open>D\<close> it is the waiter its
  object names, and where the object names it the object holds nothing for it.\<close>

definition wait_inv :: "nat set \<Rightarrow> kstate \<Rightarrow> bool" where
  "wait_inv D s \<longleftrightarrow>
     (\<forall>t i. ep_sleeper s t i \<longrightarrow> t_saved_ksp (k_tasks s t) \<noteq> 0 \<and> (t \<in> D \<or> ep_blocked_waiter (k_eps s i) = int t)
        \<and> (ep_blocked_waiter (k_eps s i) = int t \<longrightarrow> ep_empty (k_eps s i)))
   \<and> (\<forall>t i. notif_sleeper s t i \<longrightarrow> t_saved_ksp (k_tasks s t) \<noteq> 0 \<and> (t \<in> D \<or> nt_blocked_waiter (k_notifs s i) = int t)
        \<and> (nt_blocked_waiter (k_notifs s i) = int t \<longrightarrow> nt_pending_badge (k_notifs s i) = 0))"

lemma wait_invD:
  assumes "wait_inv D s"
  shows "ep_sleeper s t i \<Longrightarrow> t_saved_ksp (k_tasks s t) \<noteq> 0 \<and> (t \<in> D \<or> ep_blocked_waiter (k_eps s i) = int t)
        \<and> (ep_blocked_waiter (k_eps s i) = int t \<longrightarrow> ep_empty (k_eps s i))"
    "notif_sleeper s t i \<Longrightarrow> t_saved_ksp (k_tasks s t) \<noteq> 0 \<and> (t \<in> D \<or> nt_blocked_waiter (k_notifs s i) = int t)
        \<and> (nt_blocked_waiter (k_notifs s i) = int t \<longrightarrow> nt_pending_badge (k_notifs s i) = 0)"
  using assms unfolding wait_inv_def by blast+

lemma sleeper_view:
  assumes "ipcv s' = ipcv s"
  shows "ep_sleeper s' = ep_sleeper s" "notif_sleeper s' = notif_sleeper s"
  by (simp_all add: fun_eq_iff ep_sleeper_def notif_sleeper_def ipcv_sel[OF assms] ipcv_tcb[OF assms])

lemma wait_inv_view:
  assumes "ipcv s' = ipcv s"
  shows "wait_inv D s' = wait_inv D s"
  by (simp add: wait_inv_def sleeper_view[OF assms] ipcv_sel[OF assms] ipcv_tcb[OF assms])

lemma wait_inv_task_kept:
  assumes "wait_inv D s" "t_state (f (k_tasks s t)) = t_state (k_tasks s t)" "t_blocked_on (f (k_tasks s t)) = t_blocked_on (k_tasks s t)"
    "t_blocked_on_notif (f (k_tasks s t)) = t_blocked_on_notif (k_tasks s t)" "t_saved_ksp (f (k_tasks s t)) = t_saved_ksp (k_tasks s t)"
  shows "wait_inv D (upd_task t f s)"
proof -
  have "ep_sleeper (upd_task t f s) u i = ep_sleeper s u i" "notif_sleeper (upd_task t f s) u i = notif_sleeper s u i"
    "t_saved_ksp (k_tasks (upd_task t f s) u) = t_saved_ksp (k_tasks s u)" for u i
    using assms(2-5) by (auto simp: ep_sleeper_def notif_sleeper_def)
  thus ?thesis using assms(1) by (simp add: wait_inv_def del: upd_task_sel)
qed

lemma wait_inv_task_awake:
  assumes "wait_inv D s" "t_state (f (k_tasks s t)) \<noteq> TASK_BLOCKED_IPC" "t_state (f (k_tasks s t)) \<noteq> TASK_BLOCKED_NOTIF"
  shows "wait_inv D (upd_task t f s)"
proof -
  have "ep_sleeper (upd_task t f s) u i \<Longrightarrow> u \<noteq> t \<and> ep_sleeper s u i" "notif_sleeper (upd_task t f s) u i \<Longrightarrow> u \<noteq> t \<and> notif_sleeper s u i" for u i
    using assms(2,3) by (auto simp: ep_sleeper_def notif_sleeper_def split: if_splits)
  thus ?thesis using assms(1) unfolding wait_inv_def by fastforce
qed

lemma sleeper_upd [simp]:
  "ep_sleeper (upd_ep i g s) = ep_sleeper s" "notif_sleeper (upd_ep i g s) = notif_sleeper s"
  "ep_sleeper (upd_notif i h s) = ep_sleeper s" "notif_sleeper (upd_notif i h s) = notif_sleeper s"
  by (simp_all add: fun_eq_iff ep_sleeper_def notif_sleeper_def)

lemma wait_inv_ep_kept:
  assumes "wait_inv D s" "ep_blocked_waiter (g (k_eps s i)) = ep_blocked_waiter (k_eps s i)" "ep_empty (k_eps s i) \<Longrightarrow> ep_empty (g (k_eps s i))"
  shows "wait_inv D (upd_ep i g s)"
  using assms by (auto simp: wait_inv_def)

text \<open>An object that names no sleeper may be filled, as long as it names none afterwards.\<close>

lemma wait_inv_ep_free:
  assumes "wait_inv D s" "\<And>t. ep_sleeper s t i \<Longrightarrow> ep_blocked_waiter (k_eps s i) \<noteq> int t"
    "ep_blocked_waiter (g (k_eps s i)) \<in> {ep_blocked_waiter (k_eps s i), -1}"
  shows "wait_inv D (upd_ep i g s)"
proof -
  have "ep_blocked_waiter (g (k_eps s i)) \<noteq> int t \<and> t \<in> D" if "ep_sleeper s t i" for t
    using assms(1) assms(2)[OF that] assms(3) that by (auto simp: wait_inv_def)
  thus ?thesis using assms(1) by (auto simp: wait_inv_def)
qed

lemma wait_inv_notif_free:
  assumes "wait_inv D s" "\<And>t. notif_sleeper s t i \<Longrightarrow> nt_blocked_waiter (k_notifs s i) \<noteq> int t"
    "nt_blocked_waiter (h (k_notifs s i)) \<in> {nt_blocked_waiter (k_notifs s i), -1}"
  shows "wait_inv D (upd_notif i h s)"
proof -
  have "nt_blocked_waiter (h (k_notifs s i)) \<noteq> int t \<and> t \<in> D" if "notif_sleeper s t i" for t
    using assms(1) assms(2)[OF that] assms(3) that by (auto simp: wait_inv_def)
  thus ?thesis using assms(1) by (auto simp: wait_inv_def)
qed

lemma upd_commute:
  "upd_task t f (upd_ep i g s) = upd_ep i g (upd_task t f s)" "upd_task t f (upd_notif i h s) = upd_notif i h (upd_task t f s)"
  by (simp_all add: upd_task_def upd_ep_def upd_notif_def)

text \<open>Waking the waiter of an endpoint or of a notification.\<close>

lemma wait_inv_wake_ep:
  assumes "wait_inv D s" "ep_blocked_waiter (k_eps s i) = int w" "t_state (f (k_tasks s w)) = TASK_RUNNABLE"
    "ep_blocked_waiter (g (k_eps s i)) = -1"
  shows "wait_inv D (upd_task w f (upd_ep i g s))"
proof -
  have "ep_blocked_waiter (k_eps (upd_task w f s) i) \<noteq> int t" if "ep_sleeper (upd_task w f s) t i" for t
    using that assms(2,3) by (auto simp: ep_sleeper_def split: if_splits)
  thus ?thesis unfolding upd_commute
    by (intro wait_inv_ep_free wait_inv_task_awake) (use assms in simp_all)
qed

lemma wait_inv_wake_notif:
  assumes "wait_inv D s" "nt_blocked_waiter (k_notifs s i) = int w" "t_state (f (k_tasks s w)) = TASK_RUNNABLE"
    "nt_blocked_waiter (h (k_notifs s i)) = -1"
  shows "wait_inv D (upd_task w f (upd_notif i h s))"
proof -
  have "nt_blocked_waiter (k_notifs (upd_task w f s) i) \<noteq> int t" if "notif_sleeper (upd_task w f s) t i" for t
    using that assms(2,3) by (auto simp: notif_sleeper_def split: if_splits)
  thus ?thesis unfolding upd_commute
    by (intro wait_inv_notif_free wait_inv_task_awake) (use assms in simp_all)
qed

text \<open>Going to sleep: whoever slept there before is overtaken.\<close>

lemma wait_inv_sleep_ep:
  assumes "wait_inv D s" "\<And>t. t \<noteq> c \<Longrightarrow> ep_sleeper s t i \<Longrightarrow> t \<in> D'" "D \<subseteq> D'" "ep_empty (k_eps s i)"
    "t_blocked_on (f (k_tasks s c)) = int i" "t_state (f (k_tasks s c)) = TASK_BLOCKED_IPC" "t_saved_ksp (f (k_tasks s c)) \<noteq> 0"
  shows "wait_inv D' (upd_task c f (upd_ep i (\<lambda>e. e\<lparr> ep_blocked_waiter := int c \<rparr>) s))" (is "wait_inv _ ?s")
proof -
  have a: "t = c \<and> j = i \<or> t \<noteq> c \<and> ep_sleeper s t j" if "ep_sleeper ?s t j" for t j
    using that assms(5) by (auto simp: ep_sleeper_def split: if_splits)
  have b: "t \<noteq> c \<and> notif_sleeper s t j" if "notif_sleeper ?s t j" for t j
    using that assms(6) by (auto simp: notif_sleeper_def split: if_splits)
  show ?thesis unfolding wait_inv_def
  proof (intro conjI allI impI)
    fix t j assume "ep_sleeper ?s t j"
    from a[OF this] show "t_saved_ksp (k_tasks ?s t) \<noteq> 0" "t \<in> D' \<or> ep_blocked_waiter (k_eps ?s j) = int t"
      using assms(1,7) assms(2)[of t] subsetD[OF assms(3), of t] by (auto simp: wait_inv_def)
  next
    fix t j assume "ep_sleeper ?s t j" "ep_blocked_waiter (k_eps ?s j) = int t"
    with a[OF this(1)] show "ep_empty (k_eps ?s j)"
      using assms(1,4) by (auto simp: wait_inv_def ep_empty_def split: if_splits)
  next
    fix t j assume "notif_sleeper ?s t j"
    from b[OF this] show "t_saved_ksp (k_tasks ?s t) \<noteq> 0" "t \<in> D' \<or> nt_blocked_waiter (k_notifs ?s j) = int t"
      using assms(1) subsetD[OF assms(3), of t] by (auto simp: wait_inv_def)
  next
    fix t j assume "notif_sleeper ?s t j" "nt_blocked_waiter (k_notifs ?s j) = int t"
    with b[OF this(1)] show "nt_pending_badge (k_notifs ?s j) = 0" using assms(1) by (auto simp: wait_inv_def)
  qed
qed

lemma wait_inv_sleep_notif:
  assumes "wait_inv D s" "\<And>t. t \<noteq> c \<Longrightarrow> notif_sleeper s t i \<Longrightarrow> t \<in> D'" "D \<subseteq> D'" "nt_pending_badge (k_notifs s i) = 0"
    "t_blocked_on_notif (f (k_tasks s c)) = int i" "t_state (f (k_tasks s c)) = TASK_BLOCKED_NOTIF" "t_saved_ksp (f (k_tasks s c)) \<noteq> 0"
  shows "wait_inv D' (upd_task c f (upd_notif i (\<lambda>n. n\<lparr> nt_blocked_waiter := int c \<rparr>) s))" (is "wait_inv _ ?s")
proof -
  have a: "t = c \<and> j = i \<or> t \<noteq> c \<and> notif_sleeper s t j" if "notif_sleeper ?s t j" for t j
    using that assms(5) by (auto simp: notif_sleeper_def split: if_splits)
  have b: "t \<noteq> c \<and> ep_sleeper s t j" if "ep_sleeper ?s t j" for t j
    using that assms(6) by (auto simp: ep_sleeper_def split: if_splits)
  show ?thesis unfolding wait_inv_def
  proof (intro conjI allI impI)
    fix t j assume "notif_sleeper ?s t j"
    from a[OF this] show "t_saved_ksp (k_tasks ?s t) \<noteq> 0" "t \<in> D' \<or> nt_blocked_waiter (k_notifs ?s j) = int t"
      using assms(1,7) assms(2)[of t] subsetD[OF assms(3), of t] by (auto simp: wait_inv_def)
  next
    fix t j assume "notif_sleeper ?s t j" "nt_blocked_waiter (k_notifs ?s j) = int t"
    with a[OF this(1)] show "nt_pending_badge (k_notifs ?s j) = 0"
      using assms(1,4) by (auto simp: wait_inv_def split: if_splits)
  next
    fix t j assume "ep_sleeper ?s t j"
    from b[OF this] show "t_saved_ksp (k_tasks ?s t) \<noteq> 0" "t \<in> D' \<or> ep_blocked_waiter (k_eps ?s j) = int t"
      using assms(1) subsetD[OF assms(3), of t] by (auto simp: wait_inv_def)
  next
    fix t j assume "ep_sleeper ?s t j" "ep_blocked_waiter (k_eps ?s j) = int t"
    with b[OF this(1)] show "ep_empty (k_eps ?s j)" using assms(1) by (auto simp: wait_inv_def)
  qed
qed

section \<open>The operations keep the invariant\<close>

lemma m_k_upd [simp]: "m_k (upd_k f \<sigma>) = f (m_k \<sigma>)"
  by (simp add: upd_k_def)

text \<open>The invariant while the task \<open>c\<close> runs.\<close>

definition calm :: "nat set \<Rightarrow> nat \<Rightarrow> kstate \<Rightarrow> bool" where
  "calm D c s \<longleftrightarrow> wait_inv D s \<and> t_state (k_tasks s c) \<noteq> TASK_BLOCKED_IPC \<and> t_state (k_tasks s c) \<noteq> TASK_BLOCKED_NOTIF"

lemma calm_wait: "calm D c s \<Longrightarrow> wait_inv D s"
  by (simp add: calm_def)

lemma calm_view: "ipcv s' = ipcv s \<Longrightarrow> calm D c s' = calm D c s"
  by (simp add: calm_def wait_inv_view[of s' s] ipcv_tcb(1)[of s' s])

lemma calm_task_kept:
  assumes "calm D c s" "t_state (f (k_tasks s t)) = t_state (k_tasks s t)" "t_blocked_on (f (k_tasks s t)) = t_blocked_on (k_tasks s t)"
    "t_blocked_on_notif (f (k_tasks s t)) = t_blocked_on_notif (k_tasks s t)" "t_saved_ksp (f (k_tasks s t)) = t_saved_ksp (k_tasks s t)"
  shows "calm D c (upd_task t f s)"
  using assms wait_inv_task_kept[of D s f t] by (auto simp: calm_def)

lemma calm_self:
  assumes "calm D c s" "t_state (f (k_tasks s c)) = t_state (k_tasks s c)"
  shows "calm D c (upd_task c f s)"
  using assms wait_inv_task_awake[of D s f c] by (auto simp: calm_def)

lemma calm_ep_kept:
  "calm D c s \<Longrightarrow> ep_blocked_waiter (g (k_eps s i)) = ep_blocked_waiter (k_eps s i) \<Longrightarrow> (ep_empty (k_eps s i) \<Longrightarrow> ep_empty (g (k_eps s i)))
    \<Longrightarrow> calm D c (upd_ep i g s)"
  using wait_inv_ep_kept[of D s g i] by (auto simp: calm_def)

lemma calm_ep_free:
  "calm D c s \<Longrightarrow> (\<And>t. ep_sleeper s t i \<Longrightarrow> ep_blocked_waiter (k_eps s i) \<noteq> int t) \<Longrightarrow>
    ep_blocked_waiter (g (k_eps s i)) \<in> {ep_blocked_waiter (k_eps s i), -1} \<Longrightarrow> calm D c (upd_ep i g s)"
  using wait_inv_ep_free[of D s i g] by (auto simp: calm_def)

text \<open>The state a hand-over has reached before it wakes the waiter \<open>w\<close> of endpoint \<open>i\<close>.\<close>

definition handing :: "nat set \<Rightarrow> nat \<Rightarrow> nat \<Rightarrow> nat \<Rightarrow> kstate \<Rightarrow> bool" where
  "handing D c i w s \<longleftrightarrow> calm D c s \<and> ep_blocked_waiter (k_eps s i) = int w \<and> ep_empty (k_eps s i)"

lemma handing_view: "handing D c i w s \<Longrightarrow> ipcv s' = ipcv s \<Longrightarrow> handing D c i w s'"
  by (simp add: handing_def calm_view[of s' s] ipcv_sel(1)[of s' s])

lemma handing_task:
  "handing D c i w s \<Longrightarrow> handing D c i w (upd_task t (\<lambda>x. x\<lparr> t_frame_rax := v \<rparr>) s)"
  "handing D c i w s \<Longrightarrow> handing D c i w (upd_task t (\<lambda>x. x\<lparr> t_ipc_recv_block := b \<rparr>) s)"
  by (auto simp: handing_def intro!: calm_task_kept)

lemma calm_last:
  "calm D c s \<Longrightarrow> calm D c (upd_ep j (\<lambda>e. e\<lparr> ep_last_sender := x, ep_last_sender_gen := y, ep_last_invoker := z \<rparr>) s)"
  by (auto simp: ep_empty_def intro!: calm_ep_kept)

lemma handing_ep:
  "handing D c i w s \<Longrightarrow> handing D c i w (upd_ep j (\<lambda>e. e\<lparr> ep_last_sender := x, ep_last_sender_gen := y, ep_last_invoker := z \<rparr>) s)"
  using calm_last by (auto simp: handing_def ep_empty_def)

lemma handing_wake:
  assumes "handing D c i w s"
  shows "calm D c (upd_task w (\<lambda>t. (make_runnable t)\<lparr> t_blocked_on := -1 \<rparr>) (upd_ep i (\<lambda>e. e\<lparr> ep_blocked_waiter := -1 \<rparr>) s))"
  using assms wait_inv_wake_ep[of D s i w "\<lambda>t. (make_runnable t)\<lparr> t_blocked_on := -1 \<rparr>"]
  by (auto simp: handing_def calm_def make_runnable_def)

text \<open>A hand-over either stops before the wake-up or ends with it; on the way only the
  waiter's frame, its receive flag and the last sender of the endpoint change.\<close>

lemma send_waiter_ends:
  assumes sw: "swap_frame sw" and h: "P (m_k \<sigma>)" and r: "send_waiter sw i w msg len iv \<sigma> = (rc, \<sigma>')"
    and view: "\<And>s s'. P s \<Longrightarrow> ipcv s' = ipcv s \<Longrightarrow> P s'"
    and task: "\<And>s v. P s \<Longrightarrow> P (upd_task w (\<lambda>x. x\<lparr> t_frame_rax := v \<rparr>) s)"
      "\<And>s. P s \<Longrightarrow> P (upd_task w (\<lambda>x. x\<lparr> t_ipc_recv_block := False \<rparr>) s)"
    and ep: "\<And>s x y z. P s \<Longrightarrow> P (upd_ep i (\<lambda>e. e\<lparr> ep_last_sender := x, ep_last_sender_gen := y, ep_last_invoker := z \<rparr>) s)"
  shows "rc = -1 \<and> P (m_k \<sigma>')
       \<or> rc = 0 \<and> (\<exists>s. P s \<and> m_k \<sigma>' = upd_task w (\<lambda>t. (make_runnable t)\<lparr> t_blocked_on := -1 \<rparr>) (upd_ep i (\<lambda>e. e\<lparr> ep_blocked_waiter := -1 \<rparr>) s))"
proof -
  define t where "t = k_tasks (m_k \<sigma>) w"
  define l where "l = (if t_ipc_recv_block t \<and> len > t_ipc_recv_max t then t_ipc_recv_max t else len)"
  obtain m \<sigma>1 where f: "fetch_msg sw msg l \<sigma> = (m, \<sigma>1)" by (cases "fetch_msg sw msg l \<sigma>")
  have h1: "P (m_k \<sigma>1)" using view[OF h ipcv_fetch[OF sw, of msg l]] f by simp
  have h2: "P (m_k (deliver_to sw w k \<sigma>1))" for k using view[OF h1 ipcv_deliver[OF sw]] .
  note hs = h2[THEN task(1)]
  have h4: "P s5" if "cap_install_reply_for (int w) sd gen
       (upd_task w (\<lambda>t. t\<lparr> t_ipc_recv_block := False \<rparr>)
         (upd_ep i (\<lambda>e. e\<lparr> ep_last_sender := x, ep_last_sender_gen := y, ep_last_invoker := z \<rparr>)
           (upd_task w (\<lambda>t. t\<lparr> t_frame_rax := v \<rparr>) (m_k (deliver_to sw w k \<sigma>1))))) = (ok, s5)" for sd gen x y z v k ok s5
    using view[OF task(2)[OF ep[OF hs]] ipcv_install_reply] that by (metis snd_conv)
  show ?thesis
  proof (cases m)
    case None
    thus ?thesis using r h1 unfolding send_waiter_def Let_def t_def[symmetric] l_def[symmetric] f by simp
  next
    case (Some k)
    show ?thesis
      using r h2[of k] unfolding send_waiter_def Let_def t_def[symmetric] l_def[symmetric] f Some prod.case option.case
      by (auto simp del: upd_ep_sel split: prod.splits if_splits intro: h4 hs)
  qed
qed

lemma send_waiter_handing:
  assumes "swap_frame sw" "handing D c i w (m_k \<sigma>)" "send_waiter sw i w msg len iv \<sigma> = (rc, \<sigma>')"
  shows "rc = -1 \<and> handing D c i w (m_k \<sigma>')
       \<or> rc = 0 \<and> (\<exists>s. handing D c i w s \<and> m_k \<sigma>' = upd_task w (\<lambda>t. (make_runnable t)\<lparr> t_blocked_on := -1 \<rparr>) (upd_ep i (\<lambda>e. e\<lparr> ep_blocked_waiter := -1 \<rparr>) s))"
  by (rule send_waiter_ends[where P = "handing D c i w", OF assms]) (erule (1) handing_view | erule handing_task | erule handing_ep)+

lemma calm_send_waiter:
  assumes "swap_frame sw" "handing D c i w (m_k \<sigma>)"
  shows "calm D c (m_k (snd (send_waiter sw i w msg len iv \<sigma>)))"
proof -
  obtain rc \<sigma>' where r: "send_waiter sw i w msg len iv \<sigma> = (rc, \<sigma>')" by (cases "send_waiter sw i w msg len iv \<sigma>")
  show ?thesis using send_waiter_handing[OF assms r] handing_wake by (auto simp: r handing_def)
qed

lemma calm_send_locked:
  assumes sw: "swap_frame sw" and w: "calm D c (m_k \<sigma>)"
  shows "calm D c (m_k (snd (ipc_send_locked sw auth i msg len iv \<sigma>)))"
proof -
  let ?s = "m_k \<sigma>" and ?e = "k_eps (m_k \<sigma>) i"
  let ?w = "ep_blocked_waiter ?e"
  show ?thesis
  proof (cases "?w > 0 \<and> ?w < int (k_max_tasks ?s) \<and> t_state (k_tasks ?s (nat ?w)) = TASK_BLOCKED_IPC \<and> ep_empty ?e")
    case True
    hence "handing D c i (nat ?w) ?s" using w by (simp add: handing_def)
    from calm_send_waiter[OF sw this] show ?thesis using True w by (simp add: ipc_send_locked_def Let_def)
  next
    case False
    have none: "?w \<noteq> int t" if "ep_sleeper ?s t i" for t
      using False that calm_wait[OF w] unfolding wait_inv_def by (auto simp: ep_sleeper_def)
    obtain m \<sigma>1 where f: "fetch_msg sw msg len \<sigma> = (m, \<sigma>1)" by (cases "fetch_msg sw msg len \<sigma>")
    have v: "ipcv (m_k \<sigma>1) = ipcv ?s" using ipcv_fetch[OF sw, of msg len \<sigma>] f by simp
    have w1: "calm D c (m_k \<sigma>1)" using w calm_view[OF v] by simp
    have "calm D c (upd_ep i (ep_enqueue s bs l sd v') (m_k \<sigma>1))" for s bs l sd v'
      using none by (intro calm_ep_free[OF w1]) (auto simp: sleeper_view[OF v] ipcv_sel[OF v] ep_enqueue_def Let_def)
    thus ?thesis using w w1 False unfolding ipc_send_locked_def Let_def f by (auto split: option.splits)
  qed
qed

lemma calm_send: "swap_frame sw \<Longrightarrow> calm D c (m_k \<sigma>) \<Longrightarrow> calm D c (m_k (snd (sys_ipc_send sw ep msg len iv \<sigma>)))"
  using calm_send_locked by (auto simp: sys_ipc_send_def split: option.splits)

lemma dequeue_kept:
  assumes "ep_dequeue mx e = (l, bs, sd, g, iv, e')"
  shows "ep_blocked_waiter e' = ep_blocked_waiter e" "ep_empty e \<Longrightarrow> ep_empty e'" "ep_count e' = ep_count e - 1"
  using assms by (auto simp: ep_dequeue_def Let_def ep_empty_def)

lemma calm_dequeue:
  "calm D c s \<Longrightarrow> ep_dequeue mx (k_eps s i) = (l, bs, sd, g, iv, e') \<Longrightarrow> calm D c (upd_ep i (\<lambda>_. e') s)"
  using calm_ep_kept[of D c s "\<lambda>_. e'" i] dequeue_kept[of mx "k_eps s i"] by auto

lemma calm_recv_locked:
  assumes sw: "swap_frame sw" and w: "calm D c (m_k \<sigma>)"
  shows "calm D c (m_k (snd (ipc_recv_locked sw auth i msg mx \<sigma>)))"
proof -
  obtain l bs sd g iv e' where d: "ep_dequeue (int_of_size mx) (k_eps (m_k \<sigma>) i) = (l, bs, sd, g, iv, e')" by (metis prod_cases6)
  note w1 = calm_dequeue[OF w d]
  have w2: "calm D c (m_k (snd (copy_to_user sw msg bs (upd_k (upd_ep i (\<lambda>_. e')) \<sigma>))))"
    using calm_view[OF ipcv_copy_to[OF sw]] w1 by simp
  have io: "calm D c (snd (cap_install_object slot CAP_REPLY obj rights b s)) = calm D c s" for slot obj rights b s
    by (rule calm_view[OF ipcv_install_object])
  show ?thesis
    using w w1 w2 calm_last io unfolding ipc_recv_locked_def Let_def d by (auto split: prod.splits)
qed

lemma calm_recv: "swap_frame sw \<Longrightarrow> calm D c (m_k \<sigma>) \<Longrightarrow> calm D c (m_k (snd (sys_ipc_recv sw ep msg mx \<sigma>)))"
  using calm_recv_locked by (auto simp: sys_ipc_recv_def split: option.splits)

lemma calm_call:
  assumes "swap_frame sw" "calm D (k_cur (m_k \<sigma>)) (m_k \<sigma>)"
  shows "calm D (k_cur (m_k \<sigma>)) (m_k (snd (ipc_call_common sw slot msg len buf rslot cslot \<sigma>)))"
proof -
  let ?c = "k_cur (m_k \<sigma>)"
  have self: "calm D ?c (upd_task ?c (\<lambda>t. t\<lparr> t_ipc_cap_recv_slot := a1, t_ipc_inv_slot := a2, t_ipc_inv_serial := a3, t_ipc_reply_buf := a4,
                t_blocked_on := a5, t_pending_block := a6 \<rparr>) (m_k \<sigma>))" for a1 a2 a3 a4 a5 a6
    using calm_self[OF assms(2)] by simp
  have un: "calm D ?c s \<Longrightarrow> calm D ?c (upd_task ?c (\<lambda>t. t\<lparr> t_pending_block := 0, t_blocked_on := -1, t_ipc_reply_buf := 0, t_ipc_cap_recv_slot := IPC_NO_CAP \<rparr>) s)" for s
    using calm_self[of D ?c s] by simp
  have snd: "calm D ?c (m_k \<sigma>2)" if "calm D ?c s" "sys_ipc_send sw ep m l v (\<sigma>\<lparr> m_k := s \<rparr>) = (rc, \<sigma>2)" for s ep m l v rc \<sigma>2
    using calm_send[OF assms(1), of D ?c "\<sigma>\<lparr> m_k := s \<rparr>" ep m l v] that by simp
  show ?thesis
    using assms(2) unfolding ipc_call_common_def Let_def upd_k_def
    by (auto split: option.splits prod.splits intro!: un intro: snd[OF self])
qed

text \<open>What a receive does to the running task and to the length of the queue.\<close>

lemma recv_frame:
  assumes sw: "swap_frame sw" and r: "sys_ipc_recv sw ep msg mx \<sigma> = (rc, \<sigma>')"
  shows "k_cur (m_k \<sigma>') = k_cur (m_k \<sigma>)"
    "rc = -2 \<Longrightarrow> \<not> ep_empty (k_eps (m_k \<sigma>) ep) \<Longrightarrow> ep_count (k_eps (m_k \<sigma>') ep) = ep_count (k_eps (m_k \<sigma>) ep) - 1"
proof -
  obtain l bs sd g iv e' where d: "ep_dequeue (int_of_size mx) (k_eps (m_k \<sigma>) ep) = (l, bs, sd, g, iv, e')" by (metis prod_cases6)
  have idx: "endpoint_by_index s i = Some j \<Longrightarrow> j = i" for s i j by (simp add: endpoint_by_index_def split: if_splits)
  have c: "k_cur (m_k a') = k_cur (m_k a)" "k_eps (m_k a') = k_eps (m_k a)" if "copy_to_user sw msg b a = (x, a')" for b x a a'
    using ipcv_sel[OF ipcv_copy_to[OF sw, of msg b a]] that by simp_all
  note io = ipcv_sel[OF ipcv_install_object]
  show "k_cur (m_k \<sigma>') = k_cur (m_k \<sigma>)"
    using r unfolding sys_ipc_recv_def ipc_recv_locked_def Let_def
    by (auto simp: io split: option.splits prod.splits if_splits dest!: c(1))
  show "ep_count (k_eps (m_k \<sigma>') ep) = ep_count (k_eps (m_k \<sigma>) ep) - 1" if "rc = -2" "\<not> ep_empty (k_eps (m_k \<sigma>) ep)"
    using r that unfolding sys_ipc_recv_def ipc_recv_locked_def Let_def
    by (auto simp: io d dequeue_kept(3)[OF d] split: option.splits prod.splits if_splits dest!: c(2) idx)
qed

lemma calm_wake_caller:
  assumes "calm D c s"
  shows "calm D c (wake_caller t s)"
proof -
  have a: "calm D c (upd_task t (\<lambda>x. (make_runnable x)\<lparr> t_blocked_on := -1 \<rparr>) s)"
    using wait_inv_task_awake[OF calm_wait[OF assms]] assms by (auto simp: calm_def make_runnable_def)
  have b: "calm D c (upd_task t (\<lambda>x. (make_runnable x)\<lparr> t_blocked_on := -1 \<rparr>) (upd_ep i (\<lambda>e. e\<lparr> ep_blocked_waiter := -1 \<rparr>) s))"
    if "ep_blocked_waiter (k_eps s i) = int t" for i
    using wait_inv_wake_ep[OF calm_wait[OF assms] that] assms by (auto simp: calm_def make_runnable_def)
  show ?thesis using a b by (auto simp: wake_caller_def Let_def split: option.splits)
qed

text \<open>A reply stops short with nothing a sleeper could see changed, drops the right of a
  caller that is gone, or answers the caller the right names.\<close>

definition reply_target :: "kstate \<Rightarrow> caddr \<Rightarrow> nat" where
  "reply_target s a = unat (c_object (k_mem s a) AND 0xFFFF)"

definition awaits_reply :: "kstate \<Rightarrow> caddr \<Rightarrow> bool" where
  "awaits_reply s a \<longleftrightarrow>
    (let t = reply_target s a; x = k_tasks s t in
     0 < t \<and> t < k_max_tasks s \<and> t_slot_gen x = drop_bit 16 (c_object (k_mem s a)) \<and> t_state x = TASK_BLOCKED_IPC \<and> \<not> t_ipc_recv_block x)"

lemma rax32_neg: "rax32 (- 1) \<noteq> 0" "rax32 (- 2) \<noteq> 0"
  by code_simp+

lemma reply_ends:
  assumes sw: "swap_frame sw" and r: "ipc_reply_common sw r mint mr mt \<sigma> = (rax, \<sigma>')"
  shows "rax \<noteq> 0 \<and> ipcv (m_k \<sigma>') = ipcv (m_k \<sigma>)
    \<or> rax = 0 \<and> (\<exists>a. cap_lookup (m_k \<sigma>) CAPSLOT_REPLY CAP_REPLY CAP_RIGHT_WRITE = Some a \<and> \<not> awaits_reply (m_k \<sigma>) a
         \<and> \<sigma>' = upd_k consume_reply \<sigma>)
    \<or> rax = 0 \<and> (\<exists>a v s. cap_lookup (m_k \<sigma>) CAPSLOT_REPLY CAP_REPLY CAP_RIGHT_WRITE = Some a \<and> awaits_reply (m_k \<sigma>) a
         \<and> ipcv s = ipcv (m_k \<sigma>)
         \<and> m_k \<sigma>' = consume_reply (wake_caller (reply_target (m_k \<sigma>) a) (upd_task (reply_target (m_k \<sigma>) a) (\<lambda>x. x\<lparr> t_frame_rax := v \<rparr>) s)))"
proof -
  let ?s = "m_k \<sigma>" and ?len = "if unat (r_rdx r) > IPC_MSG_MAX then IPC_MSG_MAX else unat (r_rdx r)"
  note nz = rax32_neg
  show ?thesis
  proof (cases "ipc_ep_from_slot ?s (low_slot (r_rbx r)) CAP_RIGHT_READ")
    case None
    thus ?thesis using r nz unfolding ipc_reply_common_def Let_def by auto
  next
    case e: (Some ep)
    show ?thesis
    proof (cases "cap_lookup ?s CAPSLOT_REPLY CAP_REPLY CAP_RIGHT_WRITE")
      case None
      thus ?thesis using r nz e unfolding ipc_reply_common_def Let_def by auto
    next
      case a: (Some a)
      define t where "t = reply_target ?s a"
      note un = ipc_reply_common_def[of sw r mint mr mt \<sigma>, unfolded Let_def e a option.case, folded reply_target_def t_def]
      show ?thesis
      proof (cases "awaits_reply ?s a")
        case False
        have "rax \<noteq> 0 \<and> \<sigma>' = \<sigma> \<or> rax = 0 \<and> \<sigma>' = upd_k consume_reply \<sigma>"
          using r nz False[unfolded awaits_reply_def Let_def t_def[symmetric]] unfolding un by (auto split: if_splits)
        thus ?thesis using a False by auto
      next
        case w: True
        obtain m \<sigma>1 where f: "fetch_msg sw (r_rcx r) ?len \<sigma> = (m, \<sigma>1)" by (cases "fetch_msg sw (r_rcx r) ?len \<sigma>")
        have v: "ipcv (m_k \<sigma>1) = ipcv ?s" using ipcv_fetch[OF sw, of "r_rcx r" ?len \<sigma>] f by simp
        have g: "\<not> (t = 0 \<or> t \<ge> k_max_tasks ?s \<or> t_state (k_tasks ?s t) = TASK_DEAD \<or> t_slot_gen (k_tasks ?s t) \<noteq> drop_bit 16 (c_object (k_mem ?s a)))"
          "\<not> (t_state (k_tasks ?s t) \<noteq> TASK_BLOCKED_IPC \<or> t_ipc_recv_block (k_tasks ?s t))"
          using w unfolding awaits_reply_def Let_def t_def[symmetric] by auto
        note un2 = r[unfolded un f prod.case if_not_P[OF g(1)] if_not_P[OF g(2)]]
        show ?thesis
        proof (cases m)
          case None
          thus ?thesis using un2 nz v by auto
        next
          case k: (Some k)
          let ?y = "k_tasks (m_k \<sigma>1) t"
          define ms where "ms = (if \<not> mint then (True, m_k \<sigma>1)
                                 else if t_ipc_cap_recv_slot ?y = IPC_NO_CAP then (False, m_k \<sigma>1)
                                 else cap_reply_mint_into (int t) (t_ipc_inv_slot ?y) (t_ipc_inv_serial ?y) ep
                                        (t_ipc_cap_recv_slot ?y) mr mt (m_k \<sigma>1))"
          have vm: "ipcv (snd ms) = ipcv ?s" using v ipcv_reply_mint by (simp add: ms_def)
          have vd: "ipcv (m_k (deliver_to sw t k (\<sigma>1\<lparr> m_k := snd ms \<rparr>))) = ipcv ?s" using ipcv_deliver[OF sw] vm by simp
          show ?thesis using un2[unfolded k option.case ms_def[symmetric] case_prod_beta'] nz vm vd a w
            by (auto simp: t_def[symmetric] split: if_splits intro!: exI[of _ "m_k (deliver_to sw t k (\<sigma>1\<lparr> m_k := snd ms \<rparr>))"])
        qed
      qed
    qed
  qed
qed

lemma calm_reply:
  assumes sw: "swap_frame sw" and c: "calm D c (m_k \<sigma>)"
  shows "calm D c (m_k (snd (ipc_reply_common sw r mint mr mt \<sigma>)))"
proof -
  obtain rax \<sigma>' where r: "ipc_reply_common sw r mint mr mt \<sigma> = (rax, \<sigma>')" by (cases "ipc_reply_common sw r mint mr mt \<sigma>")
  have cons: "calm D c (consume_reply s) = calm D c s" for s by (rule calm_view[OF ipcv_consume(2)])
  have fin: "calm D c (wake_caller t (upd_task t (\<lambda>x. x\<lparr> t_frame_rax := v \<rparr>) s))" if "ipcv s = ipcv (m_k \<sigma>)" for t v s
    by (intro calm_wake_caller calm_task_kept) (simp_all add: calm_view[OF that] c)
  have same: "ipcv (m_k \<sigma>') = ipcv (m_k \<sigma>) \<Longrightarrow> calm D c (m_k \<sigma>')" using c calm_view by blast
  show ?thesis using reply_ends[OF sw r] c fin same by (elim disjE conjE exE) (simp_all add: r cons)
qed

text \<open>Publishing a block.  A task that goes to sleep takes the place of whoever slept on the
  same object; \<open>overtaken\<close> are the tasks that lost theirs between two states.\<close>

definition overtaken :: "kstate \<Rightarrow> kstate \<Rightarrow> nat set" where
  "overtaken s s' = {t. \<exists>i u. u \<noteq> t \<and> (ep_sleeper s t i \<and> \<not> ep_sleeper s u i \<and> ep_sleeper s' u i
                                      \<or> notif_sleeper s t i \<and> \<not> notif_sleeper s u i \<and> notif_sleeper s' u i)}"

lemma wait_inv_mono: "wait_inv D s \<Longrightarrow> D \<subseteq> D' \<Longrightarrow> wait_inv D' s"
  unfolding wait_inv_def by blast

lemma by_index_same:
  "endpoint_by_index s i = Some j \<Longrightarrow> j = i" "notification_by_index s i = Some j \<Longrightarrow> j = i"
  by (simp_all add: endpoint_by_index_def notification_by_index_def split: if_splits)

lemma wait_runnable: "wait_inv D s \<Longrightarrow> t_state (f (k_tasks s c)) = TASK_RUNNABLE \<Longrightarrow> wait_inv D (upd_task c f s)"
  by (rule wait_inv_task_awake) simp_all

lemma sleeps_overtaking:
  assumes c: "calm D c s" "0 < c" "c < k_max_tasks s" "t_saved_ksp (k_tasks s c) \<noteq> 0"
  shows "t_blocked_on (k_tasks s c) = int i \<Longrightarrow> ep_empty (k_eps s i) \<Longrightarrow>
      s' = upd_task c (\<lambda>t. t\<lparr> t_pending_block := 0, t_state := TASK_BLOCKED_IPC, t_runnable_ctx := False \<rparr>)
             (upd_ep i (\<lambda>e. e\<lparr> ep_blocked_waiter := int c \<rparr>) s) \<Longrightarrow> wait_inv (D \<union> overtaken s s') s'"
    "t_blocked_on_notif (k_tasks s c) = int i \<Longrightarrow> nt_pending_badge (k_notifs s i) = 0 \<Longrightarrow>
      s' = upd_task c (\<lambda>t. t\<lparr> t_pending_block := 0, t_state := TASK_BLOCKED_NOTIF, t_runnable_ctx := False \<rparr>)
             (upd_notif i (\<lambda>n. n\<lparr> nt_blocked_waiter := int c \<rparr>) s) \<Longrightarrow> wait_inv (D \<union> overtaken s s') s'"
proof -
  have aw: "\<not> ep_sleeper s c j" "\<not> notif_sleeper s c j" for j using c(1) by (auto simp: calm_def ep_sleeper_def notif_sleeper_def)
  show "wait_inv (D \<union> overtaken s s') s'" if i: "t_blocked_on (k_tasks s c) = int i" "ep_empty (k_eps s i)"
    and s': "s' = upd_task c (\<lambda>t. t\<lparr> t_pending_block := 0, t_state := TASK_BLOCKED_IPC, t_runnable_ctx := False \<rparr>)
             (upd_ep i (\<lambda>e. e\<lparr> ep_blocked_waiter := int c \<rparr>) s)"
  proof -
    have "ep_sleeper s' c i" using c(2,3) i(1) by (simp add: s' ep_sleeper_def)
    hence "t \<in> D \<union> overtaken s s'" if "t \<noteq> c" "ep_sleeper s t i" for t using that aw(1)[of i] unfolding overtaken_def by auto
    from wait_inv_sleep_ep[OF calm_wait[OF c(1)] this _ i(2)] show ?thesis using c(4) i(1) by (simp add: s')
  qed
  show "wait_inv (D \<union> overtaken s s') s'" if i: "t_blocked_on_notif (k_tasks s c) = int i" "nt_pending_badge (k_notifs s i) = 0"
    and s': "s' = upd_task c (\<lambda>t. t\<lparr> t_pending_block := 0, t_state := TASK_BLOCKED_NOTIF, t_runnable_ctx := False \<rparr>)
             (upd_notif i (\<lambda>n. n\<lparr> nt_blocked_waiter := int c \<rparr>) s)"
  proof -
    have "notif_sleeper s' c i" using c(2,3) i(1) by (simp add: s' notif_sleeper_def)
    hence "t \<in> D \<union> overtaken s s'" if "t \<noteq> c" "notif_sleeper s t i" for t using that aw(2)[of i] unfolding overtaken_def by auto
    from wait_inv_sleep_notif[OF calm_wait[OF c(1)] this _ i(2)] show ?thesis using c(4) i(1) by (simp add: s')
  qed
qed

lemma wait_publish_ipc:
  assumes sw: "swap_frame sw" and c: "calm D c (m_k \<sigma>)" and r: "publish_ipc sw c \<sigma> = (b, \<sigma>')"
  shows "wait_inv D (m_k \<sigma>')
    \<or> (\<exists>i. t_blocked_on (k_tasks (m_k \<sigma>) c) = int i \<and> ep_empty (k_eps (m_k \<sigma>) i)
         \<and> m_k \<sigma>' = upd_task c (\<lambda>t. t\<lparr> t_pending_block := 0, t_state := TASK_BLOCKED_IPC, t_runnable_ctx := False \<rparr>)
             (upd_ep i (\<lambda>e. e\<lparr> ep_blocked_waiter := int c \<rparr>) (m_k \<sigma>)))"
proof -
  let ?s = "m_k \<sigma>" and ?t = "k_tasks (m_k \<sigma>) c"
  define cap where "cap = (if t_ipc_recv_block ?t then int_of_size (of_nat (t_ipc_recv_max ?t)) else int IPC_MSG_MAX)"
  show ?thesis
  proof (cases "if t_blocked_on ?t < 0 then None else endpoint_by_index ?s (nat (t_blocked_on ?t))")
    case None
    thus ?thesis using r wait_runnable[OF calm_wait[OF c]]
      unfolding publish_ipc_def Let_def None by (auto simp: cancel_block_def make_runnable_def)
  next
    case (Some i)
    hence i: "t_blocked_on ?t = int i" using by_index_same(1) by (force split: if_splits)
    obtain l bs sd g iv e' where d: "ep_dequeue cap (k_eps ?s i) = (l, bs, sd, g, iv, e')" by (metis prod_cases6)
    have w1: "calm D c (m_k (upd_k (\<lambda>s. upd_task c (\<lambda>t. t\<lparr> t_pending_block := 0 \<rparr>) (upd_ep i (\<lambda>_. e') s)) \<sigma>))"
      using calm_self[OF calm_dequeue[OF c d]] by simp
    have w2: "calm D c (m_k (snd (copy_to_user sw b bs (upd_k (\<lambda>s. upd_task c (\<lambda>t. t\<lparr> t_pending_block := 0 \<rparr>) (upd_ep i (\<lambda>_. e') s)) \<sigma>))))" for b
      using calm_view[OF ipcv_copy_to[OF sw]] w1 by simp
    have w4: "calm D c (upd_task c (\<lambda>t. t\<lparr> t_frame_rax := v \<rparr>) (upd_ep i (\<lambda>e. e\<lparr> ep_last_sender := sd, ep_last_sender_gen := g, ep_last_invoker := iv \<rparr>) s))"
      if "calm D c s" for v s
      using calm_self[OF calm_last[OF that]] by simp
    have w5: "wait_inv D (snd (cap_install_reply_for a b d s))" if "calm D c s" for a b d s
      using wait_inv_view[OF ipcv_install_reply] calm_wait[OF that] by blast
    have fin: "wait_inv D s \<Longrightarrow> wait_inv D (upd_task c (\<lambda>t. (make_runnable t)\<lparr> t_blocked_on := -1, t_ipc_recv_block := False \<rparr>) s)" for s
      by (rule wait_runnable) (simp_all add: make_runnable_def)
    note un = publish_ipc_def[of sw c \<sigma>, unfolded Let_def Some option.case cap_def[symmetric] d prod.case]
    show ?thesis
    proof (cases "ep_empty (k_eps ?s i)")
      case True
      thus ?thesis using r i unfolding un by auto
    next
      case False
      have "wait_inv D (m_k (snd (publish_ipc sw c \<sigma>)))"
        using False w1 unfolding un by (auto intro!: fin w5[OF w4] calm_wait[OF w4] w2)
      thus ?thesis using r by simp
    qed
  qed
qed

lemma wait_badge_taken:
  assumes "wait_inv D s" "nt_pending_badge (k_notifs s i) \<noteq> 0"
  shows "wait_inv D (upd_notif i (\<lambda>n. n\<lparr> nt_pending_badge := 0 \<rparr>) s)"
  using assms by (intro wait_inv_notif_free) (auto simp: wait_inv_def)

lemma wait_publish_wait:
  assumes "wait_inv D s"
  shows "wait_inv D (snd (publish_wait c s))"
proof -
  have "wait_inv D (upd_task w (\<lambda>t. t\<lparr> t_waiter := v \<rparr>) s)" for w v
    by (rule wait_inv_task_kept[OF assms]) simp_all
  from wait_inv_task_awake[OF this] show ?thesis
    using wait_runnable[OF assms] by (simp add: publish_wait_def Let_def make_runnable_def)
qed

lemma wait_publish_notif:
  assumes c: "calm D c s" and r: "publish_notif c s = (b, s')"
  shows "wait_inv D s'
    \<or> (\<exists>i. t_blocked_on_notif (k_tasks s c) = int i \<and> nt_pending_badge (k_notifs s i) = 0
         \<and> s' = upd_task c (\<lambda>t. t\<lparr> t_pending_block := 0, t_state := TASK_BLOCKED_NOTIF, t_runnable_ctx := False \<rparr>)
             (upd_notif i (\<lambda>n. n\<lparr> nt_blocked_waiter := int c \<rparr>) s))"
proof -
  note w = calm_wait[OF c]
  show ?thesis
  proof (cases "if t_blocked_on_notif (k_tasks s c) < 0 then None else notification_by_index s (nat (t_blocked_on_notif (k_tasks s c)))")
    case None
    thus ?thesis using r wait_runnable[OF w] unfolding publish_notif_def Let_def None by (auto simp: cancel_block_def make_runnable_def)
  next
    case (Some i)
    hence i: "t_blocked_on_notif (k_tasks s c) = int i" using by_index_same(2) by (force split: if_splits)
    have a: "wait_inv D (upd_task c f (upd_notif i (\<lambda>n. n\<lparr> nt_pending_badge := 0 \<rparr>) s))"
      if "t_state (f (k_tasks s c)) = TASK_RUNNABLE" "nt_pending_badge (k_notifs s i) \<noteq> 0" for f
      using wait_runnable[OF wait_badge_taken[OF w that(2)], of f c] that(1) by simp
    show ?thesis using r i a unfolding publish_notif_def Let_def Some option.case by (auto simp: make_runnable_def split: if_splits)
  qed
qed

lemma wait_publish:
  assumes sw: "swap_frame sw" and c: "calm D (nat p) (m_k \<sigma>)" and r: "ipc_publish_pending_block sw p \<sigma> = (b, \<sigma>')"
  shows "wait_inv (D \<union> overtaken (m_k \<sigma>) (m_k \<sigma>')) (m_k \<sigma>')"
proof (cases "0 < nat p \<and> nat p < k_max_tasks (m_k \<sigma>) \<and> t_saved_ksp (k_tasks (m_k \<sigma>) (nat p)) \<noteq> 0")
  case True
  note s = sleeps_overtaking[OF c, of _ "m_k \<sigma>'"] and w = calm_wait[OF c]
  have k: "wait_inv D (m_k \<sigma>') \<Longrightarrow> ?thesis" by (rule wait_inv_mono) auto
  have i: "publish_ipc sw (nat p) \<sigma> = (b, \<sigma>') \<Longrightarrow> ?thesis" using wait_publish_ipc[OF sw c, of b \<sigma>'] s(1) True k by blast
  have n: "publish_notif (nat p) (m_k \<sigma>) = (b, m_k \<sigma>') \<Longrightarrow> ?thesis" using wait_publish_notif[OF c, of b "m_k \<sigma>'"] s(2) True k by blast
  have u: "wait_inv D (upd_task (nat p) (\<lambda>t. (make_runnable t)\<lparr> t_pending_block := 0 \<rparr>) (m_k \<sigma>))"
    by (rule wait_runnable[OF w]) (simp add: make_runnable_def)
  have "t_saved_ksp (k_tasks (m_k \<sigma>) (nat p)) \<noteq> 0" using True by blast
  thus ?thesis using r i n k u w wait_publish_wait[OF w, of "nat p"] unfolding ipc_publish_pending_block_def Let_def
    by (auto split: prod.splits if_splits)
next
  case False
  have "wait_inv D (m_k \<sigma>')" using r False calm_wait[OF c] unfolding ipc_publish_pending_block_def Let_def
    by (auto simp: cancel_block_def make_runnable_def split: if_splits intro!: wait_runnable)
  thus ?thesis by (rule wait_inv_mono) auto
qed

lemma upd_task_twice: "upd_task c f (upd_task c g s) = upd_task c (\<lambda>t. f (g t)) s"
  by (simp add: upd_task_def)

lemma wait_unpublish:
  assumes "wait_inv D s"
  shows "wait_inv D (ipc_unpublish_block p s)"
proof (cases "p \<le> 0 \<or> p \<ge> int (k_max_tasks s)")
  case True
  thus ?thesis using assms by (simp add: ipc_unpublish_block_def)
next
  case False
  have p: "int (nat p) = p" using False by simp
  have run: "wait_inv D (upd_task (nat p) (\<lambda>t. make_runnable (f t)) s')" if "wait_inv D s'" for f s'
    by (rule wait_runnable[OF that]) (simp add: make_runnable_def)
  have ep: "wait_inv D (upd_task (nat p) (\<lambda>t. make_runnable (f t)) (upd_ep i (\<lambda>e. e\<lparr> ep_blocked_waiter := -1 \<rparr>) s))" if "ep_blocked_waiter (k_eps s i) = p" for f i
    using that p by (intro wait_inv_wake_ep[OF assms]) (simp_all add: make_runnable_def)
  have nt: "wait_inv D (upd_task (nat p) make_runnable (upd_notif i (\<lambda>n. n\<lparr> nt_blocked_waiter := -1 \<rparr>) s))" if "nt_blocked_waiter (k_notifs s i) = p" for i
    using that p by (intro wait_inv_wake_notif[OF assms]) (simp_all add: make_runnable_def)
  have wt: "wait_inv D (upd_task w (\<lambda>t. t\<lparr> t_waiter := v \<rparr>) s)" for w v
    by (rule wait_inv_task_kept[OF assms]) simp_all
  show ?thesis
    using False run[OF assms] run[OF assms, of "\<lambda>t. t"] ep nt run[OF wt] unfolding ipc_unpublish_block_def Let_def
    by (auto simp: upd_task_twice split: option.splits)
qed

lemma wait_notify:
  assumes "wait_inv D s"
  shows "wait_inv D (snd (sys_notify n b s))"
proof (cases "notification_by_index s n")
  case (Some i)
  let ?w = "nt_blocked_waiter (k_notifs s i)"
  show ?thesis
  proof (cases "?w > 0 \<and> ?w < int (k_max_tasks s) \<and> t_state (k_tasks s (nat ?w)) = TASK_BLOCKED_NOTIF")
    case True
    thus ?thesis
      using wait_inv_wake_notif[OF assms, of i "nat ?w"] by (auto simp: sys_notify_def Some Let_def make_runnable_def)
  next
    case False
    have "?w \<noteq> int t" if "notif_sleeper s t i" for t using False that by (auto simp: notif_sleeper_def)
    from wait_inv_notif_free[OF assms this] show ?thesis
      using False by (auto simp: sys_notify_def Some Let_def)
  qed
qed (use assms in \<open>simp add: sys_notify_def\<close>)

lemma wait_poll: "wait_inv D s \<Longrightarrow> wait_inv D (snd (snd (sys_poll_notify n s)))"
  using wait_badge_taken by (auto simp: sys_poll_notify_def Let_def split: option.splits)

lemma wait_wait_notify: "calm D (k_cur s) s \<Longrightarrow> wait_inv D (snd (snd (sys_wait_notify n s)))"
  using wait_badge_taken[OF calm_wait] calm_wait[OF calm_self[of D "k_cur s" s]] calm_wait
  by (auto simp: sys_wait_notify_def Let_def split: option.splits)

section \<open>Steps of the system\<close>

text \<open>The task that runs, and the steps: the calls a running task makes, the locked sections
  of a send and of a receive on their own (the snapshot they check taken at any earlier moment), the commitment of a
  blocking receive on an empty queue, the publication of the block a task asked for, its withdrawal by
  the scheduler, and whatever else the kernel does: it may stop, start, save and end tasks and initialise
  objects nobody sleeps on, but puts nobody to sleep on one and moves no sleeper.\<close>

definition as_task :: "nat \<Rightarrow> 'd mach \<Rightarrow> 'd mach" where
  "as_task p = upd_k (\<lambda>s. s\<lparr> k_cur := p \<rparr>)"

definition runs :: "nat \<Rightarrow> 'd mach \<Rightarrow> bool" where
  "runs p \<sigma> \<longleftrightarrow> t_state (k_tasks (m_k \<sigma>) p) = TASK_RUNNABLE"

definition upd_k3 :: "'d mach \<Rightarrow> u64 \<times> u64 \<times> kstate \<Rightarrow> 'd mach" where
  "upd_k3 \<sigma> r = \<sigma>\<lparr> m_k := snd (snd r) \<rparr>"

definition asleep :: "kstate \<Rightarrow> nat \<Rightarrow> bool" where
  "asleep s t \<longleftrightarrow> t_state (k_tasks s t) = TASK_BLOCKED_IPC \<or> t_state (k_tasks s t) = TASK_BLOCKED_NOTIF"

definition leaves_sleepers :: "kstate \<Rightarrow> kstate \<Rightarrow> bool" where
  "leaves_sleepers s s' \<longleftrightarrow>
     k_max_tasks s' = k_max_tasks s
   \<and> (\<forall>i. k_eps s' i = k_eps s i \<or> (\<forall>t. \<not> ep_sleeper s t i))
   \<and> (\<forall>i. k_notifs s' i = k_notifs s i \<or> (\<forall>t. \<not> notif_sleeper s t i))
   \<and> list_all (\<lambda>t. let x = k_tasks s t; y = k_tasks s' t in
        \<not> asleep s' t \<or> t_state y = t_state x \<and> t_blocked_on y = t_blocked_on x \<and> t_blocked_on_notif y = t_blocked_on_notif x
                       \<and> t_saved_ksp y = t_saved_ksp x) [0..<k_max_tasks s]"

inductive ipc_step :: "'d swap_ops \<Rightarrow> 'd mach \<Rightarrow> 'd mach \<Rightarrow> bool" for sw where
  step_send: "runs p \<sigma> \<Longrightarrow> h_ipc_send sw r (as_task p \<sigma>) = (x, \<sigma>') \<Longrightarrow> ipc_step sw \<sigma> \<sigma>'"
| step_recv: "runs p \<sigma> \<Longrightarrow> h_ipc_recv sw r (as_task p \<sigma>) = (x, \<sigma>') \<Longrightarrow> ipc_step sw \<sigma> \<sigma>'"
| step_send_locked: "runs p \<sigma> \<Longrightarrow> ipc_send_locked sw auth i msg len iv (as_task p \<sigma>) = (rc, \<sigma>') \<Longrightarrow> ipc_step sw \<sigma> \<sigma>'"
| step_recv_locked: "runs p \<sigma> \<Longrightarrow> ipc_recv_locked sw auth i msg max_len (as_task p \<sigma>) = (rc, \<sigma>') \<Longrightarrow> ipc_step sw \<sigma> \<sigma>'"
| step_recv_commit: "runs p \<sigma> \<Longrightarrow> ep_empty (k_eps (m_k \<sigma>) ep) \<Longrightarrow> ipc_step sw \<sigma> (recv_block_commit p ep r \<sigma>)"
| step_call: "runs p \<sigma> \<Longrightarrow> h_ipc_call sw r (as_task p \<sigma>) = (x, \<sigma>') \<Longrightarrow> ipc_step sw \<sigma> \<sigma>'"
| step_call_cap: "runs p \<sigma> \<Longrightarrow> h_ipc_call_cap sw r (as_task p \<sigma>) = (x, \<sigma>') \<Longrightarrow> ipc_step sw \<sigma> \<sigma>'"
| step_reply: "runs p \<sigma> \<Longrightarrow> h_ipc_reply sw r (as_task p \<sigma>) = (x, \<sigma>') \<Longrightarrow> ipc_step sw \<sigma> \<sigma>'"
| step_reply_to: "runs p \<sigma> \<Longrightarrow> h_ipc_reply_to sw r (as_task p \<sigma>) = (x, \<sigma>') \<Longrightarrow> ipc_step sw \<sigma> \<sigma>'"
| step_reply_cap: "runs p \<sigma> \<Longrightarrow> h_ipc_reply_cap sw r (as_task p \<sigma>) = (x, \<sigma>') \<Longrightarrow> ipc_step sw \<sigma> \<sigma>'"
| step_notify: "runs p \<sigma> \<Longrightarrow> h_notify r (m_k (as_task p \<sigma>)) = (x, s') \<Longrightarrow> ipc_step sw \<sigma> (\<sigma>\<lparr> m_k := s' \<rparr>)"
| step_wait: "runs p \<sigma> \<Longrightarrow> ipc_step sw \<sigma> (upd_k3 \<sigma> (h_wait_notify r (m_k (as_task p \<sigma>))))"
| step_poll: "runs p \<sigma> \<Longrightarrow> ipc_step sw \<sigma> (upd_k3 \<sigma> (h_poll_notify r (m_k (as_task p \<sigma>))))"
| step_publish: "runs p \<sigma> \<Longrightarrow> ipc_publish_pending_block sw (int p) (as_task p \<sigma>) = (x, \<sigma>') \<Longrightarrow> ipc_step sw \<sigma> \<sigma>'"
| step_unpublish: "ipc_step sw \<sigma> (upd_k (ipc_unpublish_block p) \<sigma>)"
| step_other: "leaves_sleepers (m_k \<sigma>) (m_k \<sigma>') \<Longrightarrow> ipc_step sw \<sigma> \<sigma>'"

lemma as_task_view:
  "wait_inv D (m_k (as_task p \<sigma>)) = wait_inv D (m_k \<sigma>)" "ep_sleeper (m_k (as_task p \<sigma>)) = ep_sleeper (m_k \<sigma>)"
  "notif_sleeper (m_k (as_task p \<sigma>)) = notif_sleeper (m_k \<sigma>)" "k_cur (m_k (as_task p \<sigma>)) = p"
  "k_eps (m_k (as_task p \<sigma>)) = k_eps (m_k \<sigma>)" "k_tasks (m_k (as_task p \<sigma>)) = k_tasks (m_k \<sigma>)"
  "k_max_tasks (m_k (as_task p \<sigma>)) = k_max_tasks (m_k \<sigma>)"
  by (simp_all add: as_task_def wait_inv_def ep_sleeper_def notif_sleeper_def fun_eq_iff)

lemma runs_calm: "runs p \<sigma> \<Longrightarrow> wait_inv D (m_k \<sigma>) \<Longrightarrow> calm D p (m_k (as_task p \<sigma>))"
  by (simp add: calm_def runs_def as_task_view)

lemma calm_handlers:
  assumes "swap_frame sw" "calm D (k_cur (m_k \<sigma>)) (m_k \<sigma>)"
  shows "wait_inv D (m_k (snd (h_ipc_send sw r \<sigma>)))" "wait_inv D (m_k (snd (h_ipc_recv sw r \<sigma>)))"
    "wait_inv D (m_k (snd (h_ipc_reply sw r \<sigma>)))"
    "wait_inv D (m_k (snd (h_ipc_call sw r \<sigma>)))" "wait_inv D (m_k (snd (h_ipc_call_cap sw r \<sigma>)))"
    "wait_inv D (m_k (snd (h_ipc_reply_to sw r \<sigma>)))" "wait_inv D (m_k (snd (h_ipc_reply_cap sw r \<sigma>)))"
  using calm_send[OF assms, THEN calm_wait] calm_recv[OF assms, THEN calm_wait] calm_call[OF assms, THEN calm_wait]
    calm_reply[OF assms, THEN calm_wait] calm_wait[OF assms(2)]
  by (auto simp: h_ipc_send_def h_ipc_recv_def h_ipc_reply_def sys_ipc_reply_def h_ipc_call_def h_ipc_call_cap_def
      h_ipc_reply_to_def h_ipc_reply_cap_def Let_def case_prod_beta split: option.splits)

lemma wait_other:
  assumes "leaves_sleepers s s'" "wait_inv D s"
  shows "wait_inv D s'"
proof -
  have m: "k_max_tasks s' = k_max_tasks s" using assms(1) by (simp add: leaves_sleepers_def)
  have k: "t_state (k_tasks s' t) = t_state (k_tasks s t) \<and> t_blocked_on (k_tasks s' t) = t_blocked_on (k_tasks s t)
      \<and> t_blocked_on_notif (k_tasks s' t) = t_blocked_on_notif (k_tasks s t) \<and> t_saved_ksp (k_tasks s' t) = t_saved_ksp (k_tasks s t)"
    if "asleep s' t" "t < k_max_tasks s" for t
    using assms(1) that by (simp add: leaves_sleepers_def list_all_iff Let_def)
  have e: "ep_sleeper s t i \<and> k_eps s' i = k_eps s i \<and> t_saved_ksp (k_tasks s' t) = t_saved_ksp (k_tasks s t)" if "ep_sleeper s' t i" for t i
    using k[of t] that assms(1) m unfolding leaves_sleepers_def ep_sleeper_def asleep_def by metis
  have n: "notif_sleeper s t i \<and> k_notifs s' i = k_notifs s i \<and> t_saved_ksp (k_tasks s' t) = t_saved_ksp (k_tasks s t)" if "notif_sleeper s' t i" for t i
    using k[of t] that assms(1) m unfolding leaves_sleepers_def notif_sleeper_def asleep_def by metis
  have "t_saved_ksp (k_tasks s' t) \<noteq> 0 \<and> (t \<in> D \<or> ep_blocked_waiter (k_eps s' i) = int t)
      \<and> (ep_blocked_waiter (k_eps s' i) = int t \<longrightarrow> ep_empty (k_eps s' i))" if "ep_sleeper s' t i" for t i
    using e[OF that] wait_invD(1)[OF assms(2), of t i] by simp
  moreover have "t_saved_ksp (k_tasks s' t) \<noteq> 0 \<and> (t \<in> D \<or> nt_blocked_waiter (k_notifs s' i) = int t)
      \<and> (nt_blocked_waiter (k_notifs s' i) = int t \<longrightarrow> nt_pending_badge (k_notifs s' i) = 0)" if "notif_sleeper s' t i" for t i
    using n[OF that] wait_invD(2)[OF assms(2), of t i] by simp
  ultimately show ?thesis unfolding wait_inv_def by blast
qed

lemma wait_inv_asleep:
  assumes "wait_inv (D \<union> B) s"
  shows "wait_inv ({t \<in> D. asleep s t} \<union> B) s"
proof -
  have "ep_sleeper s t i \<Longrightarrow> asleep s t" "notif_sleeper s t i \<Longrightarrow> asleep s t" for t i
    by (simp_all add: ep_sleeper_def notif_sleeper_def asleep_def)
  thus ?thesis using assms unfolding wait_inv_def by blast
qed

lemma wait_step_kept:
  assumes "ipc_step sw \<sigma> \<sigma>'" "swap_frame sw" "wait_inv D (m_k \<sigma>)"
  shows "wait_inv (D \<union> overtaken (m_k \<sigma>) (m_k \<sigma>')) (m_k \<sigma>')"
proof -
  have c: "calm D (k_cur (m_k (as_task p \<sigma>))) (m_k (as_task p \<sigma>))" if "runs p \<sigma>" for p
    using runs_calm[OF that assms(3)] by (simp add: as_task_view)
  note H = calm_handlers[OF assms(2) c] and W = calm_wait[OF c]
  have k: "wait_inv D (m_k \<sigma>') \<Longrightarrow> ?thesis" by (rule wait_inv_mono) auto
  show ?thesis using assms(1)
  proof cases
    case (step_publish p x)
    have "calm D (nat (int p)) (m_k (as_task p \<sigma>))" using c[OF step_publish(1)] by (simp add: as_task_view)
    from wait_publish[OF assms(2) this step_publish(2)] show ?thesis by (simp add: overtaken_def as_task_view)
  next
    case (step_send_locked p auth i msg len iv rc)
    thus ?thesis using k calm_send_locked[OF assms(2) c[OF step_send_locked(1)], THEN calm_wait] by (metis snd_conv)
  next
    case (step_recv_locked p auth i msg max_len rc)
    thus ?thesis using k calm_recv_locked[OF assms(2) c[OF step_recv_locked(1)], THEN calm_wait] by (metis snd_conv)
  next
    case (step_recv_commit p ep r)
    have "wait_inv D (m_k \<sigma>')" unfolding step_recv_commit(1) recv_block_commit_def m_k_upd
      by (rule wait_inv_task_awake[OF assms(3)]) (use step_recv_commit(2) in \<open>simp_all add: runs_def\<close>)
    thus ?thesis by (rule k)
  next
    case (step_notify p r x s')
    thus ?thesis using k wait_notify[OF W, of p] W[of p] by (auto simp: h_notify_def Let_def case_prod_beta split: option.splits)
  next
    case (step_wait p r)
    thus ?thesis using k wait_wait_notify[OF c, of p] W[of p]
      by (auto simp: upd_k3_def h_wait_notify_def Let_def case_prod_beta split: option.splits)
  next
    case (step_poll p r)
    thus ?thesis using k wait_poll[OF W, of p] W[of p]
      by (auto simp: upd_k3_def h_poll_notify_def Let_def case_prod_beta split: option.splits)
  next
    case (step_unpublish p)
    thus ?thesis using k wait_unpublish[OF assms(3)] by simp
  next
    case step_other
    thus ?thesis using k wait_other assms(3) by blast
  qed (use H k in \<open>metis snd_conv\<close>)+
qed

lemmas wait_step = wait_inv_asleep[OF wait_step_kept]

section \<open>Sleepers are woken\<close>

definition nobody_asleep :: "kstate \<Rightarrow> bool" where
  "nobody_asleep s \<longleftrightarrow> list_all (\<lambda>t. \<not> asleep s t) [0..<k_max_tasks s]"

lemma nobody_asleep_inv: "nobody_asleep s \<Longrightarrow> wait_inv {} s"
  by (auto simp: nobody_asleep_def asleep_def list_all_iff wait_inv_def ep_sleeper_def notif_sleeper_def)

text \<open>A run of the system: it starts with nobody asleep, and \<open>D\<close> collects the tasks that were
  overtaken in their sleep and have not been woken since.\<close>

inductive ipc_run :: "'d swap_ops \<Rightarrow> nat set \<Rightarrow> 'd mach \<Rightarrow> bool" for sw where
  run_start: "nobody_asleep (m_k \<sigma>) \<Longrightarrow> ipc_run sw {} \<sigma>"
| run_step: "ipc_run sw D \<sigma> \<Longrightarrow> ipc_step sw \<sigma> \<sigma>' \<Longrightarrow> ipc_run sw ({t \<in> D. asleep (m_k \<sigma>') t} \<union> overtaken (m_k \<sigma>) (m_k \<sigma>')) \<sigma>'"

lemma wait_run: "ipc_run sw D \<sigma> \<Longrightarrow> swap_frame sw \<Longrightarrow> wait_inv D (m_k \<sigma>)"
  by (induction rule: ipc_run.induct) (auto intro: nobody_asleep_inv wait_step)

lemma send_to_sleeper:
  assumes sw: "swap_frame sw" and w: "calm D c (m_k \<sigma>)" and t: "ep_sleeper (m_k \<sigma>) t i" "t \<notin> D"
    and r: "sys_ipc_send sw i msg len iv \<sigma> = (rc, \<sigma>')"
  shows "rc = -1 \<or> rc = 0 \<and> t_state (k_tasks (m_k \<sigma>') t) = TASK_RUNNABLE \<and> t_blocked_on (k_tasks (m_k \<sigma>') t) = -1
    \<and> ep_empty (k_eps (m_k \<sigma>') i)"
proof -
  let ?s = "m_k \<sigma>"
  have e: "ep_blocked_waiter (k_eps ?s i) = int t" "ep_empty (k_eps ?s i)" using calm_wait[OF w] t by (auto simp: wait_inv_def)
  have b: "0 < t" "t < k_max_tasks ?s" "t_state (k_tasks ?s t) = TASK_BLOCKED_IPC" using t by (auto simp: ep_sleeper_def)
  have h: "handing D c i t ?s" using w e by (simp add: handing_def)
  have l: "rc = -1 \<or> send_waiter sw i t msg l iv \<sigma> = (rc, \<sigma>')" if "ipc_send_locked sw auth i msg l iv \<sigma> = (rc, \<sigma>')" for auth l
    using that e b by (auto simp: ipc_send_locked_def Let_def split: if_splits)
  have "rc = -1 \<or> (\<exists>l. send_waiter sw i t msg l iv \<sigma> = (rc, \<sigma>'))"
    using r l by (auto simp: sys_ipc_send_def dest!: by_index_same split: option.splits)
  thus ?thesis using send_waiter_handing[OF sw h] by (fastforce simp: handing_def make_runnable_def ep_empty_def)
qed

text \<open>C2. No wake-up is lost on an endpoint, unless another task overtakes the sleeper.  In any
  run that starts with nobody asleep, over IPC calls of any tasks, locked sections of calls under way,
  publications and withdrawals of blocks and other steps of the kernel, a task asleep on an endpoint
  that no other task has gone to sleep on since is the waiter the endpoint names, with a saved frame,
  and the queue is empty; and when a running task sends to that endpoint and the call answers 0, the
  sleeper is runnable again and the queue is still empty, the message having been handed over.\<close>

theorem send_wakes_sleeper:
  assumes "swap_frame sw" "ipc_run sw D \<sigma>" "ep_sleeper (m_k \<sigma>) t i" "t \<notin> D" "runs p \<sigma>"
    and "ipc_ep_and_invoker (m_k (as_task p \<sigma>)) (low_slot (r_rbx r)) CAP_RIGHT_WRITE = Some (i, iv, ser)"
    and "h_ipc_send sw r (as_task p \<sigma>) = (0, \<sigma>')"
  shows "ep_blocked_waiter (k_eps (m_k \<sigma>) i) = int t \<and> ep_empty (k_eps (m_k \<sigma>) i) \<and> t_saved_ksp (k_tasks (m_k \<sigma>) t) \<noteq> 0
    \<and> t_state (k_tasks (m_k \<sigma>') t) = TASK_RUNNABLE \<and> t_blocked_on (k_tasks (m_k \<sigma>') t) = -1 \<and> ep_empty (k_eps (m_k \<sigma>') i)"
proof -
  have w: "wait_inv D (m_k \<sigma>)" using wait_run[OF assms(2,1)] .
  obtain rc where rc: "sys_ipc_send sw i (r_rcx r) (r_rdx r) (Some iv) (as_task p \<sigma>) = (rc, \<sigma>')" "rax64 rc = 0"
    using assms(6,7) by (auto simp: h_ipc_send_def Let_def split: prod.splits)
  have "rc \<noteq> -1" using rc(2) by (auto simp: rax64_def)
  with send_to_sleeper[OF assms(1) runs_calm[OF assms(5) w] _ assms(4) rc(1)]
  show ?thesis using w assms(3,4) by (auto simp: as_task_view wait_inv_def)
qed

text \<open>C27. No wake-up is lost on a notification either: over the same runs a task asleep on a
  notification that no other task has gone to sleep on since is its waiter and no badge is pending, and a
  notification sent there makes it runnable, returns 0 and exactly the badge sent to it and leaves none pending.\<close>

theorem notify_wakes_sleeper:
  assumes "swap_frame sw" "ipc_run sw D \<sigma>" "notif_sleeper (m_k \<sigma>) t i" "t \<notin> D" "sys_notify i badge (m_k \<sigma>) = (0, s')"
  shows "nt_blocked_waiter (k_notifs (m_k \<sigma>) i) = int t \<and> nt_pending_badge (k_notifs (m_k \<sigma>) i) = 0
    \<and> t_state (k_tasks s' t) = TASK_RUNNABLE \<and> t_frame_rax (k_tasks s' t) = 0 \<and> t_frame_rbx (k_tasks s' t) = ucast badge
    \<and> nt_pending_badge (k_notifs s' i) = 0 \<and> nt_blocked_waiter (k_notifs s' i) = -1"
proof -
  have w: "wait_inv D (m_k \<sigma>)" using wait_run[OF assms(2,1)] .
  have n: "nt_blocked_waiter (k_notifs (m_k \<sigma>) i) = int t" "nt_pending_badge (k_notifs (m_k \<sigma>) i) = 0" "t_saved_ksp (k_tasks (m_k \<sigma>) t) \<noteq> 0"
    using w assms(3,4) by (auto simp: wait_inv_def)
  show ?thesis using assms(3,5) n
    by (auto simp: sys_notify_def notif_sleeper_def make_runnable_def Let_def split: option.splits if_splits dest!: by_index_same)
qed

section \<open>The blocking receive\<close>

lemma rax32_again:
  assumes "- (2 ^ 31) \<le> rc" "rc < 2 ^ 31" "rc \<noteq> -2"
  shows "rax32 rc \<noteq> rax32 (-2)"
proof
  assume e: "rax32 rc = rax32 (-2)"
  have "(ucast (ucast z :: u64) :: u32) = z" for z :: u32 by (rule bit_word_eqI) (simp add: bit_simps)
  hence "(of_int rc :: u32) = of_int (-2)" using e unfolding rax32_def by metis
  hence "sint (of_int rc :: u32) = sint (of_int (-2) :: u32)" by simp
  moreover have "signed_take_bit 31 rc = rc" using assms by (simp add: signed_take_bit_int_eq_self_iff)
  ultimately show False using assms(3) by (simp add: signed_of_int)
qed

lemma recv_rc_range:
  assumes "sys_ipc_recv sw ep msg mx \<sigma> = (rc, \<sigma>')"
  shows "- (2 ^ 31) \<le> rc" "rc < 2 ^ 31"
proof -
  have m: "- (2 ^ 31) \<le> int_of_size mx" "int_of_size mx < 2 ^ 31"
    using sint_greater_eq[of "ucast mx :: u32"] sint_less[of "ucast mx :: u32"] by (simp_all add: int_of_size_def)
  have d: "- (2 ^ 31) \<le> l \<and> l < 2 ^ 31" if "ep_dequeue (int_of_size mx) e = (l, x)" for e l x
    using that m by (auto simp: ep_dequeue_def Let_def)
  show "- (2 ^ 31) \<le> rc" "rc < 2 ^ 31" using assms d
    by (auto simp: sys_ipc_recv_def ipc_recv_locked_def Let_def split: option.splits prod.splits if_splits)
qed

text \<open>A round that starts over has found the queue empty or shortened it by one message.\<close>

lemma recv_again:
  assumes "swap_frame sw" "sys_ipc_recv sw ep msg mx \<sigma> = (-2, \<sigma>')"
  shows "ep_count (k_eps (m_k \<sigma>') ep) \<le> ep_count (k_eps (m_k \<sigma>) ep) - 1"
proof (cases "ep_empty (k_eps (m_k \<sigma>) ep)")
  case True
  have "ep_count (k_eps (m_k \<sigma>') ep) = 0 \<or> False"
    using assms(2) True by (auto simp: sys_ipc_recv_def ipc_recv_locked_def Let_def ep_empty_def dest!: by_index_same split: option.splits)
  thus ?thesis by simp
next
  case False
  show ?thesis using recv_frame(2)[OF assms refl False] by simp
qed

lemma recv_loop_ends:
  assumes sw: "swap_frame sw"
  shows "(\<And>n \<sigma>. ep_count (k_eps (m_k (env n \<sigma>)) ep) \<le> ep_count (k_eps (m_k \<sigma>) ep) + a n) \<Longrightarrow>
    ep_count (k_eps (m_k \<sigma>) ep) + (\<Sum>n<2 * fuel. a n) < fuel \<Longrightarrow>
    \<exists>v \<sigma>'. recv_block_loop fuel env sw cur ep r \<sigma> = Some (v, \<sigma>') \<and> v \<noteq> rax32 (-2)"
proof (induction fuel arbitrary: \<sigma> env a)
  case (Suc fuel)
  let ?c = "\<lambda>\<sigma>. ep_count (k_eps (m_k \<sigma>) ep)" and ?\<sigma> = "env 1 (env 0 \<sigma>)"
  obtain rc \<sigma>2 where x: "sys_ipc_recv sw ep (r_rcx r) (r_rdx r) ?\<sigma> = (rc, \<sigma>2)" by (cases "sys_ipc_recv sw ep (r_rcx r) (r_rdx r) ?\<sigma>")
  note un = recv_block_loop.simps(2)[of fuel env sw cur ep r \<sigma>, unfolded Let_def x prod.case]
  have z: "(0 :: u64) \<noteq> rax32 (-2)" using rax32_neg(2) by metis
  show ?case
  proof (cases "ep_empty (k_eps (m_k (env 0 \<sigma>)) ep)")
    case True
    thus ?thesis using z unfolding un by auto
  next
    case ne: False
    show ?thesis
    proof (cases "rc = -2")
      case False
      thus ?thesis using ne rax32_again[OF recv_rc_range[OF x]] unfolding un by auto
    next
      case again: True
      have s: "(\<Sum>n<2 * Suc fuel. a n) = a 0 + a 1 + (\<Sum>n<2 * fuel. a (n + 2))"
        by (simp add: sum.lessThan_Suc_shift del: sum.lessThan_Suc)
      have c: "?c ?\<sigma> \<le> ?c \<sigma> + a 0 + a 1" using Suc.prems(1)[of 0 \<sigma>] Suc.prems(1)[of 1 "env 0 \<sigma>"] by linarith
      have "?c \<sigma>2 \<le> ?c ?\<sigma> - 1" using recv_again[OF sw] x again by blast
      moreover have "0 < ?c \<sigma> + a 0" using ne Suc.prems(1)[of 0 \<sigma>] unfolding ep_empty_def by linarith
      ultimately have "?c \<sigma>2 + (\<Sum>n<2 * fuel. a (n + 2)) < fuel" using c Suc.prems(2) s by linarith
      from Suc.IH[of "\<lambda>n. env (n + 2)" "\<lambda>n. a (n + 2)", OF Suc.prems(1) this]
      show ?thesis using ne again unfolding un by simp
    qed
  qed
qed simp

text \<open>C39. The blocking receive returns and never answers that the caller should try again.  Whatever
  the other processors do each time its endpoint lock is free, the loop ends within \<open>fuel\<close> rounds as soon as
  these exceed the messages queued at the start and those that are added in the meantime together, and the
  value it returns is not -2, however the length the caller asks for is read.\<close>

theorem blocking_receive_returns:
  assumes "swap_frame sw"
    and "\<And>ep. ipc_ep_from_slot (m_k \<sigma>) (low_slot (r_rbx r)) CAP_RIGHT_READ = Some ep \<Longrightarrow>
          (\<forall>n \<sigma>. ep_count (k_eps (m_k (env n \<sigma>)) ep) \<le> ep_count (k_eps (m_k \<sigma>) ep) + a n)
        \<and> ep_count (k_eps (m_k \<sigma>) ep) + (\<Sum>n<2 * fuel. a n) < fuel"
  shows "\<exists>v \<sigma>'. h_ipc_recv_block fuel env sw r \<sigma> = Some (v, \<sigma>') \<and> v \<noteq> rax32 (-2)"
proof (cases "ipc_ep_from_slot (m_k \<sigma>) (low_slot (r_rbx r)) CAP_RIGHT_READ")
  case None
  have "rax32 SYS_ERR_PERM \<noteq> rax32 (-2)" by (rule rax32_again) simp_all
  thus ?thesis by (simp add: h_ipc_recv_block_def Let_def None)
next
  case (Some ep)
  have "rax32 (-1) \<noteq> rax32 (-2)" by (rule rax32_again) simp_all
  thus ?thesis using recv_loop_ends[OF assms(1), of env ep a \<sigma> fuel "k_cur (m_k \<sigma>)" r] assms(2)[OF Some]
    by (simp add: h_ipc_recv_block_def Let_def Some)
qed

text \<open>The loop as steps of the system: the test and the commitment in one step, the
  receive in another, and between them what the others do.\<close>

lemma recv_keeps_running:
  assumes "swap_frame sw" "sys_ipc_recv sw ep msg mx \<sigma> = (rc, \<sigma>')" "runs p \<sigma>"
  shows "runs p \<sigma>'"
proof -
  have c: "t_state (k_tasks (m_k a') t) = t_state (k_tasks (m_k a) t)" if "copy_to_user sw msg b a = (x, a')" for b x a a' t
    using ipcv_tcb(1)[OF ipcv_copy_to[OF assms(1), of msg b a]] that by simp
  show ?thesis using assms(2,3) unfolding sys_ipc_recv_def ipc_recv_locked_def Let_def runs_def
    by (auto simp: ipcv_tcb(1)[OF ipcv_install_object] c split: option.splits prod.splits if_splits)
qed

lemma as_task_same: "k_cur (m_k \<sigma>) = p \<Longrightarrow> as_task p \<sigma> = \<sigma>"
  by (auto simp: as_task_def upd_k_def)

lemma recv_loop_steps:
  assumes sw: "swap_frame sw"
  shows "(\<And>n \<sigma>. runs p \<sigma> \<Longrightarrow> k_cur (m_k \<sigma>) = p \<Longrightarrow> (ipc_step sw)\<^sup>*\<^sup>* \<sigma> (env n \<sigma>) \<and> runs p (env n \<sigma>) \<and> k_cur (m_k (env n \<sigma>)) = p) \<Longrightarrow>
    runs p \<sigma> \<Longrightarrow> k_cur (m_k \<sigma>) = p \<Longrightarrow> recv_block_loop fuel env sw p ep r \<sigma> = Some (x, \<sigma>') \<Longrightarrow> (ipc_step sw)\<^sup>*\<^sup>* \<sigma> \<sigma>'"
proof (induction fuel arbitrary: \<sigma> env)
  case (Suc fuel)
  let ?\<sigma>0 = "env 0 \<sigma>" and ?\<sigma>1 = "env 1 (env 0 \<sigma>)"
  note e0 = Suc.prems(1)[OF Suc.prems(2,3), of 0]
  have e1: "(ipc_step sw)\<^sup>*\<^sup>* ?\<sigma>0 ?\<sigma>1" "runs p ?\<sigma>1" "k_cur (m_k ?\<sigma>1) = p" using Suc.prems(1)[of ?\<sigma>0 1] e0 by blast+
  obtain rc \<sigma>2 where x: "sys_ipc_recv sw ep (r_rcx r) (r_rdx r) ?\<sigma>1 = (rc, \<sigma>2)" by (cases "sys_ipc_recv sw ep (r_rcx r) (r_rdx r) ?\<sigma>1")
  note l = Suc.prems(4)[unfolded recv_block_loop.simps Let_def x prod.case]
  show ?case
  proof (cases "ep_empty (k_eps (m_k ?\<sigma>0) ep)")
    case True
    have "ipc_step sw ?\<sigma>0 \<sigma>'" using l True step_recv_commit[OF _ True, of p sw r] e0 by simp
    thus ?thesis using e0 by (meson rtranclp.rtrancl_into_rtrancl)
  next
    case False
    have "(ipc_step sw)\<^sup>*\<^sup>* ?\<sigma>1 \<sigma>2"
    proof (cases "endpoint_by_index (m_k ?\<sigma>1) ep")
      case None
      thus ?thesis using x by (simp add: sys_ipc_recv_def)
    next
      case (Some i)
      have "ipc_step sw ?\<sigma>1 \<sigma>2"
        using x Some e1(2,3) by (intro step_recv_locked[of p ?\<sigma>1]) (simp_all add: sys_ipc_recv_def as_task_same)
      thus ?thesis by (rule r_into_rtranclp)
    qed
    hence s: "(ipc_step sw)\<^sup>*\<^sup>* \<sigma> \<sigma>2" using e0 e1(1) by (meson rtranclp_trans)
    have "k_cur (m_k \<sigma>2) = p" using recv_frame(1)[OF sw x] e1(3) by simp
    with Suc.IH[of "\<lambda>n. env (n + 2)" \<sigma>2, OF Suc.prems(1) recv_keeps_running[OF sw x e1(2)]]
    show ?thesis using l False s by (auto split: if_splits intro: rtranclp_trans)
  qed
qed simp

section \<open>The reply right\<close>

lemma cspace_view:
  assumes "ipcv s' = ipcv s"
  shows "get_cspace s' t = get_cspace s t" "get_sz s' t = get_sz s t"
proof -
  have "(k_tasks s' t)\<lparr> t_inuse := 0 \<rparr> = (k_tasks s t)\<lparr> t_inuse := 0 \<rparr>" using assms by (auto simp: ipcv_def fun_eq_iff)
  thus "get_cspace s' t = get_cspace s t" "get_sz s' t = get_sz s t"
    by (cases "k_tasks s' t", cases "k_tasks s t", simp add: get_cspace_def get_sz_def cspace_sz_def)+
qed

lemma cspace_wake: "get_cspace (wake_caller t s) u = get_cspace s u" "get_sz (wake_caller t s) u = get_sz s u" "k_cur (wake_caller t s) = k_cur s"
  by (auto simp: wake_caller_def Let_def get_cspace_def get_sz_def cspace_sz_def make_runnable_def split: option.splits)

lemma consumed_gone:
  assumes "get_cspace s (k_cur s) = Some cs" "21 < get_sz s (k_cur s)"
  shows "cap_lookup (consume_reply s) CAPSLOT_REPLY ty rights = None"
proof -
  let ?s = "consume_reply s"
  have v: "get_cspace ?s (k_cur ?s) = Some cs"
    using cspace_view(1)[OF ipcv_consume(2)] ipcv_sel(4)[OF ipcv_consume(2)] assms(1) by simp
  have "c_typ (k_mem ?s (Slot cs 21)) = CAP_NULL"
    using assms by (auto simp: consume_reply_def cap_consume_slot_def drop_cap_def slot_null_def null_cap_def Let_def)
  thus ?thesis using v
    by (auto simp: cap_lookup_def cap_current_cspace_def rust_cap_lookup_typed_def rust_cap_lookup_def Let_def)
qed

lemma reply_spends:
  assumes sw: "swap_frame sw" and c: "0 < k_cur (m_k \<sigma>)" and r: "ipc_reply_common sw r mint mr mt \<sigma> = (0, \<sigma>')"
  shows "cap_lookup (m_k \<sigma>') CAPSLOT_REPLY CAP_REPLY CAP_RIGHT_WRITE = None"
proof -
  obtain a where a: "cap_lookup (m_k \<sigma>) CAPSLOT_REPLY CAP_REPLY CAP_RIGHT_WRITE = Some a" using reply_ends[OF sw r] by auto
  obtain cs where cs: "get_cspace (m_k \<sigma>) (k_cur (m_k \<sigma>)) = Some cs" "21 < get_sz (m_k \<sigma>) (k_cur (m_k \<sigma>))"
    using a c by (auto simp: cap_lookup_def cap_current_cspace_Some split: option.splits)
  have e: "get_cspace (upd_task t (\<lambda>x. x\<lparr> t_frame_rax := v \<rparr>) s) u = get_cspace s u" "get_sz (upd_task t (\<lambda>x. x\<lparr> t_frame_rax := v \<rparr>) s) u = get_sz s u" for t v s u
    by (simp_all add: get_cspace_def get_sz_def cspace_sz_def)
  have "\<exists>s. m_k \<sigma>' = consume_reply s \<and> get_cspace s (k_cur s) = Some cs \<and> 21 < get_sz s (k_cur s)"
    using reply_ends[OF sw r]
  proof (elim disjE conjE exE)
    fix a v s assume v: "ipcv s = ipcv (m_k \<sigma>)"
      and m: "m_k \<sigma>' = consume_reply (wake_caller (reply_target (m_k \<sigma>) a) (upd_task (reply_target (m_k \<sigma>) a) (\<lambda>x. x\<lparr> t_frame_rax := v \<rparr>) s))"
    show ?thesis using cs m
      by (intro exI[of _ "wake_caller (reply_target (m_k \<sigma>) a) (upd_task (reply_target (m_k \<sigma>) a) (\<lambda>x. x\<lparr> t_frame_rax := v \<rparr>) s)"])
        (simp add: cspace_wake e cspace_view[OF v] ipcv_sel(4)[OF v])
  qed (use cs in auto)
  thus ?thesis using consumed_gone by auto
qed

text \<open>C24. A reply right answers once.  After any reply that returns 0, delivered or dropped, the
  task that made it holds no reply right any more: whatever it tries next, with or without a
  capability, is refused and changes nothing.\<close>

theorem reply_right_one_shot:
  assumes "swap_frame sw" "0 < k_cur (m_k \<sigma>)" "ipc_reply_common sw r mint mr mt \<sigma> = (0, \<sigma>')"
  shows "ipc_reply_common sw r' mint' mr' mt' \<sigma>' = (rax32 SYS_ERR_PERM, \<sigma>')"
  using reply_spends[OF assms] by (simp add: ipc_reply_common_def Let_def split: option.splits)

lemma reply_object_split: "obj = reply_object (unat (obj AND 0xFFFF)) (drop_bit 16 obj)"
proof (rule bit_word_eqI)
  fix n assume "n < LENGTH(64)"
  have m: "(0xFFFF :: u64) = mask 16" by (simp add: mask_eq_exp_minus_1)
  show "bit obj n = bit (reply_object (unat (obj AND 0xFFFF)) (drop_bit 16 obj)) n"
    using \<open>n < LENGTH(64)\<close> unfolding reply_object_def m by (auto simp: bit_simps not_le)
qed

text \<open>C5. A reply reaches only the caller it is for.  Whatever a reply changes in the control
  block of a task (its capability count apart), that task is the one the reply right names, in
  the incarnation it names, and it was blocked waiting for a reply, not for a request.\<close>

theorem reply_reaches_only_its_caller:
  assumes "swap_frame sw" "ipc_reply_common sw r mint mr mt \<sigma> = (rax, \<sigma>')"
    and "(k_tasks (m_k \<sigma>') u)\<lparr> t_inuse := 0 \<rparr> \<noteq> (k_tasks (m_k \<sigma>) u)\<lparr> t_inuse := 0 \<rparr>"
  shows "\<exists>a. cap_lookup (m_k \<sigma>) CAPSLOT_REPLY CAP_REPLY CAP_RIGHT_WRITE = Some a
    \<and> c_object (k_mem (m_k \<sigma>) a) = reply_object u (t_slot_gen (k_tasks (m_k \<sigma>) u))
    \<and> t_state (k_tasks (m_k \<sigma>) u) = TASK_BLOCKED_IPC \<and> \<not> t_ipc_recv_block (k_tasks (m_k \<sigma>) u) \<and> rax = 0"
proof -
  have v: "(k_tasks s' u)\<lparr> t_inuse := 0 \<rparr> = (k_tasks s u)\<lparr> t_inuse := 0 \<rparr>" if "ipcv s' = ipcv s" for s s'
    using that by (auto simp: ipcv_def fun_eq_iff)
  have wk: "k_tasks (wake_caller t (upd_task t f s)) u = k_tasks s u" if "u \<noteq> t" for t f s
    using that by (auto simp: wake_caller_def Let_def split: option.splits)
  have "\<exists>a. cap_lookup (m_k \<sigma>) CAPSLOT_REPLY CAP_REPLY CAP_RIGHT_WRITE = Some a \<and> awaits_reply (m_k \<sigma>) a \<and> u = reply_target (m_k \<sigma>) a \<and> rax = 0"
    using reply_ends[OF assms(1,2)]
  proof (elim disjE conjE exE)
    fix a b s assume a: "cap_lookup (m_k \<sigma>) CAPSLOT_REPLY CAP_REPLY CAP_RIGHT_WRITE = Some a" "awaits_reply (m_k \<sigma>) a" "rax = 0"
      and i: "ipcv s = ipcv (m_k \<sigma>)"
      and m: "m_k \<sigma>' = consume_reply (wake_caller (reply_target (m_k \<sigma>) a) (upd_task (reply_target (m_k \<sigma>) a) (\<lambda>x. x\<lparr> t_frame_rax := b \<rparr>) s))"
    have "u = reply_target (m_k \<sigma>) a"
      using assms(3) v[OF ipcv_consume(2)] v[OF i] wk unfolding m by metis
    thus ?thesis using a by blast
  next
    assume "ipcv (m_k \<sigma>') = ipcv (m_k \<sigma>)"
    from v[OF this] show ?thesis using assms(3) by blast
  next
    assume "\<sigma>' = upd_k consume_reply \<sigma>"
    thus ?thesis using v[OF ipcv_consume(2)[of "m_k \<sigma>"]] assms(3) by simp
  qed
  thus ?thesis
    using reply_object_split by (auto simp: awaits_reply_def reply_target_def Let_def)
qed

section \<open>A second receiver\<close>

text \<open>C40. The waiter of an endpoint is one field, which publishing a block overwrites.  When a
  task publishes a block on an endpoint another task already sleeps on, both sleep there and
  the endpoint names only the newcomer; the next send that succeeds wakes the newcomer and
  leaves the first one asleep on an endpoint that names no waiter.\<close>

theorem second_receiver_displaces_first:
  assumes "swap_frame sw" "ep_sleeper (m_k \<sigma>) t i" "c \<noteq> t" "0 < c" "c < k_max_tasks (m_k \<sigma>)"
    and "t_pending_block (k_tasks (m_k \<sigma>) c) = TASK_BLOCKED_IPC" "t_saved_ksp (k_tasks (m_k \<sigma>) c) \<noteq> 0"
    and "t_blocked_on (k_tasks (m_k \<sigma>) c) = int i" "endpoint_by_index (m_k \<sigma>) i = Some i" "ep_empty (k_eps (m_k \<sigma>) i)"
    and p: "ipc_publish_pending_block sw (int c) \<sigma> = (b, \<sigma>1)" and s: "sys_ipc_send sw i msg len iv (as_task p \<sigma>1) = (0, \<sigma>2)"
  shows "b \<and> ep_sleeper (m_k \<sigma>1) t i \<and> ep_sleeper (m_k \<sigma>1) c i \<and> ep_blocked_waiter (k_eps (m_k \<sigma>1) i) = int c
    \<and> ep_sleeper (m_k \<sigma>2) t i \<and> \<not> ep_sleeper (m_k \<sigma>2) c i \<and> ep_blocked_waiter (k_eps (m_k \<sigma>2) i) = -1"
proof -
  have s1: "b \<and> m_k \<sigma>1 = upd_task c (\<lambda>t. t\<lparr> t_pending_block := 0, t_state := TASK_BLOCKED_IPC, t_runnable_ctx := False \<rparr>)
                   (upd_ep i (\<lambda>e. e\<lparr> ep_blocked_waiter := int c \<rparr>) (m_k \<sigma>))"
    using p assms(4-10) by (auto simp: ipc_publish_pending_block_def publish_ipc_def Let_def)
  hence a: "ep_sleeper (m_k \<sigma>1) t i" "ep_sleeper (m_k \<sigma>1) c i" "ep_blocked_waiter (k_eps (m_k \<sigma>1) i) = int c" "ep_empty (k_eps (m_k \<sigma>1) i)"
    using assms(2-5,8,10) by (auto simp: ep_sleeper_def ep_empty_def)
  have a': "ep_sleeper (m_k (as_task p \<sigma>1)) t i" using a(1) by (simp add: as_task_view)
  obtain l where l: "send_waiter sw i c msg l iv (as_task p \<sigma>1) = (0, \<sigma>2)"
    using s a by (auto simp: sys_ipc_send_def ipc_send_locked_def ep_sleeper_def Let_def as_task_view dest!: by_index_same split: option.splits if_splits)
  have "\<exists>s. ep_sleeper s t i \<and> m_k \<sigma>2 = upd_task c (\<lambda>t. (make_runnable t)\<lparr> t_blocked_on := -1 \<rparr>) (upd_ep i (\<lambda>e. e\<lparr> ep_blocked_waiter := -1 \<rparr>) s)"
  proof -
    have v: "ep_sleeper x t i \<Longrightarrow> ipcv x' = ipcv x \<Longrightarrow> ep_sleeper x' t i" for x x' using sleeper_view(1)[of x' x] by simp
    have "0 = (-1 :: int) \<and> ep_sleeper (m_k \<sigma>2) t i \<or> 0 = (0 :: int) \<and> ?thesis"
      by (rule send_waiter_ends[where P = "\<lambda>s. ep_sleeper s t i", OF assms(1) a' l])
        (erule (1) v | use assms(3) in \<open>simp add: ep_sleeper_def\<close>)+
    thus ?thesis by simp
  qed
  thus ?thesis using s1 a assms(3) by (auto simp: ep_sleeper_def make_runnable_def)
qed

section \<open>What a queued message says of its sender\<close>

lemma fetch_length: "fetch_msg sw msg len \<sigma> = (Some bs, \<sigma>1) \<Longrightarrow> length bs = len"
  using copy_from_user_length by (fastforce simp: fetch_msg_def Let_def split: prod.splits if_splits)

text \<open>The calls that can queue a message, the buffer each one reads, the endpoint it goes to,
  and what the kernel says of the capabilities used: nothing for a plain reply, the token and the
  rights of the capability in \<open>rbx\<close> otherwise, and those of the one in \<open>r8\<close> where a call carries it.\<close>

datatype send_call = By_send | By_call | By_call_cap | By_reply

fun run_send :: "send_call \<Rightarrow> 'd swap_ops \<Rightarrow> regs \<Rightarrow> 'd mach \<Rightarrow> u64 \<times> 'd mach" where
  "run_send By_send = h_ipc_send"
| "run_send By_call = h_ipc_call"
| "run_send By_call_cap = h_ipc_call_cap"
| "run_send By_reply = h_ipc_reply"

fun call_buf :: "send_call \<Rightarrow> regs \<Rightarrow> u64 \<times> u64" where
  "call_buf By_send r = (r_rcx r, r_rdx r)"
| "call_buf By_call r = (r_rdx r, r_rsi r)"
| "call_buf By_call_cap r = (r_rdx r, r_rsi r)"
| "call_buf By_reply r = (r_rcx r, r_rdx r)"

definition call_target :: "send_call \<Rightarrow> regs \<Rightarrow> kstate \<Rightarrow> nat option" where
  "call_target c r s = (if c = By_reply then ipc_ep_from_slot s (low_slot (r_rbx r)) CAP_RIGHT_WRITE
                        else map_option fst (ipc_ep_and_invoker s (low_slot (r_rbx r)) CAP_RIGHT_WRITE))"

definition cap_says :: "kstate \<Rightarrow> nat \<Rightarrow> u32 \<Rightarrow> ipc_invoker" where
  "cap_says s slot rights =
    (case cap_lookup s slot CAP_ENDPOINT rights of
       None \<Rightarrow> zero_invoker
     | Some a \<Rightarrow> zero_invoker\<lparr> iv_token := c_token (k_mem s a), iv_rights := c_rights (k_mem s a) \<rparr>)"

definition attested :: "send_call \<Rightarrow> regs \<Rightarrow> kstate \<Rightarrow> ipc_invoker" where
  "attested c r s =
    (let iv = cap_says s (low_slot (r_rbx r)) CAP_RIGHT_WRITE; cv = cap_says s (low_slot (r_r8 r)) 0 in
     if c = By_reply then zero_invoker
     else if c = By_call_cap \<and> low_slot (r_r8 r) \<noteq> IPC_NO_CAP
     then iv\<lparr> iv_carried := 1, iv_carry_token := iv_token cv, iv_carry_rights := iv_rights cv \<rparr>
     else iv)"

text \<open>The state in which the message is read: a call has declared its block by then.\<close>

definition declared :: "'d mach \<Rightarrow> 'd mach \<Rightarrow> bool" where
  "declared \<sigma> \<sigma>0 \<longleftrightarrow> \<sigma>0 = \<sigma> \<or> (\<exists>a1 a2 a3 a4 a5 a6. \<sigma>0 = upd_k (upd_task (k_cur (m_k \<sigma>)) (\<lambda>t. t\<lparr> t_ipc_cap_recv_slot := a1,
       t_ipc_inv_slot := a2, t_ipc_inv_serial := a3, t_ipc_reply_buf := a4, t_blocked_on := a5, t_pending_block := a6 \<rparr>)) \<sigma>)"

definition queued :: "'d swap_ops \<Rightarrow> nat \<Rightarrow> u64 \<Rightarrow> u64 \<Rightarrow> ipc_invoker \<Rightarrow> 'd mach \<Rightarrow> 'd mach \<Rightarrow> bool" where
  "queued sw j msg len iv \<sigma> \<sigma>' \<longleftrightarrow>
    (\<exists>bs \<sigma>1. fetch_msg sw msg (min (unat len) IPC_MSG_MAX) \<sigma> = (Some bs, \<sigma>1)
     \<and> ep_msgs (k_eps (m_k \<sigma>') j) = ep_msgs (k_eps (m_k \<sigma>) j)
         @ [(bs, int (k_cur (m_k \<sigma>)), t_slot_gen (k_tasks (m_k \<sigma>) (k_cur (m_k \<sigma>))), iv)])"

lemma ep_msgs_kept:
  "ep_msgs (e\<lparr> ep_last_sender := x, ep_last_sender_gen := y, ep_last_invoker := z \<rparr>) = ep_msgs e"
  "ep_msgs (e\<lparr> ep_blocked_waiter := w \<rparr>) = ep_msgs e"
  by (simp_all add: ep_msgs_def)

lemma waiter_msgs:
  assumes "swap_frame sw" "send_waiter sw i w msg len iv \<sigma> = (rc, \<sigma>')"
  shows "rc \<in> {-1, 0} \<and> ep_msgs (k_eps (m_k \<sigma>') j) = ep_msgs (k_eps (m_k \<sigma>) j)"
proof -
  let ?P = "\<lambda>s. ep_msgs (k_eps s j) = ep_msgs (k_eps (m_k \<sigma>) j)"
  have v: "?P s \<Longrightarrow> ipcv s' = ipcv s \<Longrightarrow> ?P s'" for s s' using ipcv_sel(1)[of s' s] by simp
  have "rc = -1 \<and> ?P (m_k \<sigma>') \<or> rc = 0 \<and> (\<exists>s. ?P s \<and> m_k \<sigma>' = upd_task w (\<lambda>t. (make_runnable t)\<lparr> t_blocked_on := -1 \<rparr>) (upd_ep i (\<lambda>e. e\<lparr> ep_blocked_waiter := -1 \<rparr>) s))"
    by (rule send_waiter_ends[where P = ?P, OF assms(1) _ assms(2)]) (erule (1) v | (simp; fail) | (simp add: ep_msgs_kept; fail) | (cases "j = i"; simp add: ep_msgs_kept))+
  thus ?thesis by (auto simp: ep_msgs_kept)
qed

lemma send_locked_ends:
  assumes sw: "swap_frame sw" and r: "ipc_send_locked sw auth i msg len iv \<sigma> = (rc, \<sigma>')"
  shows "rc \<in> {-2, -1} \<and> ep_msgs (k_eps (m_k \<sigma>') j) = ep_msgs (k_eps (m_k \<sigma>) j)
    \<or> rc \<in> {-1, 0} \<and> 0 < ep_blocked_waiter (k_eps (m_k \<sigma>) i) \<and> ep_msgs (k_eps (m_k \<sigma>') j) = ep_msgs (k_eps (m_k \<sigma>) j)
    \<or> rc = 0 \<and> \<not> ep_full (k_eps (m_k \<sigma>) i)
      \<and> (\<exists>bs \<sigma>1. fetch_msg sw msg len \<sigma> = (Some bs, \<sigma>1) \<and> \<sigma>' = upd_k (\<lambda>s. upd_ep i (ep_enqueue s bs (int len) (int (k_cur s)) iv) s) \<sigma>1)"
proof -
  let ?s = "m_k \<sigma>" and ?e = "k_eps (m_k \<sigma>) i"
  let ?w = "ep_blocked_waiter ?e"
  obtain m \<sigma>1 where f: "fetch_msg sw msg len \<sigma> = (m, \<sigma>1)" by (cases "fetch_msg sw msg len \<sigma>")
  have v: "k_eps (m_k \<sigma>1) = k_eps ?s" using ipcv_sel(1)[OF ipcv_fetch[OF sw, of msg len \<sigma>]] f by simp
  note un = r[unfolded ipc_send_locked_def Let_def f prod.case]
  show ?thesis
  proof (cases "?w > 0 \<and> ?w < int (k_max_tasks ?s) \<and> t_state (k_tasks ?s (nat ?w)) = TASK_BLOCKED_IPC \<and> ep_empty ?e")
    case True
    show ?thesis using un True waiter_msgs[OF sw, of i "nat ?w" msg len iv \<sigma> rc \<sigma>' j] by (cases "auth_stale ?s auth CAP_RIGHT_WRITE") auto
  next
    case False
    note un2 = un[unfolded if_not_P[OF False]]
    show ?thesis using un2 v f by (cases m) (auto split: if_splits)
  qed
qed

lemma send_queues:
  assumes sw: "swap_frame sw" and c: "0 < k_cur (m_k \<sigma>)" "k_cur (m_k \<sigma>) < k_max_tasks (m_k \<sigma>)" and e: "ep_wf (k_eps (m_k \<sigma>) j)"
    and r: "sys_ipc_send sw i msg len iv \<sigma> = (rc, \<sigma>')"
  shows "rc \<in> {-2, -1, 0}"
    and "ep_msgs (k_eps (m_k \<sigma>') j) \<noteq> ep_msgs (k_eps (m_k \<sigma>) j) \<or> rc = 0 \<and> i = j \<and> ep_blocked_waiter (k_eps (m_k \<sigma>) j) \<le> 0 \<Longrightarrow>
      rc = 0 \<and> i = j \<and> queued sw j msg len (case iv of None \<Rightarrow> zero_invoker | Some v \<Rightarrow> v) \<sigma> \<sigma>'"
proof -
  let ?s = "m_k \<sigma>" and ?n = "min (unat len) IPC_MSG_MAX" and ?e = "k_eps (m_k \<sigma>) i"
  let ?w = "ep_blocked_waiter ?e" and ?iv = "case iv of None \<Rightarrow> zero_invoker | Some v \<Rightarrow> v"
  have n: "(if unat len > IPC_MSG_MAX then IPC_MSG_MAX else unat len) = ?n" by auto
  obtain m \<sigma>1 where f: "fetch_msg sw msg ?n \<sigma> = (m, \<sigma>1)" by (cases "fetch_msg sw msg ?n \<sigma>")
  have v: "ipcv (m_k \<sigma>1) = ipcv ?s" using ipcv_fetch[OF sw, of msg ?n \<sigma>] f by simp
  have "rc = -1 \<and> \<sigma>' = \<sigma> \<or> ipc_send_locked sw (auth_snapshot ?s CAP_RIGHT_WRITE) i msg ?n iv \<sigma> = (rc, \<sigma>')"
    using r unfolding sys_ipc_send_def n by (auto split: option.splits dest: by_index_same(1))
  then consider (kept) "rc \<in> {-2, -1}" "ep_msgs (k_eps (m_k \<sigma>') j) = ep_msgs (k_eps ?s j)"
    | (handed) "rc \<in> {-1, 0}" "0 < ?w" "ep_msgs (k_eps (m_k \<sigma>') j) = ep_msgs (k_eps ?s j)"
    | (put) bs where "m = Some bs" "rc = 0" "\<not> ep_full ?e" "\<sigma>' = upd_k (\<lambda>s. upd_ep i (ep_enqueue s bs (int ?n) (int (k_cur s)) iv) s) \<sigma>1"
    using send_locked_ends[OF sw, of "auth_snapshot ?s CAP_RIGHT_WRITE" i msg ?n iv \<sigma> rc \<sigma>' j] unfolding f by auto
  note C = this
  show "rc \<in> {-2, -1, 0}" using C by cases auto
  show "rc = 0 \<and> i = j \<and> queued sw j msg len ?iv \<sigma> \<sigma>'"
    if q: "ep_msgs (k_eps (m_k \<sigma>') j) \<noteq> ep_msgs (k_eps ?s j) \<or> rc = 0 \<and> i = j \<and> ep_blocked_waiter (k_eps ?s j) \<le> 0"
    using C
  proof cases
    case (put bs)
    have ij: "i = j" using q put by (auto simp: ipcv_sel(1)[OF v] split: if_splits)
    have l: "length bs = ?n" using fetch_length f put(1) by blast
    have "ep_msgs (k_eps (m_k \<sigma>') i) = ep_msgs ?e @ [(bs, int (k_cur ?s), slot_gen_of (m_k \<sigma>1) (int (k_cur ?s)), ?iv)]"
      using enqueue_msgs(2)[of ?e bs "m_k \<sigma>1" "int (k_cur ?s)" iv] e put(3) ij
      by (simp add: put(4) ipcv_sel[OF v] l ep_full_def not_le option.case_eq_if)
    thus ?thesis using f put(1,2) ij c
      by (auto simp: queued_def slot_gen_of_def ipcv_sel[OF v] ipcv_tcb[OF v])
  qed (use q in auto)
qed

lemma invoker_says: "ipc_ep_and_invoker s slot rights = Some (ep, iv, ser) \<Longrightarrow> iv = cap_says s slot rights"
  by (auto simp: ipc_ep_and_invoker_def cap_says_def Let_def split: option.splits if_splits)

lemma rax_err: "rax32 SYS_ERR_PERM \<noteq> 0" "rax32 SYS_ERR_INVAL \<noteq> 0" "rax32 (-1) \<noteq> 0" "rax32 (-2) \<noteq> 0"
  by code_simp+

text \<open>A call is refused before anything happens, or it declares its block and sends.\<close>

lemma call_sends:
  assumes r: "ipc_call_common sw slot msg len buf rslot cslot \<sigma> = (rax, \<sigma>')"
  shows "rax \<noteq> 0 \<and> \<sigma>' = \<sigma>
    \<or> (\<exists>ep \<sigma>0 rc \<sigma>2. map_option fst (ipc_ep_and_invoker (m_k \<sigma>) slot CAP_RIGHT_WRITE) = Some ep \<and> declared \<sigma> \<sigma>0
        \<and> sys_ipc_send sw ep msg len (Some (if cslot = IPC_NO_CAP then cap_says (m_k \<sigma>) slot CAP_RIGHT_WRITE
             else (cap_says (m_k \<sigma>) slot CAP_RIGHT_WRITE)\<lparr> iv_carried := 1, iv_carry_token := iv_token (cap_says (m_k \<sigma>) cslot 0),
                    iv_carry_rights := iv_rights (cap_says (m_k \<sigma>) cslot 0) \<rparr>)) \<sigma>0 = (rc, \<sigma>2)
        \<and> (if rc < 0 then rax = rax32 rc \<and> k_eps (m_k \<sigma>') = k_eps (m_k \<sigma>2) else rax = 0 \<and> \<sigma>' = \<sigma>2))"
proof (cases "ipc_ep_and_invoker (m_k \<sigma>) slot CAP_RIGHT_WRITE")
  case None
  thus ?thesis using r rax_err by (auto simp: ipc_call_common_def Let_def)
next
  case (Some x)
  then obtain ep iv0 ser where i: "ipc_ep_and_invoker (m_k \<sigma>) slot CAP_RIGHT_WRITE = Some (ep, iv0, ser)" by (cases x) auto
  note iv0 = invoker_says[OF i]
  define o1 where "o1 = (if cslot = IPC_NO_CAP then Some iv0
               else case ipc_ep_and_invoker (m_k \<sigma>) cslot 0 of None \<Rightarrow> None
                    | Some (carry_ep, cinv, _) \<Rightarrow> if carry_ep \<noteq> ep then None
                        else Some (iv0\<lparr> iv_carried := 1, iv_carry_token := iv_token cinv, iv_carry_rights := iv_rights cinv \<rparr>))"
  note un = r[unfolded ipc_call_common_def Let_def i option.case prod.case o1_def[symmetric]]
  show ?thesis
  proof (cases o1)
    case None
    thus ?thesis using un rax_err by auto
  next
    case (Some iv)
    have iv: "iv = (if cslot = IPC_NO_CAP then cap_says (m_k \<sigma>) slot CAP_RIGHT_WRITE
             else (cap_says (m_k \<sigma>) slot CAP_RIGHT_WRITE)\<lparr> iv_carried := 1, iv_carry_token := iv_token (cap_says (m_k \<sigma>) cslot 0),
                    iv_carry_rights := iv_rights (cap_says (m_k \<sigma>) cslot 0) \<rparr>)"
      using Some unfolding o1_def iv0 by (auto split: option.splits if_splits dest!: invoker_says)
    define \<sigma>0 where "\<sigma>0 = upd_k (upd_task (k_cur (m_k \<sigma>)) (\<lambda>t. t\<lparr> t_ipc_cap_recv_slot := rslot, t_ipc_inv_slot := slot,
        t_ipc_inv_serial := ser, t_ipc_reply_buf := buf, t_blocked_on := reply_ep_for_task (int (k_cur (m_k \<sigma>))),
        t_pending_block := TASK_BLOCKED_IPC \<rparr>)) \<sigma>"
    have d: "declared \<sigma> \<sigma>0" unfolding declared_def \<sigma>0_def by blast
    obtain rc \<sigma>2 where s: "sys_ipc_send sw ep msg len (Some iv) \<sigma>0 = (rc, \<sigma>2)" by (cases "sys_ipc_send sw ep msg len (Some iv) \<sigma>0")
    have "rax \<noteq> 0 \<and> \<sigma>' = \<sigma> \<or> (if rc < 0 then rax = rax32 rc \<and> k_eps (m_k \<sigma>') = k_eps (m_k \<sigma>2) else rax = 0 \<and> \<sigma>' = \<sigma>2)"
      using un rax_err unfolding Some option.case \<sigma>0_def[symmetric] s prod.case by (auto split: if_splits)
    thus ?thesis using i d s unfolding iv by (elim disjE) (simp, intro disjI2 exI[of _ ep] exI[of _ \<sigma>0] exI[of _ rc] exI[of _ \<sigma>2] conjI, simp_all)
  qed
qed

lemma declared_kept:
  assumes "declared \<sigma> \<sigma>0"
  shows "k_eps (m_k \<sigma>0) = k_eps (m_k \<sigma>)" "k_cur (m_k \<sigma>0) = k_cur (m_k \<sigma>)" "k_max_tasks (m_k \<sigma>0) = k_max_tasks (m_k \<sigma>)"
    "t_slot_gen (k_tasks (m_k \<sigma>0) t) = t_slot_gen (k_tasks (m_k \<sigma>) t)"
  using assms by (auto simp: declared_def)

text \<open>Every queueing call ends in a refusal that changes no endpoint or in one send to its target.\<close>

lemma run_send_sends:
  assumes sw: "swap_frame sw" and c: "0 < k_cur (m_k \<sigma>)" "k_cur (m_k \<sigma>) < k_max_tasks (m_k \<sigma>)" and e: "ep_wf (k_eps (m_k \<sigma>) j)"
    and r: "run_send c sw r \<sigma> = (rax, \<sigma>')"
  shows "rax \<noteq> 0 \<and> k_eps (m_k \<sigma>') j = k_eps (m_k \<sigma>) j
    \<or> (\<exists>ep \<sigma>0 rc \<sigma>2 iv. call_target c r (m_k \<sigma>) = Some ep \<and> declared \<sigma> \<sigma>0 \<and> k_eps (m_k \<sigma>') = k_eps (m_k \<sigma>2) \<and> (rax = 0 \<longleftrightarrow> rc = 0)
        \<and> sys_ipc_send sw ep (fst (call_buf c r)) (snd (call_buf c r)) iv \<sigma>0 = (rc, \<sigma>2)
        \<and> (case iv of None \<Rightarrow> zero_invoker | Some v \<Rightarrow> v) = attested c r (m_k \<sigma>))"
proof -
  have d: "declared \<sigma> \<sigma>" by (simp add: declared_def)
  have rng: "rc \<in> {-2, -1, 0}" if "declared \<sigma> \<sigma>0" "sys_ipc_send sw ep m l iv \<sigma>0 = (rc, \<sigma>2)" for \<sigma>0 ep m l iv rc \<sigma>2
    using send_queues(1)[OF sw, of \<sigma>0 j ep m l iv rc \<sigma>2] that(2) c e by (simp add: declared_kept[OF that(1)])
  have z: "rax64 rc = 0 \<longleftrightarrow> rc = 0" "rc < 0 \<Longrightarrow> rax32 rc \<noteq> 0" if "rc \<in> {-2, -1, 0}" for rc
    using that rax_err by (auto simp: rax64_def)
  let ?t = "low_slot (r_rbx r)" and ?Q = "\<lambda>ep m l iv. \<exists>\<sigma>0 rc \<sigma>2. declared \<sigma> \<sigma>0 \<and> k_eps (m_k \<sigma>') = k_eps (m_k \<sigma>2) \<and> (rax = 0 \<longleftrightarrow> rc = 0)
        \<and> sys_ipc_send sw ep m l iv \<sigma>0 = (rc, \<sigma>2)"
  have plain: "?Q ep m l iv" if "(let (rc, \<sigma>2) = sys_ipc_send sw ep m l iv \<sigma> in (rax64 rc, \<sigma>2)) = (rax, \<sigma>')" for ep m l iv
    using that d z(1)[OF rng[OF d]] by (fastforce split: prod.splits)
  have call: "rax \<noteq> 0 \<and> \<sigma>' = \<sigma> \<or> (\<exists>ep. map_option fst (ipc_ep_and_invoker (m_k \<sigma>) ?t CAP_RIGHT_WRITE) = Some ep \<and> ?Q ep (r_rdx r) (r_rsi r)
      (Some (if cslot = IPC_NO_CAP then cap_says (m_k \<sigma>) ?t CAP_RIGHT_WRITE
             else (cap_says (m_k \<sigma>) ?t CAP_RIGHT_WRITE)\<lparr> iv_carried := 1, iv_carry_token := iv_token (cap_says (m_k \<sigma>) cslot 0),
                    iv_carry_rights := iv_rights (cap_says (m_k \<sigma>) cslot 0) \<rparr>)))"
    if "ipc_call_common sw ?t (r_rdx r) (r_rsi r) buf rslot cslot \<sigma> = (rax, \<sigma>')" for buf rslot cslot
  proof -
    have fin: "k_eps (m_k \<sigma>') = k_eps (m_k \<sigma>2) \<and> (rax = 0 \<longleftrightarrow> rc = 0)"
      if "if rc < 0 then rax = rax32 rc \<and> k_eps (m_k \<sigma>') = k_eps (m_k \<sigma>2) else rax = 0 \<and> \<sigma>' = \<sigma>2" "rc \<in> {-2, -1, 0}" for rc \<sigma>2
      using that z(2)[OF that(2)] by (auto split: if_splits)
    from call_sends[OF that] show ?thesis
    proof (elim disjE exE conjE)
      fix ep \<sigma>0 rc \<sigma>2
      assume a: "map_option fst (ipc_ep_and_invoker (m_k \<sigma>) ?t CAP_RIGHT_WRITE) = Some ep" "declared \<sigma> \<sigma>0"
        and s: "sys_ipc_send sw ep (r_rdx r) (r_rsi r) (Some (if cslot = IPC_NO_CAP then cap_says (m_k \<sigma>) ?t CAP_RIGHT_WRITE
             else (cap_says (m_k \<sigma>) ?t CAP_RIGHT_WRITE)\<lparr> iv_carried := 1, iv_carry_token := iv_token (cap_says (m_k \<sigma>) cslot 0),
                    iv_carry_rights := iv_rights (cap_says (m_k \<sigma>) cslot 0) \<rparr>)) \<sigma>0 = (rc, \<sigma>2)"
        and x: "if rc < 0 then rax = rax32 rc \<and> k_eps (m_k \<sigma>') = k_eps (m_k \<sigma>2) else rax = 0 \<and> \<sigma>' = \<sigma>2"
      show ?thesis using a s fin[OF x rng[OF a(2) s]] by (intro disjI2 exI[of _ ep] conjI exI[of _ \<sigma>0] exI[of _ rc] exI[of _ \<sigma>2]) simp_all
    qed simp
  qed
  show ?thesis
  proof (cases c)
    case By_send
    show ?thesis
    proof (cases "ipc_ep_and_invoker (m_k \<sigma>) ?t CAP_RIGHT_WRITE")
      case None
      thus ?thesis using r rax_err By_send by (auto simp: h_ipc_send_def)
    next
      case (Some x)
      then obtain ep iv ser where i: "ipc_ep_and_invoker (m_k \<sigma>) ?t CAP_RIGHT_WRITE = Some (ep, iv, ser)" by (cases x) auto
      have "?Q ep (r_rcx r) (r_rdx r) (Some iv)" using r unfolding By_send by (intro plain) (simp add: h_ipc_send_def i)
      thus ?thesis using i invoker_says[OF i] unfolding By_send by (fastforce simp: call_target_def attested_def)
    qed
  next
    case By_reply
    show ?thesis
    proof (cases "ipc_ep_from_slot (m_k \<sigma>) ?t CAP_RIGHT_WRITE")
      case None
      thus ?thesis using r rax_err By_reply by (auto simp: h_ipc_reply_def)
    next
      case (Some ep)
      have "?Q ep (r_rcx r) (r_rdx r) None" using r unfolding By_reply by (intro plain) (simp add: h_ipc_reply_def sys_ipc_reply_def Some)
      thus ?thesis using Some unfolding By_reply by (fastforce simp: call_target_def attested_def)
    qed
  next
    case By_call
    show ?thesis using call[of "r_rdi r" IPC_NO_CAP IPC_NO_CAP] r unfolding By_call
      by (fastforce simp: h_ipc_call_def call_target_def attested_def)
  next
    case By_call_cap
    show ?thesis using call[of "r_rdi r" "low_slot (r_rcx r)" "low_slot (r_r8 r)"] r unfolding By_call_cap
      by (fastforce simp: h_ipc_call_cap_def call_target_def attested_def Let_def)
  qed
qed

text \<open>C13. What a queued message carries besides its bytes is the kernel's word, not the sender's.
  Whichever call changes a queue that stood well-formed, it answered 0, the queue is that of the endpoint its
  capability names, and it grew by exactly one message: the bytes of the caller's buffer, the caller, its
  incarnation, and the token and the rights of the capability the call went through and of the
  one it carried, or nothing where it was a plain reply.  A call that answers 0 with no task
  waiting does queue its message.\<close>

theorem queued_message_attested:
  assumes "swap_frame sw" "0 < k_cur (m_k \<sigma>)" "k_cur (m_k \<sigma>) < k_max_tasks (m_k \<sigma>)" "ep_wf (k_eps (m_k \<sigma>) j)"
    and "run_send c sw r \<sigma> = (rax, \<sigma>')"
    and "ep_msgs (k_eps (m_k \<sigma>') j) \<noteq> ep_msgs (k_eps (m_k \<sigma>) j)
       \<or> rax = 0 \<and> call_target c r (m_k \<sigma>) = Some j \<and> ep_blocked_waiter (k_eps (m_k \<sigma>) j) \<le> 0"
  shows "rax = 0 \<and> call_target c r (m_k \<sigma>) = Some j
    \<and> (\<exists>\<sigma>0 bs \<sigma>1. declared \<sigma> \<sigma>0 \<and> fetch_msg sw (fst (call_buf c r)) (min (unat (snd (call_buf c r))) IPC_MSG_MAX) \<sigma>0 = (Some bs, \<sigma>1)
        \<and> ep_msgs (k_eps (m_k \<sigma>') j) = ep_msgs (k_eps (m_k \<sigma>) j)
            @ [(bs, int (k_cur (m_k \<sigma>)), t_slot_gen (k_tasks (m_k \<sigma>) (k_cur (m_k \<sigma>))), attested c r (m_k \<sigma>))])"
  using run_send_sends[OF assms(1-5)]
proof (elim disjE exE conjE)
  fix ep \<sigma>0 rc \<sigma>2 iv
  assume t: "call_target c r (m_k \<sigma>) = Some ep" and d: "declared \<sigma> \<sigma>0" and k: "k_eps (m_k \<sigma>') = k_eps (m_k \<sigma>2)" and z: "rax = 0 \<longleftrightarrow> rc = 0"
    and s: "sys_ipc_send sw ep (fst (call_buf c r)) (snd (call_buf c r)) iv \<sigma>0 = (rc, \<sigma>2)"
    and iv: "(case iv of None \<Rightarrow> zero_invoker | Some v \<Rightarrow> v) = attested c r (m_k \<sigma>)"
  note K = declared_kept[OF d]
  have q: "ep_msgs (k_eps (m_k \<sigma>2) j) \<noteq> ep_msgs (k_eps (m_k \<sigma>0) j) \<or> rc = 0 \<and> ep = j \<and> ep_blocked_waiter (k_eps (m_k \<sigma>0) j) \<le> 0"
    using assms(6) t z unfolding K k by auto
  have "rc = 0 \<and> ep = j \<and> queued sw j (fst (call_buf c r)) (snd (call_buf c r)) (attested c r (m_k \<sigma>)) \<sigma>0 \<sigma>2"
    by (rule send_queues(2)[OF assms(1) _ _ _ s q, unfolded iv]) (use assms(2-4) in \<open>simp_all only: K\<close>)
  thus ?thesis using t z d unfolding queued_def K k by blast
qed (use assms(6) in simp)

section \<open>A client and a server\<close>

text \<open>Task 1 may send to endpoint 7 and to notification 3, tasks 2 and 3 may receive there.\<close>

definition demo_cap :: "u32 \<Rightarrow> u32 \<Rightarrow> u64 \<Rightarrow> u64 \<Rightarrow> capability" where
  "demo_cap ty rights obj ser = \<lparr> c_typ = ty, c_rights = rights, c_object = obj, c_badge = 0, c_serial = ser, c_token = 0 \<rparr>"

definition demo_task :: "nat \<Rightarrow> tcb" where
  "demo_task t = zero_tcb\<lparr> t_state := TASK_RUNNABLE, t_cspace := Some (TaskC t), t_cspace_size := 256, t_inuse := 2, t_saved_ksp := 0x1000 \<rparr>"

definition demo_caps :: capmem where
  "demo_caps = (\<lambda>_. null_cap)(Slot (TaskC 1) 5 := demo_cap CAP_ENDPOINT CAP_RIGHT_WRITE 7 1,
                              Slot (TaskC 1) 6 := demo_cap CAP_NOTIFICATION CAP_RIGHT_WRITE 3 2,
                              Slot (TaskC 2) 5 := demo_cap CAP_ENDPOINT CAP_RIGHT_READ 7 3,
                              Slot (TaskC 2) 6 := demo_cap CAP_NOTIFICATION CAP_RIGHT_READ 3 4,
                              Slot (TaskC 3) 5 := demo_cap CAP_ENDPOINT CAP_RIGHT_READ 7 5)"

definition demo_ipc :: "unit mach" where
  "demo_ipc = \<lparr> m_k = zero_kstate\<lparr> k_cur := 1, k_next_serial := 0x100000010, k_mem := demo_caps,
                        k_tasks := (\<lambda>_. zero_tcb)(1 := demo_task 1, 2 := demo_task 2, 3 := demo_task 3) \<rparr>,
     m_mem = (\<lambda>_. 0), m_cow_faults = 0, m_dev = () \<rparr>"

definition slot_regs :: "u64 \<Rightarrow> regs" where
  "slot_regs slot = \<lparr> r_rbx = slot, r_rcx = 0, r_rdx = 0, r_rsi = 0, r_rdi = 0, r_r8 = 0 \<rparr>"

lemma demo_sel:
  "k_mem (m_k demo_ipc) = demo_caps" "k_max_tasks (m_k demo_ipc) = 64" "k_eps (m_k demo_ipc) = (\<lambda>_. zero_endpoint)"
  "k_notifs (m_k demo_ipc) = (\<lambda>_. zero_notification)" "k_cur (m_k demo_ipc) = 1" "k_next_serial (m_k demo_ipc) = 0x100000010"
  "k_tasks (m_k demo_ipc) = (\<lambda>_. zero_tcb)(1 := demo_task 1, 2 := demo_task 2, 3 := demo_task 3)"
  by (simp_all add: demo_ipc_def zero_kstate_def)

lemma demo_start: "nobody_asleep (m_k demo_ipc)" "runs 2 demo_ipc"
  by (auto simp: nobody_asleep_def asleep_def runs_def demo_sel list_all_iff zero_tcb_def demo_task_def)

lemma demo_ep_from_slot:
  assumes "k_mem s = demo_caps" "t_cspace (k_tasks s 2) = Some (TaskC 2)" "t_cspace_size (k_tasks s 2) = 256" "k_cur s = 2"
  shows "ipc_ep_from_slot s 5 CAP_RIGHT_READ = Some 7"
  using assms by (simp add: ipc_ep_from_slot_def cap_lookup_ipc_object_def cap_current_cspace_def get_cspace_def get_sz_def cspace_sz_def
      rust_ipc_object_from_slot_def rust_cap_lookup_typed_def rust_cap_lookup_def demo_caps_def demo_cap_def endpoint_by_index_def Let_def)

lemma low_slots: "low_slot (r_rbx (slot_regs 5)) = 5" "low_slot (r_rbx (slot_regs 6)) = 6" "low_slot (r_rdx (slot_regs x)) = 0"
  by (simp_all add: slot_regs_def low_slot_def)

definition demo_blocking :: "nat \<Rightarrow> unit mach \<Rightarrow> unit mach" where
  "demo_blocking t = recv_block_commit t 7 (slot_regs 5)"

definition demo_asleep :: "unit mach" where
  "demo_asleep = upd_k (\<lambda>s. upd_task 2 (\<lambda>t. t\<lparr> t_pending_block := 0, t_state := TASK_BLOCKED_IPC, t_runnable_ctx := False \<rparr>)
                           (upd_ep 7 (\<lambda>e. e\<lparr> ep_blocked_waiter := 2 \<rparr>) s)) (as_task 2 (demo_blocking 2 demo_ipc))"

lemmas demo_state = demo_blocking_def recv_block_commit_def demo_asleep_def as_task_def upd_k_def demo_sel demo_task_def zero_tcb_def

lemma run_awake:
  assumes "ipc_run sw {} \<sigma>" "nobody_asleep (m_k \<sigma>)" "ipc_step sw \<sigma> \<sigma>'"
  shows "ipc_run sw {} \<sigma>'"
proof -
  have "\<not> ep_sleeper (m_k \<sigma>) t i" "\<not> notif_sleeper (m_k \<sigma>) t i" for t i
    using assms(2) by (auto simp: nobody_asleep_def asleep_def list_all_iff ep_sleeper_def notif_sleeper_def)
  hence "overtaken (m_k \<sigma>) (m_k \<sigma>') = {}" by (simp add: overtaken_def)
  thus ?thesis using run_step[OF assms(1,3)] by simp
qed

lemma demo_publishes: "ipc_publish_pending_block no_swap (int 2) (as_task 2 (demo_blocking 2 demo_ipc)) = (True, demo_asleep)"
  by (simp add: ipc_publish_pending_block_def publish_ipc_def demo_state zero_endpoint_def ep_empty_def endpoint_by_index_def upd_task_def upd_ep_def Let_def)

lemma demo_reach: "ipc_run no_swap {} demo_asleep"
proof -
  have "ipc_step no_swap demo_ipc (demo_blocking 2 demo_ipc)" unfolding demo_blocking_def
    by (rule step_recv_commit[OF demo_start(2)]) (simp add: demo_sel zero_endpoint_def ep_empty_def)
  from run_awake[OF run_start[OF demo_start(1)] demo_start(1) this]
  have a: "ipc_run no_swap {} (demo_blocking 2 demo_ipc)" .
  have n: "nobody_asleep (m_k (demo_blocking 2 demo_ipc))"
    by (auto simp: nobody_asleep_def asleep_def list_all_iff demo_state)
  have "ipc_step no_swap (demo_blocking 2 demo_ipc) demo_asleep"
    by (rule step_publish[of 2, OF _ demo_publishes]) (auto simp: runs_def demo_state)
  from run_awake[OF a n this] show ?thesis .
qed

lemma demo_sleeper: "ep_sleeper (m_k demo_asleep) 2 7" "runs 1 demo_asleep"
  by (auto simp: ep_sleeper_def runs_def demo_state)

lemma demo_invoker:
  "ipc_ep_and_invoker (m_k (as_task 1 demo_asleep)) (low_slot (r_rbx (slot_regs 5))) CAP_RIGHT_WRITE
     = Some (7, zero_invoker\<lparr> iv_rights := CAP_RIGHT_WRITE \<rparr>, 1)"
  unfolding low_slots
  by (simp add: ipc_ep_and_invoker_def cap_lookup_def cap_current_cspace_def get_cspace_def get_sz_def cspace_sz_def
      rust_cap_lookup_typed_def rust_cap_lookup_def demo_caps_def demo_cap_def endpoint_by_index_def Let_def demo_state zero_invoker_def)

lemma demo_installs:
  assumes "k_max_tasks s = 64" "k_next_serial s = 0x100000010" "t_cspace (k_tasks s t) = Some cs"
    "t_cspace_size (k_tasks s t) = 256" "t_inuse (k_tasks s t) = 2" "int t = pid" "0 < t" "t < 64"
  shows "fst (cap_install_reply_for pid 1 gen s)"
  using assms by (auto simp: cap_install_reply_for_def cap_alloc_fresh_serial_def rust_cap_alloc_serial_def assign_fresh_serial_def
    checked_add64_def get_cspace_def get_sz_def cspace_sz_def slot_null_def quota_full_def Let_def)

lemma demo_sends: "\<exists>\<sigma>'. h_ipc_send no_swap (slot_regs 5) (as_task 1 demo_asleep) = (0, \<sigma>')"
proof -
  let ?\<sigma> = "as_task 1 demo_asleep"
  have auth: "auth_snapshot (m_k ?\<sigma>) CAP_RIGHT_WRITE = \<lparr> cs_serial = 0, cs_object = 0, cs_valid = False \<rparr>"
    by (simp add: auth_snapshot_def cap_lookup_def cap_current_cspace_def get_cspace_def get_sz_def cspace_sz_def take_snapshot_def
      rust_cap_lookup_typed_def rust_cap_lookup_def demo_caps_def demo_cap_def null_cap_def Let_def demo_state)
  have "fst (send_waiter no_swap 7 2 0 0 iv ?\<sigma>) = 0" for iv
    by (simp add: send_waiter_def fetch_msg_def deliver_to_def Let_def demo_state case_prod_beta demo_installs[where t = 2])
  moreover have st: "\<not> auth_stale (m_k ?\<sigma>) (auth_snapshot (m_k ?\<sigma>) CAP_RIGHT_WRITE) CAP_RIGHT_WRITE"
    unfolding auth_stale_def auth by simp
  moreover have "ep_blocked_waiter (k_eps (m_k ?\<sigma>) 7) = 2" "ep_empty (k_eps (m_k ?\<sigma>) 7)" "k_max_tasks (m_k ?\<sigma>) = 64"
    "t_state (k_tasks (m_k ?\<sigma>) 2) = TASK_BLOCKED_IPC"
    by (simp_all add: demo_state ep_empty_def zero_endpoint_def)
  ultimately have "fst (sys_ipc_send no_swap 7 0 0 iv ?\<sigma>) = 0" for iv
    by (simp add: sys_ipc_send_def ipc_send_locked_def endpoint_by_index_def Let_def)
  thus ?thesis
    unfolding h_ipc_send_def demo_invoker option.case prod.case Let_def case_prod_beta
    by (auto simp: slot_regs_def rax64_def)
qed

theorem send_wakes_sleeper_witness:
  "t_state (k_tasks (m_k demo_asleep) 2) = TASK_BLOCKED_IPC
   \<and> (\<exists>\<sigma>'. h_ipc_send no_swap (slot_regs 5) (as_task 1 demo_asleep) = (0, \<sigma>') \<and> t_state (k_tasks (m_k \<sigma>') 2) = TASK_RUNNABLE)"
proof -
  obtain \<sigma>' where s: "h_ipc_send no_swap (slot_regs 5) (as_task 1 demo_asleep) = (0, \<sigma>')" using demo_sends by blast
  from send_wakes_sleeper[OF swap_frame_no_swap demo_reach demo_sleeper(1) _ demo_sleeper(2) demo_invoker s] s show ?thesis
    using demo_sleeper(1) by (auto simp: ep_sleeper_def)
qed

text \<open>Task 2 waits for notification 3.\<close>

definition demo_waiting :: "unit mach" where
  "demo_waiting = upd_k (upd_task 2 (\<lambda>t. t\<lparr> t_blocked_on_notif := 3, t_pending_block := TASK_BLOCKED_NOTIF \<rparr>)) (as_task 2 demo_ipc)"

definition demo_notif_asleep :: "unit mach" where
  "demo_notif_asleep = upd_k (\<lambda>s. upd_task 2 (\<lambda>t. t\<lparr> t_pending_block := 0, t_state := TASK_BLOCKED_NOTIF, t_runnable_ctx := False \<rparr>)
                       (upd_notif 3 (\<lambda>n. n\<lparr> nt_blocked_waiter := 2 \<rparr>) s)) (as_task 2 demo_waiting)"

lemma demo_notif_reach: "ipc_run no_swap {} demo_notif_asleep"
proof -
  have n: "ipc_notif_from_slot (m_k (as_task 2 demo_ipc)) 6 CAP_RIGHT_READ = Some 3"
    by (simp add: ipc_notif_from_slot_def cap_lookup_ipc_object_def cap_current_cspace_def get_cspace_def get_sz_def cspace_sz_def
      rust_ipc_object_from_slot_def rust_cap_lookup_typed_def rust_cap_lookup_def demo_caps_def demo_cap_def notification_by_index_def Let_def demo_state)
  have w: "upd_k3 demo_ipc (h_wait_notify (slot_regs 6) (m_k (as_task 2 demo_ipc))) = demo_waiting"
    unfolding h_wait_notify_def low_slots n option.case upd_k3_def
    by (simp add: sys_wait_notify_def notification_by_index_def demo_state demo_waiting_def zero_notification_def Let_def)
  have a: "ipc_step no_swap demo_ipc demo_waiting" using step_wait[OF demo_start(2), of no_swap "slot_regs 6"] unfolding w .
  have p: "ipc_publish_pending_block no_swap (int 2) (as_task 2 demo_waiting) = (True, demo_notif_asleep)"
    by (simp add: ipc_publish_pending_block_def publish_notif_def demo_state demo_waiting_def demo_notif_asleep_def zero_notification_def
        notification_by_index_def upd_task_def upd_notif_def Let_def)
  have b: "ipc_step no_swap demo_waiting demo_notif_asleep"
    by (rule step_publish[of 2, OF _ p]) (auto simp: runs_def demo_state demo_waiting_def)
  have n: "nobody_asleep (m_k demo_waiting)"
    by (auto simp: nobody_asleep_def asleep_def list_all_iff demo_state demo_waiting_def)
  show ?thesis using run_awake[OF run_awake[OF run_start[OF demo_start(1)] demo_start(1) a] n b] .
qed

theorem notify_wakes_sleeper_witness:
  "\<exists>s'. sys_notify 3 5 (m_k demo_notif_asleep) = (0, s') \<and> t_state (k_tasks s' 2) = TASK_RUNNABLE \<and> t_frame_rbx (k_tasks s' 2) = 5"
proof -
  have t: "notif_sleeper (m_k demo_notif_asleep) 2 3"
    by (simp add: notif_sleeper_def demo_notif_asleep_def demo_waiting_def demo_state)
  obtain s' where s: "sys_notify 3 5 (m_k demo_notif_asleep) = (0, s')"
    by (cases "sys_notify 3 5 (m_k demo_notif_asleep)") (auto simp: sys_notify_def notification_by_index_def Let_def split: if_splits)
  from notify_wakes_sleeper[OF swap_frame_no_swap demo_notif_reach t _ s] s show ?thesis by auto
qed

text \<open>Task 2 finds a message in the queue, which task 3 takes before task 2 has the lock again.\<close>

definition demo_full :: "unit mach" where
  "demo_full = upd_k (\<lambda>s. upd_ep 7 (ep_enqueue s [] 0 1 None) s) (as_task 2 demo_ipc)"

definition demo_rival :: "nat \<Rightarrow> unit mach \<Rightarrow> unit mach" where
  "demo_rival n \<sigma> = (if n = 1 then as_task 2 (snd (sys_ipc_recv no_swap 7 0 0 (as_task 3 \<sigma>))) else \<sigma>)"

lemma recv_count_le:
  assumes sw: "swap_frame sw"
  shows "ep_count (k_eps (m_k (snd (sys_ipc_recv sw ep msg mx \<sigma>))) ep) \<le> ep_count (k_eps (m_k \<sigma>) ep)"
proof -
  obtain l bs sd g iv e' where d: "ep_dequeue (int_of_size mx) (k_eps (m_k \<sigma>) ep) = (l, bs, sd, g, iv, e')" by (metis prod_cases6)
  have c: "k_eps (m_k a') = k_eps (m_k a)" if "copy_to_user sw msg b a = (x, a')" for b x a a'
    using ipcv_sel[OF ipcv_copy_to[OF sw, of msg b a]] that by simp
  show ?thesis unfolding sys_ipc_recv_def ipc_recv_locked_def Let_def
    by (auto simp: ipcv_sel[OF ipcv_install_object] d dequeue_kept(3)[OF d] split: option.splits prod.splits if_splits dest!: c by_index_same(1))
qed

lemma demo_full_sel:
  "ipc_ep_from_slot (m_k demo_full) (low_slot (r_rbx (slot_regs 5))) CAP_RIGHT_READ = Some 7"
  "ep_count (k_eps (m_k demo_full) 7) = 1"
  unfolding low_slots
  by (rule demo_ep_from_slot) (simp_all add: demo_full_def demo_state ep_enqueue_def zero_endpoint_def Let_def)

theorem blocking_receive_returns_witness:
  "ep_count (k_eps (m_k demo_full) 7) = 1
   \<and> (\<exists>v \<sigma>'. h_ipc_recv_block 2 demo_rival no_swap (slot_regs 5) demo_full = Some (v, \<sigma>') \<and> v \<noteq> rax32 (-2))"
proof -
  have "ep_count (k_eps (m_k (demo_rival n \<sigma>)) 7) \<le> ep_count (k_eps (m_k \<sigma>) 7) + 0" for n \<sigma>
    using recv_count_le[OF swap_frame_no_swap, of 7 0 0 "as_task 3 \<sigma>"] by (simp add: demo_rival_def as_task_view)
  with blocking_receive_returns[OF swap_frame_no_swap, of demo_full "slot_regs 5" demo_rival "\<lambda>_. 0" 2]
  show ?thesis unfolding demo_full_sel(1) using demo_full_sel(2) by simp
qed

text \<open>Task 2 holds the right to answer the call of task 1.\<close>

definition demo_reply :: "unit mach" where
  "demo_reply = \<lparr> m_k = zero_kstate\<lparr> k_cur := 2, k_mem := demo_caps(Slot (TaskC 2) 21 := demo_cap CAP_REPLY CAP_RIGHT_WRITE (reply_object 1 0) 6),
                       k_tasks := (\<lambda>_. zero_tcb)(1 := (demo_task 1)\<lparr> t_state := TASK_BLOCKED_IPC, t_blocked_on := 65 \<rparr>, 2 := demo_task 2) \<rparr>,
     m_mem = (\<lambda>_. 0), m_cow_faults = 0, m_dev = () \<rparr>"

lemma demo_reply_sel:
  "k_mem (m_k demo_reply) = demo_caps(Slot (TaskC 2) 21 := demo_cap CAP_REPLY CAP_RIGHT_WRITE (reply_object 1 0) 6)"
  "k_max_tasks (m_k demo_reply) = 64" "k_cur (m_k demo_reply) = 2"
  "k_tasks (m_k demo_reply) = (\<lambda>_. zero_tcb)(1 := (demo_task 1)\<lparr> t_state := TASK_BLOCKED_IPC, t_blocked_on := 65 \<rparr>, 2 := demo_task 2)"
  by (simp_all add: demo_reply_def zero_kstate_def)

lemma demo_replies: "\<exists>\<sigma>'. ipc_reply_common no_swap (slot_regs 5) False 0 0 demo_reply = (0, \<sigma>') \<and> t_state (k_tasks (m_k \<sigma>') 1) = TASK_RUNNABLE"
proof -
  have e: "ipc_ep_from_slot (m_k demo_reply) 5 CAP_RIGHT_READ = Some 7"
    by (simp add: ipc_ep_from_slot_def cap_lookup_ipc_object_def cap_current_cspace_def get_cspace_def get_sz_def cspace_sz_def demo_reply_sel
      demo_task_def rust_ipc_object_from_slot_def rust_cap_lookup_typed_def rust_cap_lookup_def demo_caps_def demo_cap_def endpoint_by_index_def Let_def)
  have a: "cap_lookup (m_k demo_reply) CAPSLOT_REPLY CAP_REPLY CAP_RIGHT_WRITE = Some (Slot (TaskC 2) 21)"
    by (simp add: cap_lookup_def cap_current_cspace_def get_cspace_def get_sz_def cspace_sz_def demo_reply_sel
      demo_task_def rust_cap_lookup_typed_def rust_cap_lookup_def demo_cap_def Let_def)
  have v: "ipcv (consume_reply s) = ipcv s" for s by (rule ipcv_consume)
  show ?thesis
    unfolding ipc_reply_common_def Let_def low_slots e option.case a
    by (simp add: demo_reply_sel demo_cap_def reply_object_def demo_task_def zero_tcb_def fetch_msg_def deliver_to_def slot_regs_def
        ipcv_tcb(1)[OF v] wake_caller_def make_runnable_def Let_def split: option.splits)
qed

theorem reply_right_one_shot_witness:
  "\<exists>\<sigma>'. ipc_reply_common no_swap (slot_regs 5) False 0 0 demo_reply = (0, \<sigma>')
     \<and> ipc_reply_common no_swap (slot_regs 5) False 0 0 \<sigma>' = (rax32 SYS_ERR_PERM, \<sigma>')"
proof -
  obtain \<sigma>' where r: "ipc_reply_common no_swap (slot_regs 5) False 0 0 demo_reply = (0, \<sigma>')" using demo_replies by blast
  from reply_right_one_shot[OF swap_frame_no_swap _ r, of "slot_regs 5" False 0 0] r show ?thesis by (simp add: demo_reply_sel)
qed

theorem reply_reaches_only_its_caller_witness:
  "\<exists>\<sigma>' a. ipc_reply_common no_swap (slot_regs 5) False 0 0 demo_reply = (0, \<sigma>')
     \<and> cap_lookup (m_k demo_reply) CAPSLOT_REPLY CAP_REPLY CAP_RIGHT_WRITE = Some a \<and> c_object (k_mem (m_k demo_reply) a) = reply_object 1 0"
proof -
  obtain \<sigma>' where r: "ipc_reply_common no_swap (slot_regs 5) False 0 0 demo_reply = (0, \<sigma>')" "t_state (k_tasks (m_k \<sigma>') 1) = TASK_RUNNABLE"
    using demo_replies by blast
  have "t_state ((k_tasks (m_k \<sigma>') 1)\<lparr> t_inuse := 0 \<rparr>) \<noteq> t_state ((k_tasks (m_k demo_reply) 1)\<lparr> t_inuse := 0 \<rparr>)"
    using r(2) by (simp add: demo_reply_sel)
  hence d: "(k_tasks (m_k \<sigma>') 1)\<lparr> t_inuse := 0 \<rparr> \<noteq> (k_tasks (m_k demo_reply) 1)\<lparr> t_inuse := 0 \<rparr>" by metis
  have g: "t_slot_gen (k_tasks (m_k demo_reply) 1) = 0" by (simp add: demo_reply_sel demo_task_def zero_tcb_def)
  from reply_reaches_only_its_caller[OF swap_frame_no_swap r(1) d] r(1) show ?thesis unfolding g by blast
qed

text \<open>Task 3 blocks on the endpoint task 2 sleeps on.\<close>

definition demo_second :: "unit mach" where
  "demo_second = upd_k (\<lambda>s. upd_task 3 (\<lambda>t. t\<lparr> t_pending_block := 0, t_state := TASK_BLOCKED_IPC, t_runnable_ctx := False \<rparr>)
                           (upd_ep 7 (\<lambda>e. e\<lparr> ep_blocked_waiter := 3 \<rparr>) s)) (demo_blocking 3 demo_asleep)"

lemma demo_second_publishes: "ipc_publish_pending_block no_swap (int 3) (demo_blocking 3 demo_asleep) = (True, demo_second)"
  by (simp add: ipc_publish_pending_block_def publish_ipc_def demo_second_def demo_state zero_endpoint_def ep_empty_def endpoint_by_index_def Let_def)

lemma demo_second_send: "\<exists>\<sigma>2. sys_ipc_send no_swap 7 0 0 None (as_task 1 demo_second) = (0, \<sigma>2)"
proof -
  let ?\<sigma> = "as_task 1 demo_second"
  have auth: "auth_snapshot (m_k ?\<sigma>) CAP_RIGHT_WRITE = \<lparr> cs_serial = 0, cs_object = 0, cs_valid = False \<rparr>"
    by (simp add: auth_snapshot_def cap_lookup_def cap_current_cspace_def get_cspace_def get_sz_def cspace_sz_def take_snapshot_def
      rust_cap_lookup_typed_def rust_cap_lookup_def demo_caps_def demo_cap_def null_cap_def Let_def demo_second_def demo_state)
  have st: "\<not> auth_stale (m_k ?\<sigma>) (auth_snapshot (m_k ?\<sigma>) CAP_RIGHT_WRITE) CAP_RIGHT_WRITE"
    unfolding auth_stale_def auth by simp
  have "fst (send_waiter no_swap 7 3 0 0 None ?\<sigma>) = 0"
    by (simp add: send_waiter_def fetch_msg_def deliver_to_def Let_def demo_second_def demo_state case_prod_beta demo_installs[where t = 3])
  moreover have "ep_blocked_waiter (k_eps (m_k ?\<sigma>) 7) = 3" "ep_empty (k_eps (m_k ?\<sigma>) 7)" "k_max_tasks (m_k ?\<sigma>) = 64"
    "t_state (k_tasks (m_k ?\<sigma>) 3) = TASK_BLOCKED_IPC"
    by (simp_all add: demo_second_def demo_state ep_empty_def zero_endpoint_def)
  ultimately have "fst (sys_ipc_send no_swap 7 0 0 None ?\<sigma>) = 0"
    using st by (simp add: sys_ipc_send_def ipc_send_locked_def endpoint_by_index_def Let_def)
  thus ?thesis by (metis prod.collapse)
qed

theorem second_receiver_displaces_first_witness:
  "\<exists>\<sigma>2. sys_ipc_send no_swap 7 0 0 None (as_task 1 demo_second) = (0, \<sigma>2) \<and> ep_sleeper (m_k \<sigma>2) 2 7 \<and> ep_blocked_waiter (k_eps (m_k \<sigma>2) 7) = -1"
proof -
  obtain \<sigma>2 where s: "sys_ipc_send no_swap 7 0 0 None (as_task 1 demo_second) = (0, \<sigma>2)" using demo_second_send by blast
  have "ep_sleeper (m_k \<sigma>2) 2 7 \<and> ep_blocked_waiter (k_eps (m_k \<sigma>2) 7) = -1"
    using second_receiver_displaces_first[OF swap_frame_no_swap _ _ _ _ _ _ _ _ _ demo_second_publishes s, of 2]
    by (simp add: demo_state ep_sleeper_def ep_empty_def zero_endpoint_def endpoint_by_index_def)
  thus ?thesis using s by blast
qed

lemma demo_queues: "\<exists>\<sigma>'. h_ipc_send no_swap (slot_regs 5) (as_task 1 demo_ipc) = (0, \<sigma>')"
proof -
  let ?\<sigma> = "as_task 1 demo_ipc"
  have auth: "auth_snapshot (m_k ?\<sigma>) CAP_RIGHT_WRITE = \<lparr> cs_serial = 0, cs_object = 0, cs_valid = False \<rparr>"
    by (simp add: auth_snapshot_def cap_lookup_def cap_current_cspace_def get_cspace_def get_sz_def cspace_sz_def take_snapshot_def
      rust_cap_lookup_typed_def rust_cap_lookup_def demo_caps_def demo_cap_def null_cap_def Let_def demo_state)
  have st: "\<not> auth_stale (m_k ?\<sigma>) (auth_snapshot (m_k ?\<sigma>) CAP_RIGHT_WRITE) CAP_RIGHT_WRITE"
    unfolding auth_stale_def auth by simp
  have iv: "ipc_ep_and_invoker (m_k ?\<sigma>) 5 CAP_RIGHT_WRITE = Some (7, zero_invoker\<lparr> iv_rights := CAP_RIGHT_WRITE \<rparr>, 1)"
    by (simp add: ipc_ep_and_invoker_def cap_lookup_def cap_current_cspace_def get_cspace_def get_sz_def cspace_sz_def
      rust_cap_lookup_typed_def rust_cap_lookup_def demo_caps_def demo_cap_def endpoint_by_index_def Let_def demo_state zero_invoker_def)
  have "k_eps (m_k ?\<sigma>) 7 = zero_endpoint" by (simp add: demo_state)
  thus ?thesis
    unfolding h_ipc_send_def low_slots iv option.case prod.case sys_ipc_send_def
    using st by (simp add: endpoint_by_index_def ipc_send_locked_def ep_full_def zero_endpoint_def fetch_msg_def slot_regs_def rax64_def Let_def)
qed

theorem queued_message_attested_witness:
  "\<exists>\<sigma>'. run_send By_send no_swap (slot_regs 5) (as_task 1 demo_ipc) = (0, \<sigma>')
     \<and> ep_msgs (k_eps (m_k \<sigma>') 7) = [([], 1, 0, zero_invoker\<lparr> iv_token := 0, iv_rights := CAP_RIGHT_WRITE \<rparr>)]"
proof -
  let ?\<sigma> = "as_task 1 demo_ipc" and ?r = "slot_regs 5"
  obtain \<sigma>' where r: "run_send By_send no_swap ?r ?\<sigma> = (0, \<sigma>')" using demo_queues by auto
  have a: "cap_lookup (m_k ?\<sigma>) 5 CAP_ENDPOINT CAP_RIGHT_WRITE = Some (Slot (TaskC 1) 5)"
    by (simp add: cap_lookup_def cap_current_cspace_def get_cspace_def get_sz_def cspace_sz_def
      rust_cap_lookup_typed_def rust_cap_lookup_def demo_caps_def demo_cap_def Let_def demo_state)
  have k: "k_mem (m_k ?\<sigma>) (Slot (TaskC 1) 5) = demo_cap CAP_ENDPOINT CAP_RIGHT_WRITE 7 1" "k_cur (m_k ?\<sigma>) = 1" "k_max_tasks (m_k ?\<sigma>) = 64"
    "k_eps (m_k ?\<sigma>) 7 = zero_endpoint" "t_slot_gen (k_tasks (m_k ?\<sigma>) 1) = 0"
    by (simp_all add: demo_state demo_caps_def)
  have w: "ep_wf zero_endpoint" "ep_msgs zero_endpoint = []" "ep_blocked_waiter zero_endpoint \<le> 0"
    by (simp_all add: ep_wf_def zero_endpoint_def zero_msg_def list_all_iff ep_msgs_def)
  have t: "call_target By_send ?r (m_k ?\<sigma>) = Some 7"
    unfolding call_target_def ipc_ep_and_invoker_def low_slots a option.case Let_def k by (simp add: demo_cap_def endpoint_by_index_def)
  have i: "attested By_send ?r (m_k ?\<sigma>) = zero_invoker\<lparr> iv_token := 0, iv_rights := CAP_RIGHT_WRITE \<rparr>"
    unfolding attested_def cap_says_def low_slots a option.case Let_def k by (simp add: demo_cap_def)
  have b: "bs = []" if "fetch_msg no_swap (fst (call_buf By_send ?r)) (min (unat (snd (call_buf By_send ?r))) IPC_MSG_MAX) \<sigma>0 = (Some bs, \<sigma>1)" for \<sigma>0 bs \<sigma>1
    using that by (simp add: fetch_msg_def slot_regs_def)
  have "ep_msgs (k_eps (m_k \<sigma>') 7) = [([], 1, 0, zero_invoker\<lparr> iv_token := 0, iv_rights := CAP_RIGHT_WRITE \<rparr>)]"
    using queued_message_attested[OF swap_frame_no_swap _ _ _ r, of 7, unfolded k w(2) t i] w(1,3) b by auto
  thus ?thesis using r by blast
qed

end
