(* ===== verification/Crypto.thy ===== *)
theory Crypto
  imports Horus_Prelude
begin

text \<open>
  The hash, the stream cipher and the sealing of the Rust core
  (\<^verbatim>\<open>rust/src/sha256.rs\<close>, \<^verbatim>\<open>rust/src/rng.rs\<close>,
  \<^verbatim>\<open>rust/src/aead.rs\<close>): SHA-256 as a streaming state, HMAC and HKDF over it, the
  ChaCha20 block, the reseedable generator, and encrypt-then-MAC.

  The lemmas show that the streaming hash computes, however its input is cut into pieces, the
  hash of the padded message block by block; that the streaming HMAC agrees with the one-shot
  one; that opening what was sealed gives the plaintext back and that anything whose tag does
  not match is refused and wiped; and that the generator gives nothing before it is seeded and
  replaces its key at each use.
\<close>

section \<open>Words and bytes\<close>

definition be32 :: "u8 list \<Rightarrow> u32" where
  "be32 b = push_bit 24 (ucast (b ! 0)) OR push_bit 16 (ucast (b ! 1)) OR push_bit 8 (ucast (b ! 2)) OR ucast (b ! 3)"

definition to_be32 :: "u32 \<Rightarrow> u8 list" where
  "to_be32 w = map (\<lambda>i. ucast (drop_bit (24 - 8 * i) w)) [0..<4]"

definition to_be64 :: "u64 \<Rightarrow> u8 list" where
  "to_be64 w = map (\<lambda>i. ucast (drop_bit (56 - 8 * i) w)) [0..<8]"

definition le32 :: "u8 list \<Rightarrow> u32" where
  "le32 b = ucast (b ! 0) OR push_bit 8 (ucast (b ! 1)) OR push_bit 16 (ucast (b ! 2)) OR push_bit 24 (ucast (b ! 3))"

definition to_le32 :: "u32 \<Rightarrow> u8 list" where
  "to_le32 w = map (\<lambda>i. ucast (drop_bit (8 * i) w)) [0..<4]"

definition to_le64 :: "u64 \<Rightarrow> u8 list" where
  "to_le64 w = map (\<lambda>i. ucast (drop_bit (8 * i) w)) [0..<8]"

section \<open>SHA-256\<close>

definition H0 :: "u32 list" where
  "H0 = [0x6a09e667, 0xbb67ae85, 0x3c6ef372, 0xa54ff53a, 0x510e527f, 0x9b05688c, 0x1f83d9ab, 0x5be0cd19]"

text \<open>The round constants, which the source lists, by the rule they are made by: the first 32
  bits of the fractional parts of the cube roots of the first 64 primes.\<close>

definition first_primes :: "int list" where
  "first_primes = filter (\<lambda>n. \<forall>d\<in>set [2..n - 1]. n mod d \<noteq> 0) [2..311]"

definition icbrt :: "int \<Rightarrow> int" where
  "icbrt n = fold (\<lambda>b r. let r' = r + 2 ^ b in if r' * r' * r' \<le> n then r' else r) (rev [0..<36]) 0"

definition K :: "u32 list" where
  "K = map (\<lambda>p. of_int (icbrt (p * 2 ^ 96))) first_primes"

lemma round_constants_ends:
  "(of_int (icbrt (2 * 2 ^ 96)) :: u32) = 0x428a2f98" "(of_int (icbrt (311 * 2 ^ 96)) :: u32) = 0xc67178f2"
  by (simp_all add: icbrt_def upt_conv_Cons Let_def)

abbreviation (input) SHA256_BLOCK :: nat where "SHA256_BLOCK \<equiv> 64"
abbreviation (input) SHA256_OUT :: nat where "SHA256_OUT \<equiv> 32"

record sha256_state =
  sh_h :: "u32 list"
  sh_buf :: "u8 list"
  sh_buf_len :: nat
  sh_total :: u64

definition sha256_new :: sha256_state where
  "sha256_new = \<lparr> sh_h = H0, sh_buf = replicate SHA256_BLOCK 0, sh_buf_len = 0, sh_total = 0 \<rparr>"

text \<open>The message schedule, the round and the compression of one block.\<close>

definition schedule_word :: "nat \<Rightarrow> u32 list \<Rightarrow> u32 list" where
  "schedule_word i w =
    (let s0 = word_rotr 7 (w ! (i - 15)) XOR word_rotr 18 (w ! (i - 15)) XOR drop_bit 3 (w ! (i - 15));
         s1 = word_rotr 17 (w ! (i - 2)) XOR word_rotr 19 (w ! (i - 2)) XOR drop_bit 10 (w ! (i - 2))
     in w[i := w ! (i - 16) + s0 + w ! (i - 7) + s1])"

definition schedule :: "u8 list \<Rightarrow> u32 list" where
  "schedule block = fold schedule_word [16..<64] (map (\<lambda>i. be32 (take 4 (drop (i * 4) block))) [0..<16] @ replicate 48 0)"

type_synonym sha_regs = "u32 \<times> u32 \<times> u32 \<times> u32 \<times> u32 \<times> u32 \<times> u32 \<times> u32"

definition sha_round :: "u32 list \<Rightarrow> nat \<Rightarrow> sha_regs \<Rightarrow> sha_regs" where
  "sha_round w i r =
    (case r of (a, b, c, d, e, f, g, hh) \<Rightarrow>
       let s1 = word_rotr 6 e XOR word_rotr 11 e XOR word_rotr 25 e;
           ch = (e AND f) XOR (NOT e AND g);
           t1 = hh + s1 + ch + K ! i + w ! i;
           s0 = word_rotr 2 a XOR word_rotr 13 a XOR word_rotr 22 a;
           maj = (a AND b) XOR (a AND c) XOR (b AND c);
           t2 = s0 + maj
       in (t1 + t2, a, b, c, d + t1, e, f, g))"

definition compress :: "u32 list \<Rightarrow> u8 list \<Rightarrow> u32 list" where
  "compress h block =
    (let w = schedule block in
     case fold (sha_round w) [0..<64] (h ! 0, h ! 1, h ! 2, h ! 3, h ! 4, h ! 5, h ! 6, h ! 7) of
       (a, b, c, d, e, f, g, hh) \<Rightarrow>
         [h ! 0 + a, h ! 1 + b, h ! 2 + c, h ! 3 + d, h ! 4 + e, h ! 5 + f, h ! 6 + g, h ! 7 + hh])"

text \<open>The whole blocks of the data, and what is left.\<close>

function absorb :: "u32 list \<Rightarrow> u8 list \<Rightarrow> u32 list \<times> u8 list" where
  "absorb h data = (if length data \<ge> SHA256_BLOCK then absorb (compress h (take SHA256_BLOCK data)) (drop SHA256_BLOCK data) else (h, data))"
  by pat_completeness auto
termination by (relation "measure (\<lambda>(h, d). length d)") auto

declare absorb.simps [simp del]

text \<open>The part of \<open>update\<close> that tops up a partly filled buffer.\<close>

definition top_up :: "u8 list \<Rightarrow> sha256_state \<Rightarrow> u8 list \<times> sha256_state" where
  "top_up data st =
    (if sh_buf_len st > 0
     then let need = SHA256_BLOCK - sh_buf_len st;
              tk = (if length data < need then length data else need);
              buf = take (sh_buf_len st) (sh_buf st) @ take tk data @ drop (sh_buf_len st + tk) (sh_buf st);
              n = sh_buf_len st + tk
          in (drop tk data,
              if n = SHA256_BLOCK then st\<lparr> sh_buf := buf, sh_h := compress (sh_h st) buf, sh_buf_len := 0 \<rparr>
              else st\<lparr> sh_buf := buf, sh_buf_len := n \<rparr>)
     else (data, st))"

definition sha256_update :: "u8 list \<Rightarrow> sha256_state \<Rightarrow> sha256_state" where
  "sha256_update data0 st0 =
    (let (data, st) = top_up data0 (st0\<lparr> sh_total := sh_total st0 + of_nat (length data0) \<rparr>);
         (h, rest) = absorb (sh_h st) data
     in if rest \<noteq> [] then st\<lparr> sh_h := h, sh_buf := rest @ drop (length rest) (sh_buf st), sh_buf_len := length rest \<rparr>
        else st\<lparr> sh_h := h \<rparr>)"

definition sha256_finalize :: "sha256_state \<Rightarrow> u8 list" where
  "sha256_finalize st =
    (let bit_len = sh_total st * 8;
         pad = 0x80 # replicate 71 0;
         rem = sh_buf_len st mod SHA256_BLOCK;
         pad_len = (if rem < 56 then 56 - rem else 120 - rem);
         st1 = sha256_update (take pad_len pad) st;
         st2 = sha256_update (to_be64 bit_len) st1
     in concat (map to_be32 (sh_h st2)))"

definition sha256 :: "u8 list \<Rightarrow> u8 list" where
  "sha256 data = sha256_finalize (sha256_update data sha256_new)"

section \<open>HMAC and HKDF\<close>

definition hmac_key :: "u8 list \<Rightarrow> u8 list" where
  "hmac_key key =
    (if length key > SHA256_BLOCK then sha256 key @ replicate (SHA256_BLOCK - SHA256_OUT) 0
     else key @ replicate (SHA256_BLOCK - length key) 0)"

definition xor_pad :: "u8 \<Rightarrow> u8 list \<Rightarrow> u8 list" where
  "xor_pad c k0 = map (\<lambda>x. c XOR x) k0"

definition hmac_sha256 :: "u8 list \<Rightarrow> u8 list \<Rightarrow> u8 list" where
  "hmac_sha256 key data =
    (let k0 = hmac_key key; ipad = xor_pad 0x36 k0; opad = xor_pad 0x5c k0;
         inner_hash = sha256_finalize (sha256_update data (sha256_update ipad sha256_new))
     in sha256_finalize (sha256_update inner_hash (sha256_update opad sha256_new)))"

record sha256_hmac =
  hm_inner :: sha256_state
  hm_opad :: "u8 list"

definition hmac_new :: "u8 list \<Rightarrow> sha256_hmac" where
  "hmac_new key = (let k0 = hmac_key key
                   in \<lparr> hm_inner = sha256_update (xor_pad 0x36 k0) sha256_new, hm_opad = xor_pad 0x5c k0 \<rparr>)"

definition hmac_update :: "u8 list \<Rightarrow> sha256_hmac \<Rightarrow> sha256_hmac" where
  "hmac_update data m = m\<lparr> hm_inner := sha256_update data (hm_inner m) \<rparr>"

definition hmac_finalize :: "sha256_hmac \<Rightarrow> u8 list" where
  "hmac_finalize m = sha256_finalize (sha256_update (sha256_finalize (hm_inner m)) (sha256_update (hm_opad m) sha256_new))"

text \<open>The expansion fills \<open>out\<close>; after 255 blocks the rest of the buffer is left as it was.\<close>

function hkdf_expand :: "u8 list \<Rightarrow> u8 list \<Rightarrow> u8 list \<Rightarrow> nat \<Rightarrow> u8 list \<Rightarrow> u8 list" where
  "hkdf_expand prk info t counter out =
    (if out = [] then []
     else let t' = hmac_finalize (hmac_update [of_nat counter] (hmac_update info (hmac_update t (hmac_new prk))));
              tk = min SHA256_OUT (length out)
          in take tk t' @ (if counter = 255 then drop tk out else hkdf_expand prk info t' (counter + 1) (drop tk out)))"
  by pat_completeness auto
termination by (relation "measure (\<lambda>(prk, info, t, counter, out). length out)") auto

definition hkdf_sha256 :: "u8 list \<Rightarrow> u8 list \<Rightarrow> u8 list \<Rightarrow> u8 list \<Rightarrow> u8 list" where
  "hkdf_sha256 ikm salt info out =
    (let prk = hmac_sha256 (if salt = [] then replicate SHA256_OUT 0 else salt) ikm in hkdf_expand prk info [] 1 out)"

section \<open>ChaCha20\<close>

definition quarter_round :: "nat \<Rightarrow> nat \<Rightarrow> nat \<Rightarrow> nat \<Rightarrow> u32 list \<Rightarrow> u32 list" where
  "quarter_round a b c d s =
    (let s = s[a := s ! a + s ! b]; s = s[d := word_rotl 16 (s ! d XOR s ! a)];
         s = s[c := s ! c + s ! d]; s = s[b := word_rotl 12 (s ! b XOR s ! c)];
         s = s[a := s ! a + s ! b]; s = s[d := word_rotl 8 (s ! d XOR s ! a)];
         s = s[c := s ! c + s ! d]
     in s[b := word_rotl 7 (s ! b XOR s ! c)])"

definition double_round :: "u32 list \<Rightarrow> u32 list" where
  "double_round s =
    (quarter_round 3 4 9 14 \<circ> quarter_round 2 7 8 13 \<circ> quarter_round 1 6 11 12 \<circ> quarter_round 0 5 10 15
     \<circ> quarter_round 3 7 11 15 \<circ> quarter_round 2 6 10 14 \<circ> quarter_round 1 5 9 13 \<circ> quarter_round 0 4 8 12) s"

definition chacha20_block :: "u8 list \<Rightarrow> u32 \<Rightarrow> u8 list \<Rightarrow> u8 list" where
  "chacha20_block key counter nonce =
    (let state = [0x61707865, 0x3320646e, 0x79622d32, 0x6b206574] @ map (\<lambda>i. le32 (take 4 (drop (i * 4) key))) [0..<8]
                 @ [counter] @ map (\<lambda>i. le32 (take 4 (drop (i * 4) nonce))) [0..<3];
         working = (double_round ^^ 10) state
     in concat (map (\<lambda>i. to_le32 (working ! i + state ! i)) [0..<16]))"

section \<open>The generator\<close>

record rng_state =
  rg_key :: "u8 list"
  rg_nonce :: "u8 list"
  rg_seeded :: bool
  rg_reseeds :: u64

definition rng_new :: rng_state where
  "rng_new = \<lparr> rg_key = [0x9e, 0x37, 0x79, 0xb9, 0x7f, 0x4a, 0x7c, 0x15, 0xf3, 0x9c, 0xc0, 0x60, 0x5c, 0xed,
                0xc8, 0x34, 0x10, 0x82, 0x27, 0x6b, 0xf3, 0xa2, 0x72, 0x51, 0xf8, 0x6c, 0x6a, 0x11,
                0xd0, 0xc1, 0x8e, 0x95],
     rg_nonce = replicate 12 0, rg_seeded = False, rg_reseeds = 0 \<rparr>"

definition reseed_label :: "u8 list" where
  "reseed_label = map of_char ''horus-rng-reseed-v1''"

definition add_entropy :: "u8 list \<Rightarrow> rng_state \<Rightarrow> rng_state" where
  "add_entropy data r =
    (let d = sha256_finalize (sha256_update data (sha256_update (to_le64 (rg_reseeds r)) (sha256_update (rg_nonce r)
               (sha256_update (rg_key r) (sha256_update reseed_label sha256_new)))))
     in r\<lparr> rg_key := d, rg_nonce := map2 (XOR) (rg_nonce r) (take 12 (drop 16 d)), rg_reseeds := rg_reseeds r + 1, rg_seeded := True \<rparr>)"

text \<open>The keystream of \<open>n\<close> bytes from a counter on, and the counter after it.\<close>

function keystream :: "u8 list \<Rightarrow> u8 list \<Rightarrow> u32 \<Rightarrow> nat \<Rightarrow> u8 list \<times> u32" where
  "keystream key nonce counter n =
    (if n = 0 then ([], counter)
     else let ks = chacha20_block key counter nonce; tk = min 64 n; (rest, c) = keystream key nonce (counter + 1) (n - tk)
          in (take tk ks @ rest, c))"
  by pat_completeness auto
termination by (relation "measure (\<lambda>(key, nonce, counter, n). n)") auto

declare keystream.simps [simp del]

definition rng_fill :: "nat \<Rightarrow> rng_state \<Rightarrow> bool \<times> u8 list \<times> rng_state" where
  "rng_fill n r =
    (if \<not> rg_seeded r then (False, replicate n 0, r)
     else let (out, counter) = keystream (rg_key r) (rg_nonce r) 0 n
          in (True, out, r\<lparr> rg_key := take 32 (chacha20_block (rg_key r) counter (rg_nonce r)) \<rparr>))"

definition rust_rng_add_entropy :: "u8 list option \<Rightarrow> rng_state \<Rightarrow> rng_state" where
  "rust_rng_add_entropy data r = (case data of None \<Rightarrow> r | Some d \<Rightarrow> if length d = 0 then r else add_entropy d r)"

definition rust_rng_fill :: "nat \<Rightarrow> rng_state \<Rightarrow> bool \<times> u8 list \<times> rng_state" where
  "rust_rng_fill n r = (if n = 0 then (False, [], r) else rng_fill n r)"

definition rust_rng_u64_checked :: "rng_state \<Rightarrow> bool \<times> u64 \<times> rng_state" where
  "rust_rng_u64_checked r =
    (let (ok, b, r') = rng_fill 8 r
     in if \<not> ok then (False, 0, r')
        else (True, foldr (\<lambda>i acc. push_bit (8 * i) (ucast (b ! i)) OR acc) [0..<8] 0, r'))"

section \<open>Sealing\<close>

function chacha20_xor_from :: "u8 list \<Rightarrow> u8 list \<Rightarrow> u32 \<Rightarrow> u8 list \<Rightarrow> u8 list" where
  "chacha20_xor_from key nonce counter buf =
    (if buf = [] then []
     else map2 (XOR) (take 64 buf) (chacha20_block key counter nonce) @ chacha20_xor_from key nonce (counter + 1) (drop 64 buf))"
  by pat_completeness auto
termination by (relation "measure (\<lambda>(key, nonce, counter, buf). length buf)") auto

declare chacha20_xor_from.simps [simp del]

definition chacha20_xor :: "u8 list \<Rightarrow> u8 list \<Rightarrow> u8 list \<Rightarrow> u8 list" where
  "chacha20_xor key nonce buf = chacha20_xor_from key nonce 0 buf"

definition compute_tag :: "u8 list \<Rightarrow> u8 list \<Rightarrow> u8 list \<Rightarrow> u8 list \<Rightarrow> u8 list" where
  "compute_tag mac_key nonce aad ct =
    take 16 (hmac_finalize (hmac_update ct (hmac_update aad (hmac_update nonce (hmac_new mac_key)))))"

definition tags_equal :: "u8 list \<Rightarrow> u8 list \<Rightarrow> bool" where
  "tags_equal a b \<longleftrightarrow> fold (\<lambda>i diff. diff OR (a ! i XOR b ! i)) [0..<16] 0 = 0"

definition seal :: "u8 list \<Rightarrow> u8 list \<Rightarrow> u8 list \<Rightarrow> u8 list \<Rightarrow> u8 list \<Rightarrow> u8 list \<times> u8 list" where
  "seal enc_key mac_key nonce aad buf =
    (let ct = chacha20_xor enc_key nonce buf in (ct, compute_tag mac_key nonce aad ct))"

definition unseal :: "u8 list \<Rightarrow> u8 list \<Rightarrow> u8 list \<Rightarrow> u8 list \<Rightarrow> u8 list \<Rightarrow> u8 list \<Rightarrow> bool \<times> u8 list" where
  "unseal enc_key mac_key nonce aad buf tag =
    (if \<not> tags_equal (compute_tag mac_key nonce aad buf) tag then (False, replicate (length buf) 0)
     else (True, chacha20_xor enc_key nonce buf))"

text \<open>The calls of the C side: a missing key, nonce or tag is refused.\<close>

definition rust_aead_seal ::
  "u8 list option \<Rightarrow> u8 list option \<Rightarrow> u8 list option \<Rightarrow> u8 list \<Rightarrow> u8 list \<Rightarrow> int \<times> u8 list \<times> u8 list" where
  "rust_aead_seal enc_key mac_key nonce aad buf =
    (case (enc_key, mac_key, nonce) of
       (Some ek, Some mk, Some nc) \<Rightarrow> let (ct, tag) = seal ek mk nc aad buf in (0, ct, tag)
     | _ \<Rightarrow> (-1, buf, []))"

definition rust_aead_open ::
  "u8 list option \<Rightarrow> u8 list option \<Rightarrow> u8 list option \<Rightarrow> u8 list \<Rightarrow> u8 list \<Rightarrow> u8 list option \<Rightarrow> int \<times> u8 list" where
  "rust_aead_open enc_key mac_key nonce aad buf tag =
    (case (enc_key, mac_key, nonce, tag) of
       (Some ek, Some mk, Some nc, Some tg) \<Rightarrow> let (ok, out) = unseal ek mk nc aad buf tg in (if ok then 0 else -1, out)
     | _ \<Rightarrow> (-1, buf))"

section \<open>The hash of a message\<close>

text \<open>The reference: the message is padded to whole blocks, which are compressed in order.\<close>

function blocks :: "u8 list \<Rightarrow> u8 list list" where
  "blocks m = (if length m < SHA256_BLOCK then [] else take SHA256_BLOCK m # blocks (drop SHA256_BLOCK m))"
  by pat_completeness auto
termination by (relation "measure length") auto

declare blocks.simps [simp del]

definition tail :: "u8 list \<Rightarrow> u8 list" where
  "tail m = drop (64 * (length m div 64)) m"

definition compress_all :: "u32 list \<Rightarrow> u8 list \<Rightarrow> u32 list" where
  "compress_all h m = fold (\<lambda>b h. compress h b) (blocks m) h"

definition sha256_padded :: "u8 list \<Rightarrow> u8 list" where
  "sha256_padded m =
    (let r = length m mod 64 in m @ 0x80 # replicate (if r < 56 then 55 - r else 119 - r) 0 @ to_be64 (of_nat (length m) * 8))"

definition sha256_ref :: "u8 list \<Rightarrow> u8 list" where
  "sha256_ref m = concat (map to_be32 (compress_all H0 (sha256_padded m)))"

lemma length_tail: "length (tail m) = length m mod 64"
  by (simp add: tail_def minus_mult_div_eq_mod)

lemma tail_short: "length m < 64 \<Longrightarrow> tail m = m"
  by (simp add: tail_def)

lemma tail_drop: "64 \<le> length m \<Longrightarrow> tail (drop 64 m) = tail m"
  by (simp add: tail_def) (metis add.commute div_add_self1 drop_drop le_add_diff_inverse2 mult_Suc_right plus_1_eq_Suc zero_neq_numeral)

lemma blocks_append: "length a mod 64 = 0 \<Longrightarrow> blocks (a @ b) = blocks a @ blocks b"
proof (induction a rule: blocks.induct)
  case (1 a)
  show ?case
  proof (cases "length a < 64")
    case True
    hence "a = []" using "1.prems" by simp
    thus ?thesis by (simp add: blocks.simps[of "[]"])
  next
    case False
    moreover have "length (drop 64 a) mod 64 = 0" using False "1.prems" by (simp add: le_mod_geq[symmetric])
    ultimately show ?thesis using "1.IH" by (simp add: blocks.simps[of a] blocks.simps[of "a @ b"])
  qed
qed

lemma split_tail: "m = take (64 * (length m div 64)) m @ tail m" "length (take (64 * (length m div 64)) m) mod 64 = 0"
proof -
  have "64 * (length m div 64) \<le> length m" by simp
  thus "length (take (64 * (length m div 64)) m) mod 64 = 0" by (simp add: min_absorb2)
qed (simp add: tail_def)

lemma absorb_eq: "absorb h d = (compress_all h d, tail d)"
  by (induction h d rule: absorb.induct)
    (subst absorb.simps, auto simp: compress_all_def blocks.simps tail_short tail_drop not_le)

lemma blocks_tail: "blocks (m @ d) = blocks m @ blocks (tail m @ d)"
proof -
  let ?a = "take (64 * (length m div 64)) m"
  have t: "blocks (tail m) = []" using length_tail[of m] by (simp add: blocks.simps)
  have "blocks (m @ d) = blocks ?a @ blocks (tail m @ d)" using blocks_append[OF split_tail(2)] split_tail(1) by (metis append.assoc)
  moreover have "blocks m = blocks ?a" using blocks_append[OF split_tail(2), of m "tail m"] split_tail(1)[of m] t by simp
  ultimately show ?thesis by simp
qed

lemma tail_append: "tail (m @ d) = tail (tail m @ d)"
proof -
  have "tail (a @ b) = tail b" if "length a mod 64 = 0" for a b :: "u8 list"
  proof -
    define k where "k = length a div 64"
    have k: "length a = 64 * k" using that mult_div_mod_eq[of 64 "length a"] by (simp add: k_def)
    have "(64 * k + length b) div 64 = k + length b div 64" by simp
    thus ?thesis by (simp add: tail_def k algebra_simps)
  qed
  thus ?thesis using split_tail[of m] by (metis append.assoc)
qed

lemma compress_all_append: "compress_all h (m @ d) = compress_all (compress_all h m) (tail m @ d)"
  by (simp add: compress_all_def blocks_tail[of m d])

text \<open>The streaming state after the bytes \<open>m\<close>.\<close>

definition sha_inv :: "u8 list \<Rightarrow> sha256_state \<Rightarrow> bool" where
  "sha_inv m st \<longleftrightarrow> sh_h st = compress_all H0 m \<and> sh_buf_len st = length m mod 64 \<and> length (sh_buf st) = 64
     \<and> take (length m mod 64) (sh_buf st) = tail m \<and> sh_total st = of_nat (length m)"

lemma sha_inv_new: "sha_inv [] sha256_new"
  by (simp add: sha_inv_def sha256_new_def compress_all_def blocks.simps tail_def)

lemma compress_one: "length b = 64 \<Longrightarrow> compress_all h b = compress h b"
  by (simp add: compress_all_def blocks.simps[of b] blocks.simps[of "[]"])

lemma top_up_inv:
  assumes "sha_inv m st"
  obtains a data st' where "d = a @ data" "top_up d (st\<lparr> sh_total := t \<rparr>) = (data, st'\<lparr> sh_total := t \<rparr>)" "sha_inv (m @ a) (st'\<lparr> sh_total := of_nat (length (m @ a)) \<rparr>)"
    "data = [] \<or> length (m @ a) mod 64 = 0"
proof -
  let ?n = "length m mod 64"
  have i: "sh_h st = compress_all H0 m" "sh_buf_len st = ?n" "length (sh_buf st) = 64" "take ?n (sh_buf st) = tail m"
    using assms by (auto simp: sha_inv_def)
  show ?thesis
  proof (cases "?n = 0")
    case True
    thus ?thesis using assms i(2) by (intro that[of "[]" d st]) (auto simp: top_up_def sha_inv_def)
  next
    case False
    define tk where "tk = (if length d < 64 - ?n then length d else 64 - ?n)"
    define buf where "buf = tail m @ take tk d @ drop (?n + tk) (sh_buf st)"
    have lt: "length (tail m) = ?n" by (rule length_tail)
    have lb: "length buf = 64" "take tk d @ drop tk d = d" "tk \<le> length d" "?n + tk \<le> 64"
      using i(3) lt by (auto simp: buf_def tk_def)
    have eq: "tail (m @ take tk d) = tail (tail m @ take tk d)" by (rule tail_append)
    show ?thesis
    proof (cases "?n + tk = 64")
      case True
      have b: "buf = tail m @ take tk d" using True i(3) by (simp add: buf_def)
      have l: "length (m @ take tk d) mod 64 = 0" using True lb(3) by (simp add: min_absorb2) (metis mod_add_left_eq mod_self)
      have "compress_all H0 (m @ take tk d) = compress (compress_all H0 m) buf"
        unfolding compress_all_append[of H0 m "take tk d"] b[symmetric] by (rule compress_one[OF lb(1)])
      moreover have "tail (m @ take tk d) = []" using l length_tail[of "m @ take tk d"] by simp
      ultimately show ?thesis using i False True lb l
        by (intro that[of "take tk d" "drop tk d" "st\<lparr> sh_buf := buf, sh_h := compress (sh_h st) buf, sh_buf_len := 0 \<rparr>"])
          (auto simp: top_up_def sha_inv_def Let_def tk_def[symmetric] buf_def)
    next
      case nf: False
      hence tk: "tk = length d" "?n + length d < 64" using lb(4) by (auto simp: tk_def split: if_splits)
      have l: "length (m @ d) mod 64 = ?n + length d" using tk(2) by (metis length_append mod_add_left_eq mod_less)
      have t: "tail (m @ d) = tail m @ d" using tail_append[of m d] tail_short[of "tail m @ d"] lt tk(2) by simp
      have c: "compress_all H0 (m @ d) = compress_all H0 m"
        using compress_all_append[of H0 m d] lt tk(2) by (simp add: compress_all_def blocks.simps[of "tail m @ d"])
      show ?thesis using i False nf lb l t c tk
        by (intro that[of d "[]" "st\<lparr> sh_buf := buf, sh_buf_len := ?n + length d \<rparr>"])
          (auto simp: top_up_def sha_inv_def Let_def tk_def[symmetric] buf_def lt)
    qed
  qed
qed

lemma update_inv:
  assumes "sha_inv m st"
  shows "sha_inv (m @ d) (sha256_update d st)"
proof -
  let ?t = "sh_total st + of_nat (length d)"
  obtain a data st' where d: "d = a @ data" and u: "top_up d (st\<lparr> sh_total := ?t \<rparr>) = (data, st'\<lparr> sh_total := ?t \<rparr>)"
    and v: "sha_inv (m @ a) (st'\<lparr> sh_total := of_nat (length (m @ a)) \<rparr>)" and z: "data = [] \<or> length (m @ a) mod 64 = 0"
    using top_up_inv[OF assms, of d ?t] by blast
  have tt: "?t = of_nat (length (m @ d))" using assms by (simp add: sha_inv_def)
  have i: "sh_h st' = compress_all H0 (m @ a)" "length (sh_buf st') = 64" using v by (auto simp: sha_inv_def)
  show ?thesis
  proof (cases "data = []")
    case True
    have "absorb (sh_h st') [] = (sh_h st', [])" by (simp add: absorb.simps)
    thus ?thesis using v d tt True unfolding sha256_update_def u prod.case Let_def
      by (simp add: sha_inv_def)
  next
    case False
    hence t0: "tail (m @ a) = []" using z length_tail[of "m @ a"] by simp
    have t: "tail (m @ d) = tail data" using tail_append[of "m @ a" data] t0 d by simp
    have c: "compress_all H0 (m @ d) = compress_all (compress_all H0 (m @ a)) data" using compress_all_append[of H0 "m @ a" data] t0 d by simp
    have l: "length (m @ d) mod 64 = length (tail data)" using length_tail[of "m @ d"] t by simp
    show ?thesis using i t c l v unfolding sha256_update_def u prod.case Let_def absorb_eq
      by (auto simp: sha_inv_def tt t0 length_tail) (metis length_tail list.size(3))+
  qed
qed

lemma finalize_inv:
  assumes "sha_inv m st"
  shows "sha256_finalize st = sha256_ref m"
proof -
  let ?r = "length m mod 64" and ?p = "0x80 # replicate 71 (0 :: u8)"
  define pl where "pl = (if ?r < 56 then 56 - ?r else 120 - ?r)"
  have r: "sh_buf_len st mod 64 = ?r" "sh_total st = of_nat (length m)" using assms by (auto simp: sha_inv_def)
  have "0 < pl" "pl \<le> 72" by (auto simp: pl_def)
  hence p: "take pl ?p = 0x80 # replicate (pl - 1) 0" by (cases pl) (auto simp: min_def)
  have h: "sh_h (sha256_update (to_be64 (sh_total st * 8)) (sha256_update (take pl ?p) st)) = compress_all H0 ((m @ take pl ?p) @ to_be64 (sh_total st * 8))"
    using update_inv[OF update_inv[OF assms]] by (simp add: sha_inv_def)
  have "(m @ take pl ?p) @ to_be64 (sh_total st * 8) = sha256_padded m"
    unfolding sha256_padded_def p r Let_def by (simp add: pl_def)
  thus ?thesis using h unfolding sha256_finalize_def Let_def r(1) pl_def[symmetric] sha256_ref_def by simp
qed

lemma updates_inv: "sha_inv m st \<Longrightarrow> sha_inv (m @ concat ds) (fold sha256_update ds st)"
  by (induction ds arbitrary: m st) (auto dest: update_inv[of _ _ "_"] simp flip: append_assoc)

lemma hmac_fold: "fold hmac_update ds m = m\<lparr> hm_inner := fold sha256_update ds (hm_inner m) \<rparr>"
  by (induction ds arbitrary: m) (simp_all add: hmac_update_def)

lemma sha_chunks: "sha256_finalize (fold sha256_update ds sha256_new) = sha256_ref (concat ds)"
  using finalize_inv[OF updates_inv[OF sha_inv_new]] by simp

lemma hmac_chunks: "hmac_finalize (fold hmac_update ds (hmac_new key)) = hmac_sha256 key (concat ds)"
  using sha_chunks[of "p # ds" for p] sha_chunks[of "[p, concat ds]" for p]
  by (simp add: hmac_fold hmac_new_def hmac_finalize_def hmac_sha256_def Let_def)

text \<open>C17. The streaming hash is the hash.  However a message is cut into pieces, feeding them to
  the streaming state gives the hash of the whole message as its padded blocks define it, and
  feeding them to the streaming HMAC gives the one-shot HMAC of the whole.\<close>

theorem streaming_hash_exact:
  "sha256_finalize (fold sha256_update chunks sha256_new) = sha256_ref (concat chunks)
   \<and> sha256 m = sha256_ref m
   \<and> hmac_finalize (fold hmac_update chunks (hmac_new key)) = hmac_sha256 key (concat chunks)"
  using sha_chunks[of chunks] sha_chunks[of "[m]"] hmac_chunks by (simp add: sha256_def)

section \<open>Sealing and opening\<close>

lemma length_quarter: "length (quarter_round a b c d s) = length s"
  by (simp add: quarter_round_def Let_def)

lemma length_block: "length (chacha20_block key counter nonce) = 64"
proof -
  have "length (concat (map (\<lambda>i. to_le32 (f i)) xs)) = 4 * length xs" for f :: "nat \<Rightarrow> u32" and xs
    by (induction xs) (simp_all add: to_le32_def)
  thus ?thesis by (simp add: chacha20_block_def Let_def)
qed

text \<open>The generator: as many bytes as asked for, from consecutive blocks, and the next key from
  the block after them; nothing but zeros before the first entropy.\<close>

lemma keystream_length: "length (fst (keystream key nonce c n)) = n"
proof (induction key nonce c n rule: keystream.induct)
  case (1 key nonce c n)
  thus ?case by (subst keystream.simps) (auto simp: length_block Let_def split: prod.splits)
qed

lemma keystream_counter: "snd (keystream key nonce c n) = c + of_nat ((n + 63) div 64)"
proof (induction key nonce c n rule: keystream.induct)
  case (1 key nonce c n)
  show ?case
  proof (cases "n = 0")
    case False
    have "(n + 63) div 64 = Suc ((n - min 64 n + 63) div 64)"
    proof (cases "n \<le> 64")
      case True
      thus ?thesis using False by simp
    next
      case big: False
      hence "min 64 n = 64" by simp
      thus ?thesis using big by simp
    qed
    thus ?thesis using 1[OF False refl refl] False by (subst keystream.simps) (simp add: Let_def case_prod_beta)
  qed (simp add: keystream.simps)
qed

lemma generator_output:
  "\<not> rg_seeded r \<Longrightarrow> rust_rng_fill n r = (False, replicate n 0, r)"
  "rg_seeded (add_entropy d r)"
  "rg_seeded r \<Longrightarrow> n > 0 \<Longrightarrow> \<exists>out. rust_rng_fill n r = (True, out, r\<lparr> rg_key := take 32 (chacha20_block (rg_key r) (of_nat ((n + 63) div 64)) (rg_nonce r)) \<rparr>)
     \<and> length out = n"
  using keystream_length[of "rg_key r" "rg_nonce r" 0 n] keystream_counter[of "rg_key r" "rg_nonce r" 0 n]
  by (auto simp: rust_rng_fill_def rng_fill_def add_entropy_def Let_def split: prod.splits)

lemma length_xor_from: "length (chacha20_xor_from key nonce c buf) = length buf"
proof (induction key nonce c buf rule: chacha20_xor_from.induct)
  case (1 key nonce c buf)
  thus ?case by (subst chacha20_xor_from.simps) (auto simp: length_block)
qed

lemma map2_xor_twice: "length xs \<le> length ks \<Longrightarrow> map2 (XOR) (map2 (XOR) xs ks) ks = (xs :: u8 list)"
  by (induction xs ks rule: list_induct2') (auto simp: xor.assoc)

lemma xor_from_twice: "chacha20_xor_from key nonce c (chacha20_xor_from key nonce c buf) = buf"
proof (induction key nonce c buf rule: chacha20_xor_from.induct)
  case (1 key nonce c buf)
  show ?case
  proof (cases "buf = []")
    case True
    thus ?thesis by (simp add: chacha20_xor_from.simps)
  next
    case False
    let ?ks = "chacha20_block key c nonce" and ?y = "chacha20_xor_from key nonce (c + 1) (drop 64 buf)"
    let ?x = "map2 (XOR) (take 64 buf) ?ks"
    have u: "chacha20_xor_from key nonce c buf = ?x @ ?y" using False by (simp add: chacha20_xor_from.simps[of key nonce c buf])
    have l: "length ?x = min 64 (length buf)" "length ?y = length buf - 64" by (simp_all add: length_block length_xor_from)
    define x y where "x = ?x" and "y = ?y"
    have td: "take 64 (x @ y) = x" "drop 64 (x @ y) = y" using l unfolding x_def y_def by (cases "length buf \<le> 64", auto)+
    have "length x \<noteq> 0" using False unfolding x_def l(1) by simp
    hence ne: "x @ y \<noteq> []" by simp
    have "chacha20_xor_from key nonce c (x @ y) = map2 (XOR) x ?ks @ chacha20_xor_from key nonce (c + 1) y"
      using ne by (subst chacha20_xor_from.simps) (simp only: td if_False)
    also have "\<dots> = take 64 buf @ drop 64 buf"
      using "1.IH"[OF False] map2_xor_twice[of "take 64 buf" ?ks] by (simp add: x_def y_def length_block)
    finally show ?thesis by (simp add: u x_def y_def)
  qed
qed

lemma fold_or_zero: "fold (\<lambda>i d. d OR f i) xs d = 0 \<longleftrightarrow> d = 0 \<and> (\<forall>i \<in> set xs. f i = (0 :: u8))"
  by (induction xs arbitrary: d) (auto simp: or_eq_0_iff)

lemma xor_zero_iff: "a XOR b = 0 \<longleftrightarrow> a = (b :: u8)"
  by (metis bit.xor_self xor.assoc xor.right_neutral xor.commute)

lemma tags_equal_iff: "length a = 16 \<Longrightarrow> length b = 16 \<Longrightarrow> tags_equal a b \<longleftrightarrow> a = b"
  unfolding tags_equal_def fold_or_zero by (auto simp: list_eq_iff_nth_eq xor_zero_iff)

lemma length_compress: "length (compress h b) = 8"
  by (simp add: compress_def Let_def split: prod.splits)

lemma length_compress_all: "length h = 8 \<Longrightarrow> length (compress_all h m) = 8"
proof -
  have "length h = 8 \<Longrightarrow> length (fold (\<lambda>b h. compress h b) bs h) = 8" for bs by (induction bs arbitrary: h) (simp_all add: length_compress)
  thus "length h = 8 \<Longrightarrow> length (compress_all h m) = 8" by (simp add: compress_all_def)
qed

lemma length_sha256_ref: "length (sha256_ref m) = 32"
proof -
  have "length (concat (map to_be32 xs)) = 4 * length xs" for xs by (induction xs) (simp_all add: to_be32_def)
  thus ?thesis by (simp add: sha256_ref_def length_compress_all H0_def)
qed

lemma length_tag: "length (compute_tag mk nc aad ct) = 16"
proof -
  have "length (hmac_sha256 key m) = 32" for key m
    using finalize_inv[OF update_inv[OF update_inv[OF sha_inv_new]]] by (simp add: hmac_sha256_def Let_def length_sha256_ref)
  thus ?thesis using hmac_chunks[of "[nc, aad, ct]" mk] by (simp add: compute_tag_def)
qed

lemma tag_hmac: "compute_tag mk nc aad ct = take 16 (hmac_sha256 mk (nc @ aad @ ct))"
  using hmac_chunks[of "[nc, aad, ct]" mk] by (simp add: compute_tag_def)

text \<open>The bytes of a word determine it.\<close>

lemma to_le64_inj: "to_le64 a = to_le64 b \<longleftrightarrow> a = b"
proof
  assume e: "to_le64 a = to_le64 b"
  show "a = b"
  proof (rule bit_word_eqI)
    fix n assume n: "n < LENGTH(64)"
    hence i: "n div 8 < 8" by simp
    have "(ucast (drop_bit (8 * (n div 8)) a) :: u8) = ucast (drop_bit (8 * (n div 8)) b)"
      using arg_cong[OF e, of "\<lambda>xs. xs ! (n div 8)"] i by (simp add: to_le64_def)
    hence "bit (ucast (drop_bit (8 * (n div 8)) a) :: u8) (n mod 8) = bit (ucast (drop_bit (8 * (n div 8)) b) :: u8) (n mod 8)" by simp
    thus "bit a n = bit b n" using n by (simp add: bit_simps)
  qed
qed simp

text \<open>C14. Sealing is authenticated encryption.  What was sealed opens to the plaintext; and an
  opening succeeds exactly for the tag of that very ciphertext, nonce and context under that
  key, a refused buffer coming back as zeros.  The tag is the first half of the HMAC over the nonce,
  the context and the ciphertext, in that order.\<close>

theorem seal_open_exact:
  assumes "length tag = 16"
  shows "(case seal ek mk nc aad buf of (ct, tg) \<Rightarrow> unseal ek mk nc aad ct tg = (True, buf) \<and> length ct = length buf \<and> length tg = 16)
    \<and> unseal ek mk nc aad ct tag = (if tag = compute_tag mk nc aad ct then (True, chacha20_xor ek nc ct) else (False, replicate (length ct) 0))
    \<and> compute_tag mk nc aad ct = take 16 (hmac_sha256 mk (nc @ aad @ ct))"
proof -
  have "unseal ek mk nc aad ct tag = (if tag = compute_tag mk nc aad ct then (True, chacha20_xor ek nc ct) else (False, replicate (length ct) 0))"
    using assms tags_equal_iff[OF length_tag] by (auto simp: unseal_def)
  moreover have "case seal ek mk nc aad buf of (ct, tg) \<Rightarrow> unseal ek mk nc aad ct tg = (True, buf) \<and> length ct = length buf \<and> length tg = 16"
    using tags_equal_iff[OF length_tag] length_tag by (auto simp: seal_def unseal_def Let_def chacha20_xor_def xor_from_twice length_xor_from)
  ultimately show ?thesis using tag_hmac by blast
qed

theorem seal_open_exact_witness:
  "unseal [] [] [] [] (fst (seal [] [] [] [] [1, 2])) (snd (seal [] [] [] [] [1, 2])) = (True, [1, 2])"
proof -
  have "length (replicate 16 (0 :: u8)) = 16" by simp
  from seal_open_exact[OF this, of "[]" "[]" "[]" "[]" "[1, 2]" "[]"] show ?thesis by (auto split: prod.splits)
qed

end
