(* ===== verification/Swap.thy ===== *)
theory Swap
  imports Crypto User_Mem
begin

text \<open>
  Swap (\<^verbatim>\<open>src/kernel/swap.c\<close>) and the pager over it (\<^verbatim>\<open>src/kernel/paging.c\<close>): the slot table,
  sealing a page into a slot and opening it again, reference counts of slots, the clock that
  picks idle pages of a task, their eviction, and bringing a page back.  It instantiates the
  operations \<open>User_Mem\<close> takes as a parameter.  The block device below it is a parameter: a
  state, a read and a write.  The slot table, which the code keeps in frames of the pool
  found through a directory, is a function from slots; the frames themselves are taken from the
  pool when swap is enabled.

  The lemmas show that a page put into a slot is what a later get returns over any run of
  operations that keeps a reference to the slot, that a block altered or replayed on the device
  is refused unless its tag matches, that a fault brings an evicted page back byte for byte into
  a fresh frame with its flags, and that the pager changes nothing of the kernel's state but
  the page pool.
\<close>

section \<open>The slots\<close>

record swap_slot =
  sl_gen :: u64
  sl_tag :: "u8 list"
  sl_refs :: u32

record 'b block_dev =
  bd_read :: "'b \<Rightarrow> u64 \<Rightarrow> u8 list option"
  bd_write :: "'b \<Rightarrow> u64 \<Rightarrow> u8 list \<Rightarrow> bool \<times> 'b"

record 'b swap_state =
  sp_on :: bool
  sp_dev :: 'b
  sp_base :: u64
  sp_slots :: nat
  sp_used :: u64
  sp_hint :: nat
  sp_gen :: u64
  sp_enc :: "u8 list"
  sp_mac :: "u8 list"
  sp_tab :: "nat \<Rightarrow> swap_slot"
  sp_outs :: u64
  sp_ins :: u64
  sp_evict_cursor :: "nat \<Rightarrow> u64"
  sp_idle_cursor :: nat
  sp_idle_taken :: u64
  sp_init_task :: int

definition zero_swap_slot :: swap_slot where
  "zero_swap_slot = \<lparr> sl_gen = 0, sl_tag = replicate 16 0, sl_refs = 0 \<rparr>"

abbreviation (input) SLOTS_PER_FRAME :: nat where "SLOTS_PER_FRAME \<equiv> 128"
abbreviation (input) DIR_ENTRIES :: nat where "DIR_ENTRIES \<equiv> 1024"
abbreviation (input) SWAP_DIRS :: nat where "SWAP_DIRS \<equiv> 4"
abbreviation (input) SWAP_SLOTS_MAX :: nat where "SWAP_SLOTS_MAX \<equiv> SWAP_DIRS * DIR_ENTRIES * SLOTS_PER_FRAME"

text \<open>The nonce and the context a slot is sealed with: its number and its generation.\<close>

definition swap_label :: "u8 list" where
  "swap_label = map of_char ''horuswap''"

definition seal_params :: "nat \<Rightarrow> u64 \<Rightarrow> u8 list \<times> u8 list" where
  "seal_params slot gen = (to_le32 (of_nat slot) @ to_le64 gen, swap_label @ to_le64 (of_nat slot) @ to_le64 gen)"

definition seal_and_write :: "'b block_dev \<Rightarrow> nat \<Rightarrow> u8 list \<Rightarrow> 'b swap_state \<Rightarrow> bool \<times> 'b swap_state" where
  "seal_and_write bd slot page s =
    (let gen = sp_gen s + 1; s1 = s\<lparr> sp_gen := gen \<rparr>; (nonce, aad) = seal_params slot gen;
         (rc, ct, tag) = rust_aead_seal (Some (sp_enc s)) (Some (sp_mac s)) (Some nonce) aad page
     in if rc \<noteq> 0 then (False, s1)
        else let (ok, d) = bd_write bd (sp_dev s1) (sp_base s1 + of_nat slot) ct; s2 = s1\<lparr> sp_dev := d \<rparr>
             in if \<not> ok then (False, s2)
                else (True, s2\<lparr> sp_tab := (sp_tab s2)(slot := (sp_tab s2 slot)\<lparr> sl_gen := gen, sl_tag := tag,
                   sl_refs := (if sl_refs (sp_tab s2 slot) = 0 then 1 else sl_refs (sp_tab s2 slot)) \<rparr>) \<rparr>))"

definition swap_put :: "'b block_dev \<Rightarrow> u8 list \<Rightarrow> 'b swap_state \<Rightarrow> nat option \<times> 'b swap_state" where
  "swap_put bd page s =
    (if \<not> sp_on s then (None, s)
     else case find (\<lambda>i. sl_gen (sp_tab s i) = 0) (map (\<lambda>k. (sp_hint s + k) mod sp_slots s) [0..<sp_slots s]) of
       None \<Rightarrow> (None, s)
     | Some slot \<Rightarrow>
         let (ok, s1) = seal_and_write bd slot page s in
         if \<not> ok then (None, s1)
         else (Some slot, s1\<lparr> sp_used := sp_used s1 + 1, sp_hint := slot + 1, sp_outs := sp_outs s1 + 1 \<rparr>))"

definition swap_ref :: "nat \<Rightarrow> 'b swap_state \<Rightarrow> 'b swap_state" where
  "swap_ref slot s =
    (if sp_on s \<and> slot < sp_slots s \<and> sl_gen (sp_tab s slot) \<noteq> 0
     then s\<lparr> sp_tab := (sp_tab s)(slot := (sp_tab s slot)\<lparr> sl_refs := sl_refs (sp_tab s slot) + 1 \<rparr>) \<rparr> else s)"

definition swap_get :: "'b block_dev \<Rightarrow> nat \<Rightarrow> 'b swap_state \<Rightarrow> int \<times> u8 list \<times> 'b swap_state" where
  "swap_get bd slot s =
    (if \<not> sp_on s then (-3, [], s)
     else if slot \<ge> sp_slots s \<or> sl_gen (sp_tab s slot) = 0 then (-3, [], s)
     else case bd_read bd (sp_dev s) (sp_base s + of_nat slot) of
       None \<Rightarrow> (-2, [], s)
     | Some blk \<Rightarrow>
         let (nonce, aad) = seal_params slot (sl_gen (sp_tab s slot));
             (rc, page) = rust_aead_open (Some (sp_enc s)) (Some (sp_mac s)) (Some nonce) aad blk (Some (sl_tag (sp_tab s slot)))
         in if rc \<noteq> 0 then (-1, [], s) else (0, page, s\<lparr> sp_ins := sp_ins s + 1 \<rparr>))"

definition swap_free :: "nat \<Rightarrow> 'b swap_state \<Rightarrow> 'b swap_state" where
  "swap_free slot s =
    (if sp_on s \<and> slot < sp_slots s
     then let t = sp_tab s slot in
       if sl_gen t \<noteq> 0 \<and> sl_refs t > 1
       then s\<lparr> sp_tab := (sp_tab s)(slot := t\<lparr> sl_refs := sl_refs t - 1 \<rparr>) \<rparr>
       else s\<lparr> sp_used := (if sl_gen t \<noteq> 0 then sp_used s - 1 else sp_used s), sp_tab := (sp_tab s)(slot := zero_swap_slot) \<rparr>
     else s)"

text \<open>Enabling swap takes the bounce page, the directories and the frames of the table from the
  pool; \<open>enc\<close> and \<open>mac\<close> are the keys drawn for this boot.\<close>

fun take_frames :: "nat \<Rightarrow> page_pool \<Rightarrow> bool \<times> page_pool" where
  "take_frames 0 p = (True, p)"
| "take_frames (Suc n) p = (let (f, p1) = alloc_user_physical_page p in if f = 0 then (False, p1) else take_frames n p1)"

definition swap_enable :: "u64 \<Rightarrow> nat \<Rightarrow> u8 list \<Rightarrow> u8 list \<Rightarrow> 'b option \<Rightarrow> 'b swap_state \<Rightarrow> page_pool \<Rightarrow> 'b swap_state \<times> page_pool" where
  "swap_enable base n enc mac dev s p =
    (case dev of
       None \<Rightarrow> (s, p)
     | Some d \<Rightarrow>
         if sp_on s \<or> n = 0 then (s, p)
         else let slots = (if n < SWAP_SLOTS_MAX then n else SWAP_SLOTS_MAX);
                  frames = (slots + SLOTS_PER_FRAME - 1) div SLOTS_PER_FRAME;
                  dirs = (frames + DIR_ENTRIES - 1) div DIR_ENTRIES;
                  (ok, p1) = take_frames (1 + dirs + frames) p
              in if \<not> ok then (s, p1)
                 else (s\<lparr> sp_enc := enc, sp_mac := mac, sp_dev := d, sp_base := base, sp_slots := slots, sp_used := 0, sp_hint := 0,
                          sp_gen := 0, sp_tab := (\<lambda>_. zero_swap_slot), sp_on := True \<rparr>, p1))"

section \<open>The pager\<close>

text \<open>A name as a C string: the bytes before the terminating zero.\<close>

definition c_string :: "u8 list \<Rightarrow> u8 list" where
  "c_string bs = takeWhile (\<lambda>b. b \<noteq> 0) bs"

definition swap_task_pinned :: "nat \<Rightarrow> 'b swap_state mach \<Rightarrow> bool" where
  "swap_task_pinned t \<sigma> \<longleftrightarrow>
     int t = sp_init_task (m_dev \<sigma>)
     \<or> c_string (t_name (k_tasks (m_k \<sigma>) t)) \<in> set (map (map of_char) [''init'', ''fs_server'', ''console_server''])"

definition swap_evictable :: "page_pool \<Rightarrow> u64 \<Rightarrow> bool" where
  "swap_evictable p pte \<longleftrightarrow>
     pte AND (PAGE_PRESENT OR PAGE_USER) = PAGE_PRESENT OR PAGE_USER
     \<and> pte AND (PAGE_COW OR PAGE_SEALED OR PAGE_PS) = 0
     \<and> unat (pte AND PTE_ADDR_MASK) \<noteq> pp_zero_page p
     \<and> (case pool_frame_index p (unat (pte AND PTE_ADDR_MASK)) of None \<Rightarrow> False | Some idx \<Rightarrow> on_loan p idx \<and> pp_refs p idx = 1)"

abbreviation (input) PAGE_ACCESSED :: u64 where "PAGE_ACCESSED \<equiv> 0x20"
abbreviation (input) PAGE_DIRTY :: u64 where "PAGE_DIRTY \<equiv> 0x40"

definition SWAP_KEEP_FLAGS :: u64 where
  "SWAP_KEEP_FLAGS = PAGE_WRITE OR PAGE_USER OR PAGE_COW OR PAGE_NX"

text \<open>The last-level entry of \<open>va\<close>, or the size of the region the
  missing table would map.\<close>

definition next_region :: "nat \<Rightarrow> nat \<Rightarrow> nat" where
  "next_region k va = (va div 2 ^ k + 1) * 2 ^ k"

definition clock_entry :: "pmem \<Rightarrow> u64 \<Rightarrow> nat \<Rightarrow> u64 + nat" where
  "clock_entry m cr3 va =
    (let v = of_nat va; e4 = pt_entry m cr3 39 v in
     if e4 AND PAGE_PRESENT = 0 then Inr 39
     else let e3 = pt_entry m (e4 AND PTE_ADDR_MASK) 30 v in
       if e3 AND PAGE_PRESENT = 0 \<or> e3 AND PAGE_PS \<noteq> 0 then Inr 30
       else let e2 = pt_entry m (e3 AND PTE_ADDR_MASK) 21 v in
         if e2 AND PAGE_PRESENT = 0 \<or> e2 AND PAGE_PS \<noteq> 0 then Inr 21
         else Inl ((e2 AND PTE_ADDR_MASK) + 8 * pt_index 12 v))"

lemma next_region_gt: "va < next_region k va"
  using dividend_less_times_div[of "2 ^ k" va] by (simp add: next_region_def algebra_simps)

text \<open>The clock: from where the hand of the task stopped, once round its user half.  A page
  touched since the hand last passed loses its accessed bit; one untouched is a victim.  Whether
  the scan comes round depends on where it started, so its result is an option.\<close>

definition clock_visit :: "page_pool \<Rightarrow> task_image \<Rightarrow> nat \<Rightarrow> u64 \<Rightarrow> (nat \<times> u64) list \<Rightarrow> pmem \<Rightarrow> (nat \<times> u64) list \<times> pmem" where
  "clock_visit p im va slot victims m =
    (let pte = rd64 m slot in
     if swap_evictable p pte \<and> rust_validate_page_fault (of_nat va) 0 (im_base im) (im_end im) (im_heap_start im) (im_heap_end im)
     then if pte AND PAGE_ACCESSED \<noteq> 0 then (victims, wr64 slot (pte AND NOT PAGE_ACCESSED) m)
          else (victims @ [(va, pte)], m)
     else (victims, m))"

partial_function (option) clock_scan ::
  "page_pool \<Rightarrow> task_image \<Rightarrow> u64 \<Rightarrow> nat \<Rightarrow> int \<Rightarrow> nat \<Rightarrow> bool \<Rightarrow> (nat \<times> u64) list \<Rightarrow> pmem \<Rightarrow> (nat \<times> (nat \<times> u64) list \<times> pmem) option" where
  "clock_scan p im cr3 start want va0 wrapped0 victims m =
    (if int (length victims) \<ge> want then Some (va0, victims, m)
     else let va = (if va0 \<ge> 0x800000000000 then 0 else va0); wrapped = (if va0 \<ge> 0x800000000000 then True else wrapped0) in
       if wrapped \<and> va \<ge> start then Some (va, victims, m)
       else case clock_entry m cr3 va of
         Inr k \<Rightarrow> clock_scan p im cr3 start want (next_region k va) wrapped victims m
       | Inl slot \<Rightarrow>
           let vm = clock_visit p im va slot victims m
           in clock_scan p im cr3 start want (va + 4096) wrapped (fst vm) (snd vm))"

text \<open>Each victim goes out, unless its entry changed meanwhile.\<close>

definition evict_page ::
  "'b block_dev \<Rightarrow> nat \<Rightarrow> u64 \<Rightarrow> u64 \<Rightarrow> nat \<Rightarrow> u64 \<Rightarrow> 'b swap_state mach \<Rightarrow> bool \<times> int \<times> 'b swap_state mach" where
  "evict_page bd t cr3 gen va pte \<sigma> =
    (let phys = pte AND PTE_ADDR_MASK;
         (r, s1) = swap_put bd (get_bytes phys 4096 (m_mem \<sigma>)) (m_dev \<sigma>);
         \<sigma>1 = \<sigma>\<lparr> m_dev := s1 \<rparr>; ad = PAGE_ACCESSED OR PAGE_DIRTY; x = k_tasks (m_k \<sigma>1) t
     in case r of
          None \<Rightarrow> (False, 0, \<sigma>1)
        | Some sslot \<Rightarrow>
            (case (if t_cr3 x = cr3 \<and> t_slot_gen x = gen then user_pte_existing (m_mem \<sigma>1) cr3 (of_nat va) else None) of
               Some slot \<Rightarrow>
                 if rd64 (m_mem \<sigma>1) slot AND NOT ad = pte AND NOT ad
                 then (True, 1, set_pool (user_leaf_release (unat phys) (m_pool \<sigma>1))
                        (\<sigma>1\<lparr> m_mem := wr64 slot (push_bit 12 (of_nat sslot) OR (pte AND SWAP_KEEP_FLAGS) OR PAGE_SWAPPED) (m_mem \<sigma>1) \<rparr>))
                 else (True, 0, \<sigma>1\<lparr> m_dev := swap_free sslot (m_dev \<sigma>1) \<rparr>)
             | None \<Rightarrow> (True, 0, \<sigma>1\<lparr> m_dev := swap_free sslot (m_dev \<sigma>1) \<rparr>)))"

fun evict_victims ::
  "'b block_dev \<Rightarrow> nat \<Rightarrow> u64 \<Rightarrow> u64 \<Rightarrow> (nat \<times> u64) list \<Rightarrow> int \<Rightarrow> 'b swap_state mach \<Rightarrow> int \<times> 'b swap_state mach" where
  "evict_victims bd t cr3 gen [] n \<sigma> = (n, \<sigma>)"
| "evict_victims bd t cr3 gen ((va, pte) # vs) n \<sigma> =
    (case evict_page bd t cr3 gen va pte \<sigma> of
       (False, d, \<sigma>1) \<Rightarrow> (n, \<sigma>1)
     | (True, d, \<sigma>1) \<Rightarrow> evict_victims bd t cr3 gen vs (n + d) \<sigma>1)"

definition swap_evict_from :: "'b block_dev \<Rightarrow> int \<Rightarrow> int \<Rightarrow> 'b swap_state mach \<Rightarrow> (int \<times> 'b swap_state mach) option" where
  "swap_evict_from bd ti want0 \<sigma> =
    (let t = nat ti; x = k_tasks (m_k \<sigma>) t; want = (if want0 > SWAP_EVICT_BATCH then SWAP_EVICT_BATCH else want0) in
     if ti \<le> 0 \<or> ti \<ge> int (k_max_tasks (m_k \<sigma>)) \<or> t_cr3 x = 0 \<or> swap_task_pinned t \<sigma> then Some (0, \<sigma>)
     else let start = unat (sp_evict_cursor (m_dev \<sigma>) t AND 0x00007FFFFFFFF000) in
       case clock_scan (m_pool \<sigma>) (t_image x) (t_cr3 x) start want start False [] (m_mem \<sigma>) of
         None \<Rightarrow> None
       | Some (va, victims, m) \<Rightarrow>
           Some (evict_victims bd t (t_cr3 x) (t_slot_gen x) victims 0
             (\<sigma>\<lparr> m_mem := m, m_dev := (m_dev \<sigma>)\<lparr> sp_evict_cursor := (sp_evict_cursor (m_dev \<sigma>))(t := of_nat va) \<rparr> \<rparr>)))"

definition swap_evict_self :: "'b block_dev \<Rightarrow> int \<Rightarrow> 'b swap_state mach \<Rightarrow> (int \<times> 'b swap_state mach) option" where
  "swap_evict_self bd want \<sigma> = swap_evict_from bd (int (k_cur (m_k \<sigma>))) want \<sigma>"

text \<open>The hold on a task no processor runs, and the round over such tasks.\<close>

definition sched_pager_hold :: "int \<Rightarrow> kstate \<Rightarrow> bool \<times> kstate" where
  "sched_pager_hold ti s =
    (if ti \<le> 0 \<or> ti \<ge> int (k_max_tasks s) then (False, s)
     else let t = nat ti; x = k_tasks s t;
              ok = (\<not> t_pager_hold x \<and> t_cr3 x \<noteq> 0 \<and> t_saved_ksp x \<noteq> 0
                    \<and> (t_state x = TASK_RUNNABLE \<or> t_state x = TASK_BLOCKED_IPC
                       \<or> t_state x = TASK_BLOCKED_NOTIF \<or> t_state x = TASK_BLOCKED_WAIT))
          in if \<not> ok then (False, s)
             else let s1 = upd_task t (\<lambda>y. y\<lparr> t_pager_hold := True \<rparr>) s in
               if k_running_cpu s1 t \<ge> 0 \<or> (\<exists>c\<in>set [0..<MAX_CPUS]. k_percpu_cur s1 c = ti)
               then (False, upd_task t (\<lambda>y. y\<lparr> t_pager_hold := False \<rparr>) s1) else (True, s1))"

definition sched_pager_release :: "int \<Rightarrow> kstate \<Rightarrow> kstate" where
  "sched_pager_release ti s =
    (if ti \<le> 0 \<or> ti \<ge> int (k_max_tasks s) then s else upd_task (nat ti) (\<lambda>y. y\<lparr> t_pager_hold := False \<rparr>) s)"

abbreviation (input) SWAP_IDLE_TRIES :: nat where "SWAP_IDLE_TRIES \<equiv> 8"

fun idle_walk :: "'b block_dev \<Rightarrow> int \<Rightarrow> nat list \<Rightarrow> int \<Rightarrow> nat \<Rightarrow> 'b swap_state mach \<Rightarrow> (int \<times> 'b swap_state mach) option" where
  "idle_walk bd want [] got tried \<sigma> = Some (got, \<sigma>)"
| "idle_walk bd want (i # is) got tried \<sigma> =
    (if \<not> (got < want \<and> tried < SWAP_IDLE_TRIES) then Some (got, \<sigma>)
     else let t = (sp_idle_cursor (m_dev \<sigma>) + i) mod k_max_tasks (m_k \<sigma>) in
       if t = 0 \<or> t = k_cur (m_k \<sigma>) \<or> t_cr3 (k_tasks (m_k \<sigma>) t) = 0 \<or> swap_task_pinned t \<sigma> then idle_walk bd want is got tried \<sigma>
       else case sched_pager_hold (int t) (m_k \<sigma>) of
         (False, k1) \<Rightarrow> idle_walk bd want is got tried (\<sigma>\<lparr> m_k := k1 \<rparr>)
       | (True, k1) \<Rightarrow>
           (case swap_evict_from bd (int t) (want - got) (\<sigma>\<lparr> m_k := k1 \<rparr>) of
              None \<Rightarrow> None
            | Some (n, \<sigma>2) \<Rightarrow>
                idle_walk bd want is (got + n) (tried + 1)
                  (\<sigma>2\<lparr> m_k := sched_pager_release (int t) (m_k \<sigma>2), m_dev := (m_dev \<sigma>2)\<lparr> sp_idle_cursor := t \<rparr> \<rparr>)))"

definition swap_evict_idle :: "'b block_dev \<Rightarrow> int \<Rightarrow> 'b swap_state mach \<Rightarrow> (int \<times> 'b swap_state mach) option" where
  "swap_evict_idle bd want \<sigma> =
    (case idle_walk bd want [1..<k_max_tasks (m_k \<sigma>)] 0 0 \<sigma> of
       None \<Rightarrow> None
     | Some (got, \<sigma>1) \<Rightarrow>
         Some (got, if got > 0 then \<sigma>1\<lparr> m_dev := (m_dev \<sigma>1)\<lparr> sp_idle_taken := sp_idle_taken (m_dev \<sigma>1) + of_int got \<rparr> \<rparr> else \<sigma>1))"

text \<open>A page comes back.\<close>

definition swap_fault_in :: "'b block_dev \<Rightarrow> u64 \<Rightarrow> u64 \<Rightarrow> u64 \<Rightarrow> 'b swap_state mach \<Rightarrow> int \<times> 'b swap_state mach" where
  "swap_fault_in bd ptv pt_i fault_addr \<sigma> =
    (let a = ptv + 8 * pt_i; pte = rd64 (m_mem \<sigma>) a in
     if pte AND PAGE_PRESENT \<noteq> 0 \<or> pte AND PAGE_SWAPPED = 0 then (0, \<sigma>)
     else let (phys, p1) = alloc_user_physical_page (m_pool \<sigma>); \<sigma>1 = set_pool p1 \<sigma> in
       if phys = 0 then (-3, \<sigma>1)
       else let sslot = unat (drop_bit 12 (pte AND PTE_ADDR_MASK));
                (rc, page, s1) = swap_get bd sslot (m_dev \<sigma>1);
                \<sigma>2 = \<sigma>1\<lparr> m_mem := (if rc = 0 then put_bytes (of_nat phys) page (m_mem \<sigma>1) else m_mem \<sigma>1), m_dev := s1 \<rparr>;
                undo = set_pool (free_user_physical_page phys (m_pool \<sigma>2)) \<sigma>2
            in if rd64 (m_mem \<sigma>2) a \<noteq> pte then (0, undo)
               else if rc \<noteq> 0 then (-7, undo)
               else (0, \<sigma>2\<lparr> m_mem := wr64 a (of_nat phys OR (pte AND SWAP_KEEP_FLAGS) OR PAGE_PRESENT) (m_mem \<sigma>2),
                            m_dev := swap_free sslot (m_dev \<sigma>2) \<rparr>))"

text \<open>The operations the memory paths are given.  A scan that never came round would have no
  result; \<open>pager_returns\<close> below shows when there is none such.\<close>

definition swap_dev :: "'b block_dev \<Rightarrow> 'b swap_state swap_ops" where
  "swap_dev bd = \<lparr> sw_enabled = sp_on,
     sw_evict_idle = (\<lambda>w \<sigma>. case swap_evict_idle bd w \<sigma> of None \<Rightarrow> (0, \<sigma>) | Some r \<Rightarrow> r),
     sw_evict_self = (\<lambda>w \<sigma>. case swap_evict_self bd w \<sigma> of None \<Rightarrow> (0, \<sigma>) | Some r \<Rightarrow> r),
     sw_fault_in = swap_fault_in bd \<rparr>"

section \<open>A page in a slot\<close>

text \<open>What the code relies on of the block device: a block that was written reads back as it was
  written, and a write changes no other block, whether it succeeds or fails half-way.\<close>

definition dev_ok :: "'b block_dev \<Rightarrow> bool" where
  "dev_ok bd \<longleftrightarrow> (\<forall>d b x ok d'. bd_write bd d b x = (ok, d') \<longrightarrow>
     (ok \<longrightarrow> bd_read bd d' b = Some x) \<and> (\<forall>b'. b' \<noteq> b \<longrightarrow> bd_read bd d' b' = bd_read bd d b'))"

definition stored :: "'b block_dev \<Rightarrow> nat \<Rightarrow> u8 list \<Rightarrow> 'b swap_state \<Rightarrow> bool" where
  "stored bd slot page s \<longleftrightarrow>
     sp_on s \<and> slot < sp_slots s \<and> sl_gen (sp_tab s slot) \<noteq> 0
     \<and> (\<exists>blk. bd_read bd (sp_dev s) (sp_base s + of_nat slot) = Some blk
        \<and> unseal (sp_enc s) (sp_mac s) (fst (seal_params slot (sl_gen (sp_tab s slot)))) (snd (seal_params slot (sl_gen (sp_tab s slot))))
             blk (sl_tag (sp_tab s slot)) = (True, page))"

lemma stored_frame [simp]:
  "stored bd slot page (s\<lparr> sp_used := u, sp_hint := h, sp_outs := c \<rparr>) = stored bd slot page s"
  "stored bd slot page (s\<lparr> sp_ins := c \<rparr>) = stored bd slot page s"
  by (simp_all add: stored_def)

lemma stored_get: "stored bd slot page s \<Longrightarrow> swap_get bd slot s = (0, page, s\<lparr> sp_ins := sp_ins s + 1 \<rparr>)"
  by (auto simp: stored_def swap_get_def rust_aead_open_def Let_def split: option.splits prod.splits)

lemma swap_put_Some:
  assumes "swap_put bd page s = (Some slot, s')"
  obtains s1 where "sp_on s" "slot < sp_slots s" "sl_gen (sp_tab s slot) = 0" "seal_and_write bd slot page s = (True, s1)"
    "s' = s1\<lparr> sp_used := sp_used s1 + 1, sp_hint := slot + 1, sp_outs := sp_outs s1 + 1 \<rparr>"
  using assms
  by (force simp: swap_put_def Let_def find_Some_iff split: if_splits option.splits prod.splits)

lemma seal_and_write_True:
  assumes "seal_and_write bd slot page s = (True, s1)"
  obtains d nonce aad where "seal_params slot (sp_gen s + 1) = (nonce, aad)"
    "bd_write bd (sp_dev s) (sp_base s + of_nat slot) (chacha20_xor (sp_enc s) nonce page) = (True, d)"
    "s1 = s\<lparr> sp_gen := sp_gen s + 1, sp_dev := d, sp_tab := (sp_tab s)(slot := (sp_tab s slot)\<lparr> sl_gen := sp_gen s + 1,
       sl_tag := compute_tag (sp_mac s) nonce aad (chacha20_xor (sp_enc s) nonce page),
       sl_refs := (if sl_refs (sp_tab s slot) = 0 then 1 else sl_refs (sp_tab s slot)) \<rparr>) \<rparr>"
  using assms
  by (cases "seal_params slot (sp_gen s + 1)") (auto simp: seal_and_write_def rust_aead_seal_def seal_def Let_def split: prod.splits if_splits)

lemma unseal_seal: "unseal ek mk nc aad (chacha20_xor ek nc page) (compute_tag mk nc aad (chacha20_xor ek nc page)) = (True, page)"
  by (simp add: unseal_def tags_equal_iff length_tag chacha20_xor_def xor_from_twice)

lemma put_stored:
  assumes "dev_ok bd" "swap_put bd page s = (Some slot, s')" "sp_gen s \<noteq> -1"
  shows "stored bd slot page s'"
proof -
  have g: "sp_gen s + 1 \<noteq> 0" using assms(3) by (simp add: eq_neg_iff_add_eq_0)
  from assms(2) obtain s1 where s1: "sp_on s" "slot < sp_slots s" "seal_and_write bd slot page s = (True, s1)"
    "s' = s1\<lparr> sp_used := sp_used s1 + 1, sp_hint := slot + 1, sp_outs := sp_outs s1 + 1 \<rparr>" by (elim swap_put_Some)
  from s1(3) show ?thesis
    by (rule seal_and_write_True) (use s1 g assms(1) in \<open>auto simp: stored_def dev_ok_def unseal_seal\<close>)
qed

text \<open>Two slots are two blocks.\<close>

lemma slot_block_neq:
  assumes "i < n" "j < n" "i \<noteq> j" "n \<le> 2 ^ 64"
  shows "(b :: u64) + of_nat i \<noteq> b + of_nat j"
proof
  assume "b + of_nat i = b + of_nat j"
  hence "unat (of_nat i :: u64) = unat (of_nat j :: u64)" by simp
  thus False using assms unat_of_nat64[of i] unat_of_nat64[of j] by simp
qed

lemma seal_and_write_keeps:
  assumes "dev_ok bd" "stored bd slot page s" "sp_slots s \<le> 2 ^ 64" "seal_and_write bd i pg s = (ok, s1)" "i < sp_slots s" "i \<noteq> slot"
  shows "stored bd slot page s1"
proof (cases ok)
  case True
  with assms(4) have "seal_and_write bd i pg s = (True, s1)" by simp
  thus ?thesis
    by (rule seal_and_write_True)
       (use assms slot_block_neq[of i "sp_slots s" slot "sp_base s"] in \<open>auto simp: stored_def dev_ok_def split: option.splits\<close>)
next
  case False
  have d: "bd_read bd d' (sp_base s + of_nat slot) = bd_read bd (sp_dev s) (sp_base s + of_nat slot)"
    if "bd_write bd (sp_dev s) (sp_base s + of_nat i) x = (False, d')" for x d'
    using assms(1,2,3,5,6) that slot_block_neq[of i "sp_slots s" slot "sp_base s"] by (auto simp: dev_ok_def stored_def)
  from False assms(2,4) show ?thesis
    by (auto simp: seal_and_write_def stored_def Let_def d split: option.splits if_splits prod.splits)
qed

lemma put_keeps:
  assumes "dev_ok bd" "stored bd slot page s" "sp_slots s \<le> 2 ^ 64"
  shows "stored bd slot page (snd (swap_put bd pg s))"
proof (cases "find (\<lambda>i. sl_gen (sp_tab s i) = 0) (map (\<lambda>k. (sp_hint s + k) mod sp_slots s) [0..<sp_slots s])")
  case None
  with assms(2) show ?thesis by (simp add: swap_put_def)
next
  case (Some i)
  hence i: "sl_gen (sp_tab s i) = 0" "i < sp_slots s" by (auto simp: find_Some_iff)
  obtain ok s1 where w: "seal_and_write bd i pg s = (ok, s1)" by (cases "seal_and_write bd i pg s")
  from i(1) assms(2) have "i \<noteq> slot" by (auto simp: stored_def)
  from seal_and_write_keeps[OF assms w i(2) this] show ?thesis
    using assms(2) by (simp add: swap_put_def Some w)
qed

lemma put_slots: "sp_slots (snd (swap_put bd pg s)) = sp_slots s"
  by (auto simp: swap_put_def seal_and_write_def Let_def split: option.splits if_splits prod.splits)

text \<open>Operations of the store, and a run of them that lets go of a slot only while another
  entry still names it.\<close>

datatype store_op = SPut "u8 list" | SRef nat | SGet nat | SFree nat

fun store_step :: "'b block_dev \<Rightarrow> store_op \<Rightarrow> 'b swap_state \<Rightarrow> 'b swap_state" where
  "store_step bd (SPut page) s = snd (swap_put bd page s)"
| "store_step bd (SRef i) s = swap_ref i s"
| "store_step bd (SGet i) s = snd (snd (swap_get bd i s))"
| "store_step bd (SFree i) s = swap_free i s"

fun keeps_slot :: "'b block_dev \<Rightarrow> nat \<Rightarrow> store_op list \<Rightarrow> 'b swap_state \<Rightarrow> bool" where
  "keeps_slot bd slot [] s = True"
| "keeps_slot bd slot (op # ops) s =
    ((case op of SFree i \<Rightarrow> i = slot \<longrightarrow> sl_refs (sp_tab s slot) > 1 | _ \<Rightarrow> True) \<and> keeps_slot bd slot ops (store_step bd op s))"

lemma swap_ref_keeps: "stored bd slot page s \<Longrightarrow> stored bd slot page (swap_ref i s)"
  by (auto simp: swap_ref_def stored_def)

lemma swap_free_keeps: "stored bd slot page s \<Longrightarrow> (i = slot \<Longrightarrow> sl_refs (sp_tab s slot) > 1) \<Longrightarrow> stored bd slot page (swap_free i s)"
  unfolding swap_free_def Let_def stored_def by (cases "i = slot") simp_all

lemma swap_get_state: "snd (snd (swap_get bd i s)) = s \<or> (\<exists>c. snd (snd (swap_get bd i s)) = s\<lparr> sp_ins := c \<rparr>)"
proof (cases "bd_read bd (sp_dev s) (sp_base s + of_nat i)")
  case (Some blk)
  show ?thesis
    unfolding swap_get_def Some option.case Let_def by (simp add: case_prod_beta) blast
qed (simp add: swap_get_def)

lemma swap_get_keeps: "stored bd slot page s \<Longrightarrow> stored bd slot page (snd (snd (swap_get bd i s)))"
  using swap_get_state[of bd i s] by auto

lemma step_slots: "sp_slots (store_step bd op s) = sp_slots s"
proof (cases op)
  case (SGet i)
  thus ?thesis using swap_get_state[of bd i s] by auto
qed (simp_all add: put_slots swap_ref_def swap_free_def Let_def)

lemma run_keeps:
  assumes "dev_ok bd" "sp_slots s \<le> 2 ^ 64" "stored bd slot page s" "keeps_slot bd slot ops s"
  shows "stored bd slot page (fold (store_step bd) ops s)"
  using assms(2-4)
proof (induction ops arbitrary: s)
  case (Cons op ops)
  have "stored bd slot page (store_step bd op s)"
    using Cons.prems put_keeps[OF assms(1), of slot page s] swap_ref_keeps swap_get_keeps
    by (cases op) (auto intro!: swap_free_keeps)
  thus ?case using Cons.IH[of "store_step bd op s"] Cons.prems step_slots[of bd op s] by simp
qed simp

text \<open>A device in memory and a store over it, for concrete runs.\<close>

definition mem_dev :: "(u64 \<Rightarrow> u8 list option) block_dev" where
  "mem_dev = \<lparr> bd_read = (\<lambda>d b. d b), bd_write = (\<lambda>d b x. (True, d(b := Some x))) \<rparr>"

definition demo_swap :: "(u64 \<Rightarrow> u8 list option) swap_state" where
  "demo_swap = \<lparr> sp_on = True, sp_dev = (\<lambda>_. None), sp_base = 0x100, sp_slots = 4, sp_used = 0, sp_hint = 0, sp_gen = 0,
     sp_enc = replicate 32 0, sp_mac = replicate 32 0, sp_tab = (\<lambda>_. zero_swap_slot), sp_outs = 0, sp_ins = 0,
     sp_evict_cursor = (\<lambda>_. 0), sp_idle_cursor = 0, sp_idle_taken = 0, sp_init_task = -1 \<rparr>"

lemma mem_dev_ok: "dev_ok mem_dev"
  by (simp add: dev_ok_def mem_dev_def)

lemma demo_put: "swap_put mem_dev page demo_swap = (Some 0, snd (swap_put mem_dev page demo_swap))"
  by (simp add: swap_put_def demo_swap_def zero_swap_slot_def seal_and_write_def rust_aead_seal_def mem_dev_def Let_def
        case_prod_beta upt_conv_Cons)

text \<open>C7. A page put out to swap is the page that comes back: after any run of puts,
  references, reads and releases in which this slot is not let go of by its last holder, reading
  the slot gives the page byte for byte, given a block device that reads back what was
  written.\<close>

theorem swapped_page_survives:
  assumes "dev_ok bd" "sp_slots s \<le> SWAP_SLOTS_MAX" "sp_gen s \<noteq> -1" "swap_put bd page s = (Some slot, s1)" "keeps_slot bd slot ops s1"
  shows "\<exists>s2. swap_get bd slot (fold (store_step bd) ops s1) = (0, page, s2)"
proof -
  have "sp_slots s1 = sp_slots s" using put_slots[of bd page s] assms(4) by simp
  hence "sp_slots s1 \<le> 2 ^ 64" using assms(2) by simp
  from stored_get[OF run_keeps[OF assms(1) this put_stored[OF assms(1,4,3)] assms(5)]] show ?thesis by blast
qed

theorem swapped_page_survives_witness:
  "\<exists>s2. swap_get mem_dev 0 (fold (store_step mem_dev) [SPut [9], SGet 1, SFree 1, SRef 0] (snd (swap_put mem_dev [7, 8] demo_swap))) = (0, [7, 8], s2)"
  by (rule swapped_page_survives[OF mem_dev_ok _ _ demo_put]) (simp_all add: demo_swap_def)

text \<open>The bytes a block of the store is authenticated over; they determine the slot, the
  generation and the block.\<close>

definition mac_input :: "nat \<Rightarrow> u64 \<Rightarrow> u8 list \<Rightarrow> u8 list" where
  "mac_input slot gen blk =
    to_le32 (of_nat slot) @ to_le64 gen @ map of_char ''horuswap'' @ to_le64 (of_nat slot) @ to_le64 gen @ blk"

lemma mac_input_inj:
  assumes "mac_input i g x = mac_input j h y" "i < 2 ^ 64" "j < 2 ^ 64"
  shows "i = j \<and> g = h \<and> x = y"
proof -
  have l: "length (to_le32 w) = 4" "length (to_le64 v) = 8" for w v by (simp_all add: to_le32_def to_le64_def)
  have e: "to_le64 (of_nat i) = to_le64 (of_nat j)" "to_le64 g = to_le64 h" "x = y"
    using assms(1) by (simp_all add: mac_input_def l)
  have "unat (of_nat i :: u64) = unat (of_nat j :: u64)" using e(1) by (simp add: to_le64_inj)
  hence "i = j" using assms(2,3) unat_of_nat64 by metis
  thus ?thesis using e(2,3) by (simp add: to_le64_inj)
qed

lemma seal_params_tag:
  assumes "seal_params slot gen = (nonce, aad)"
  shows "compute_tag mk nonce aad blk = take 16 (hmac_sha256 mk (mac_input slot gen blk))" "nonce = to_le32 (of_nat slot) @ to_le64 gen"
  using assms by (auto simp: tag_hmac seal_params_def mac_input_def swap_label_def)

text \<open>C15. A block altered, moved or replayed on the device is refused up to a collision of the
  authentication code.  Whatever the device holds after a page went out, reading the slot succeeds
  exactly for a block whose HMAC, cut to 16 bytes, over the slot's number, its current generation,
  the label, both again and the block equals that of the ciphertext put there; and no other slot,
  generation or block gives the same bytes to authenticate.\<close>

theorem altered_block_refused:
  assumes "swap_put bd page s = (Some slot, s1)" "sp_gen s \<noteq> -1" "sp_slots s \<le> SWAP_SLOTS_MAX"
    and "bd_read bd d (sp_base s + of_nat slot) = Some blk"
  shows "fst (swap_get bd slot (s1\<lparr> sp_dev := d \<rparr>)) =
      (if take 16 (hmac_sha256 (sp_mac s) (mac_input slot (sp_gen s + 1) blk))
          = take 16 (hmac_sha256 (sp_mac s) (mac_input slot (sp_gen s + 1)
              (chacha20_xor (sp_enc s) (to_le32 (of_nat slot) @ to_le64 (sp_gen s + 1)) page)))
       then 0 else -1)
    \<and> (\<forall>slot' gen' blk'. slot' < 2 ^ 64 \<longrightarrow> mac_input slot' gen' blk' = mac_input slot (sp_gen s + 1) blk
         \<longrightarrow> slot' = slot \<and> gen' = sp_gen s + 1 \<and> blk' = blk)"
proof -
  have g: "sp_gen s + 1 \<noteq> 0" using assms(2) by (simp add: eq_neg_iff_add_eq_0)
  from assms(1) obtain s0 where s0: "sp_on s" "slot < sp_slots s" "seal_and_write bd slot page s = (True, s0)"
    "s1 = s0\<lparr> sp_used := sp_used s0 + 1, sp_hint := slot + 1, sp_outs := sp_outs s0 + 1 \<rparr>" by (elim swap_put_Some)
  obtain nonce aad where sp: "seal_params slot (sp_gen s + 1) = (nonce, aad)" by (cases "seal_params slot (sp_gen s + 1)")
  note T = seal_params_tag[OF sp]
  have r: "fst (swap_get bd slot (s1\<lparr> sp_dev := d \<rparr>)) =
    (if compute_tag (sp_mac s) nonce aad blk = compute_tag (sp_mac s) nonce aad (chacha20_xor (sp_enc s) nonce page) then 0 else -1)"
    using s0(3) by (rule seal_and_write_True)
       (use s0 g assms(4) sp in \<open>auto simp: swap_get_def rust_aead_open_def unseal_def tags_equal_iff length_tag\<close>)
  have b: "slot < 2 ^ 64" using s0(2) assms(3) by simp
  have "slot' = slot \<and> gen' = sp_gen s + 1 \<and> blk' = blk"
    if "slot' < 2 ^ 64" "mac_input slot' gen' blk' = mac_input slot (sp_gen s + 1) blk" for slot' gen' blk'
    using mac_input_inj[OF that(2,1) b] .
  thus ?thesis using r[unfolded T(1), unfolded T(2)] by blast
qed

theorem altered_block_refused_witness:
  "fst (swap_get mem_dev 0 ((snd (swap_put mem_dev [7, 8] demo_swap))\<lparr> sp_dev := (\<lambda>_. Some [1, 2]) \<rparr>)) =
    (if take 16 (hmac_sha256 (replicate 32 0) (mac_input 0 1 [1, 2]))
        = take 16 (hmac_sha256 (replicate 32 0) (mac_input 0 1 (chacha20_xor (replicate 32 0) (to_le32 0 @ to_le64 1) [7, 8])))
     then 0 else -1)"
proof -
  have "sp_gen demo_swap \<noteq> -1" "sp_slots demo_swap \<le> SWAP_SLOTS_MAX"
    "bd_read mem_dev (\<lambda>_. Some [1, 2]) (sp_base demo_swap + of_nat 0) = Some [1, 2]"
    by (simp_all add: demo_swap_def mem_dev_def)
  from altered_block_refused[OF demo_put this] show ?thesis by (simp add: demo_swap_def)
qed

section \<open>A page out and back\<close>

text \<open>The bits of a swapped entry.\<close>

lemma bit_pow64: "k < 64 \<Longrightarrow> bit (2 ^ k :: u64) n \<longleftrightarrow> n = k"
  by (auto simp: bit_exp_iff)

lemma bit_of_nat64: "bit (of_nat k :: u64) n \<longleftrightarrow> n < 64 \<and> bit k n"
  by (simp add: bit_of_nat_iff)

lemma bit_keep: "bit SWAP_KEEP_FLAGS n \<longleftrightarrow> n = 1 \<or> n = 2 \<or> n = 9 \<or> n = 63"
proof -
  have e: "SWAP_KEEP_FLAGS = 2 ^ 1 OR 2 ^ 2 OR 2 ^ 9 OR 2 ^ 63" by (simp add: SWAP_KEEP_FLAGS_def)
  have k: "(1::nat) < 64" "(2::nat) < 64" "(9::nat) < 64" "(63::nat) < 64" by simp_all
  show ?thesis unfolding e bit_or_iff k[THEN bit_pow64] by blast
qed

lemma bit_addr_mask: "bit PTE_ADDR_MASK n \<longleftrightarrow> 12 \<le> n \<and> n < 52"
proof -
  have e: "PTE_ADDR_MASK = push_bit 12 (mask 40)" by (simp add: mask_eq_exp_minus_1 push_bit_eq_mult)
  show ?thesis unfolding e by (auto simp only: bit_push_bit_iff bit_mask_iff possible_bit_word) simp_all
qed

lemma bit_flags: "bit PAGE_SWAPPED n \<longleftrightarrow> n = 11" "bit PAGE_PRESENT n \<longleftrightarrow> n = 0"
  using bit_pow64[of 11 n] bit_pow64[of 0 n] by simp_all

lemma bit_nat_above: "(slot :: nat) < 2 ^ 40 \<Longrightarrow> bit slot k \<longrightarrow> k < 40"
  using bit_take_bit_iff[of 40 slot k] by (auto simp: take_bit_nat_eq_self)

definition swapped_entry :: "nat \<Rightarrow> u64 \<Rightarrow> u64" where
  "swapped_entry slot pte = push_bit 12 (of_nat slot) OR (pte AND SWAP_KEEP_FLAGS) OR PAGE_SWAPPED"

lemma bit_swapped_entry:
  assumes "slot < 2 ^ 40"
  shows "bit (swapped_entry slot pte) n \<longleftrightarrow>
    (12 \<le> n \<and> n < 52 \<and> bit slot (n - 12)) \<or> (bit pte n \<and> (n = 1 \<or> n = 2 \<or> n = 9 \<or> n = 63)) \<or> n = 11"
proof -
  have "bit (push_bit 12 (of_nat slot) :: u64) n \<longleftrightarrow> 12 \<le> n \<and> n < 52 \<and> bit slot (n - 12)"
    using bit_nat_above[OF assms, of "n - 12"] unfolding bit_push_bit_iff bit_of_nat64 possible_bit_word by auto
  thus ?thesis unfolding swapped_entry_def bit_or_iff bit_and_iff bit_keep bit_flags by blast
qed

lemma swapped_entry_parts:
  assumes "slot < 2 ^ 40"
  shows "swapped_entry slot pte AND PAGE_PRESENT = 0" "swapped_entry slot pte AND PAGE_SWAPPED \<noteq> 0"
    "unat (drop_bit 12 (swapped_entry slot pte AND PTE_ADDR_MASK)) = slot"
    "swapped_entry slot pte AND SWAP_KEEP_FLAGS = pte AND SWAP_KEEP_FLAGS"
proof -
  note b = bit_swapped_entry[OF assms]
  have "\<not> bit (swapped_entry slot pte AND PAGE_PRESENT) n" for n unfolding bit_and_iff b bit_flags by auto
  thus "swapped_entry slot pte AND PAGE_PRESENT = 0" by (intro bit_word_eqI) simp
  have "bit (swapped_entry slot pte AND PAGE_SWAPPED) 11" unfolding bit_and_iff b bit_flags by simp
  thus "swapped_entry slot pte AND PAGE_SWAPPED \<noteq> 0" by (metis bit_0_eq bot_apply bot_bool_def)
  have "bit (drop_bit 12 (swapped_entry slot pte AND PTE_ADDR_MASK)) n \<longleftrightarrow> bit (of_nat slot :: u64) n" for n
    using bit_nat_above[OF assms, of n] unfolding bit_drop_bit_eq comp_def bit_and_iff b bit_addr_mask bit_of_nat64 by auto
  hence "drop_bit 12 (swapped_entry slot pte AND PTE_ADDR_MASK) = of_nat slot" by (intro bit_word_eqI)
  thus "unat (drop_bit 12 (swapped_entry slot pte AND PTE_ADDR_MASK)) = slot" using assms unat_of_nat64[of slot] by simp
  have "bit (swapped_entry slot pte AND SWAP_KEEP_FLAGS) n = bit (pte AND SWAP_KEEP_FLAGS) n" for n
    unfolding bit_and_iff b bit_keep by auto
  thus "swapped_entry slot pte AND SWAP_KEEP_FLAGS = pte AND SWAP_KEEP_FLAGS" by (intro bit_word_eqI)
qed

lemma get_put_bytes:
  assumes "length bs \<le> 2 ^ 64"
  shows "get_bytes a (length bs) (put_bytes a bs m) = bs"
proof (rule nth_equalityI)
  fix i assume "i < length (get_bytes a (length bs) (put_bytes a bs m))"
  hence i: "i < length bs" by (simp add: get_bytes_def)
  hence "unat (of_nat i :: u64) = i" using assms by (intro unat_of_nat64) simp
  thus "get_bytes a (length bs) (put_bytes a bs m) ! i = bs ! i" using i by (simp add: get_bytes_def put_bytes_def)
qed (simp add: get_bytes_def)

text \<open>An entry outside a frame.\<close>

definition clear_of_frame :: "u64 \<Rightarrow> u64 \<Rightarrow> bool" where
  "clear_of_frame a f \<longleftrightarrow> (\<forall>j<8. 4096 \<le> unat (a + of_nat j - f)) \<and> (\<forall>i<4096. 8 \<le> f + of_nat i - a)"

lemma clear_rd64: "clear_of_frame a f \<Longrightarrow> length bs \<le> 4096 \<Longrightarrow> rd64 (put_bytes f bs m) a = rd64 m a"
  by (rule rd64_cong) (auto simp: clear_of_frame_def put_bytes_def not_less)

lemma clear_get: "clear_of_frame a f \<Longrightarrow> get_bytes f 4096 (wr64 a x m) = get_bytes f 4096 m"
  by (auto simp: clear_of_frame_def get_bytes_def wr64_def simp flip: not_le)

lemma fault_in_restores:
  fixes v :: u64
  assumes "stored bd slot page (m_dev \<sigma>)" "length page = 4096" "slot < 2 ^ 40" "rd64 (m_mem \<sigma>) (ptv + 8 * pt_i) = swapped_entry slot pte"
    and "alloc_user_physical_page (m_pool \<sigma>) = (phys, p1)" "phys \<noteq> 0" "clear_of_frame (ptv + 8 * pt_i) (of_nat phys)"
  defines "\<sigma>' \<equiv> snd (swap_fault_in bd ptv pt_i v \<sigma>)"
  shows "fst (swap_fault_in bd ptv pt_i v \<sigma>) = 0" "get_bytes (of_nat phys) 4096 (m_mem \<sigma>') = page"
    "rd64 (m_mem \<sigma>') (ptv + 8 * pt_i) = of_nat phys OR (pte AND SWAP_KEEP_FLAGS) OR PAGE_PRESENT" "m_pool \<sigma>' = p1"
proof -
  note e = swapped_entry_parts[OF assms(3), of pte]
  have r: "rd64 (put_bytes (of_nat phys) page (m_mem \<sigma>)) (ptv + 8 * pt_i) = swapped_entry slot pte"
    using clear_rd64[OF assms(7), of page "m_mem \<sigma>"] assms(2,4) by simp
  have "swap_fault_in bd ptv pt_i v \<sigma> = (0, (set_pool p1 \<sigma>)\<lparr>
      m_mem := wr64 (ptv + 8 * pt_i) (of_nat phys OR (pte AND SWAP_KEEP_FLAGS) OR PAGE_PRESENT) (put_bytes (of_nat phys) page (m_mem \<sigma>)),
      m_dev := swap_free slot ((m_dev \<sigma>)\<lparr> sp_ins := sp_ins (m_dev \<sigma>) + 1 \<rparr>) \<rparr>)"
    using r assms(5,6) e unfolding swap_fault_in_def assms(4) Let_def
    by (simp add: stored_get[OF assms(1)] set_pool_def)
  thus "fst (swap_fault_in bd ptv pt_i v \<sigma>) = 0" "get_bytes (of_nat phys) 4096 (m_mem \<sigma>') = page"
    "rd64 (m_mem \<sigma>') (ptv + 8 * pt_i) = of_nat phys OR (pte AND SWAP_KEEP_FLAGS) OR PAGE_PRESENT" "m_pool \<sigma>' = p1"
    using clear_get[OF assms(7)] get_put_bytes[of page "of_nat phys" "m_mem \<sigma>"] assms(2)
    by (simp_all add: \<sigma>'_def rd64_wr64 m_pool_def set_pool_def)
qed

lemma evict_page_out:
  assumes "dev_ok bd" "sp_gen (m_dev \<sigma>) \<noteq> -1" "evict_page bd t cr3 gen va pte \<sigma> = (True, 1, \<sigma>1)"
    "user_pte_existing (m_mem \<sigma>) cr3 (of_nat va) = Some a"
  obtains slot where "stored bd slot (get_bytes (pte AND PTE_ADDR_MASK) 4096 (m_mem \<sigma>)) (m_dev \<sigma>1)" "slot < sp_slots (m_dev \<sigma>)"
    "m_mem \<sigma>1 = wr64 a (swapped_entry slot pte) (m_mem \<sigma>)"
    "m_pool \<sigma>1 = user_leaf_release (unat (pte AND PTE_ADDR_MASK)) (m_pool \<sigma>)"
proof -
  let ?page = "get_bytes (pte AND PTE_ADDR_MASK) 4096 (m_mem \<sigma>)"
  obtain r s1 where p: "swap_put bd ?page (m_dev \<sigma>) = (r, s1)" by (cases "swap_put bd ?page (m_dev \<sigma>)")
  from assms(3) p obtain slot where r: "r = Some slot" by (cases r) (auto simp: evict_page_def Let_def)
  have st: "stored bd slot ?page s1" using put_stored[OF assms(1) p[unfolded r] assms(2)] .
  have sl: "slot < sp_slots (m_dev \<sigma>)" using p[unfolded r] by (rule swap_put_Some)
  have "m_dev \<sigma>1 = s1" "m_mem \<sigma>1 = wr64 a (swapped_entry slot pte) (m_mem \<sigma>)"
    "m_pool \<sigma>1 = user_leaf_release (unat (pte AND PTE_ADDR_MASK)) (m_pool \<sigma>)"
    using assms(3,4) unfolding evict_page_def Let_def p r swapped_entry_def
    by (auto simp: m_pool_def set_pool_def split: if_splits)
  thus ?thesis using that st sl by simp
qed

text \<open>C6. Paging is invisible to the task: a page taken to swap and touched again is back with
  the same bytes in whatever frame the pool lends for it, its entry naming that frame with the
  same write, user, copy-on-write and no-execute flags, and the frame it left went back to the
  pool, for a device that reads back what was written.\<close>

theorem page_out_and_back:
  assumes "dev_ok bd" "sp_gen (m_dev \<sigma>) \<noteq> -1" "sp_slots (m_dev \<sigma>) \<le> SWAP_SLOTS_MAX"
    and "evict_page bd t cr3 gen va pte \<sigma> = (True, 1, \<sigma>1)" "user_pte_existing (m_mem \<sigma>) cr3 (of_nat va) = Some (ptv + 8 * pt_i)"
    and "alloc_user_physical_page (m_pool \<sigma>1) = (phys, p1)" "phys \<noteq> 0" "clear_of_frame (ptv + 8 * pt_i) (of_nat phys)"
  shows "\<exists>\<sigma>2. swap_fault_in bd ptv pt_i v \<sigma>1 = (0, \<sigma>2)
    \<and> get_bytes (of_nat phys) 4096 (m_mem \<sigma>2) = get_bytes (pte AND PTE_ADDR_MASK) 4096 (m_mem \<sigma>)
    \<and> rd64 (m_mem \<sigma>2) (ptv + 8 * pt_i) = of_nat phys OR (pte AND SWAP_KEEP_FLAGS) OR PAGE_PRESENT
    \<and> m_pool \<sigma>1 = user_leaf_release (unat (pte AND PTE_ADDR_MASK)) (m_pool \<sigma>) \<and> m_pool \<sigma>2 = p1"
proof (rule evict_page_out[OF assms(1,2,4,5)])
  fix slot assume o: "stored bd slot (get_bytes (pte AND PTE_ADDR_MASK) 4096 (m_mem \<sigma>)) (m_dev \<sigma>1)" "slot < sp_slots (m_dev \<sigma>)"
    "m_mem \<sigma>1 = wr64 (ptv + 8 * pt_i) (swapped_entry slot pte) (m_mem \<sigma>)"
    "m_pool \<sigma>1 = user_leaf_release (unat (pte AND PTE_ADDR_MASK)) (m_pool \<sigma>)"
  have l: "length (get_bytes (pte AND PTE_ADDR_MASK) 4096 (m_mem \<sigma>)) = 4096" by (simp add: get_bytes_def)
  have "slot < 2 ^ 40" using o(2) assms(3) by simp
  note f = fault_in_restores[OF o(1) l this _ assms(6-8), of pte v, unfolded o(3) rd64_wr64, OF refl, folded o(3)]
  show ?thesis using f o(4) by (intro exI[of _ "snd (swap_fault_in bd ptv pt_i v \<sigma>1)"]) (simp add: prod_eq_iff)
qed

lemma unat_offset:
  assumes "unat x + n < 2 ^ 64" "unat y \<le> unat x + n"
  shows "unat (x + of_nat n - y :: u64) = unat x + n - unat y"
proof -
  have "unat (x + of_nat n) = unat x + n" using assms(1) unat_of_nat64[of n] by (simp add: unat_word_ariths)
  thus ?thesis using assms(2) by (simp add: unat_sub word_le_nat_alt)
qed

lemma clear_of_frameI:
  assumes "unat a + 8 \<le> unat f" "unat f + 4096 \<le> 2 ^ 64" "4096 + unat f \<le> 2 ^ 64 + unat a"
  shows "clear_of_frame a f"
proof -
  have "4096 \<le> unat (a + of_nat j - f)" if j: "j < 8" for j
  proof -
    have n: "unat (a + of_nat j) = unat a + j" using unat_offset[of a j 0] assms j by simp
    hence "\<not> unat f \<le> unat (a + of_nat j)" using assms j by simp
    hence "unat (a + of_nat j - f) = unat (a + of_nat j) + 2 ^ size (a + of_nat j) - unat f"
      unfolding unat_sub_if_size by (rule if_not_P)
    thus ?thesis using assms n by (simp add: word_size)
  qed
  moreover have "8 \<le> f + of_nat i - a" if "i < 4096" for i
    using unat_offset[of f i a] assms that by (simp add: word_le_nat_alt)
  ultimately show ?thesis by (simp add: clear_of_frame_def)
qed

definition demo_pager :: "(u64 \<Rightarrow> u8 list option) swap_state mach" where
  "demo_pager = \<lparr> m_k = (m_k demo_mach)\<lparr> k_pool := two_frames \<rparr>, m_mem = demo_mem, m_cow_faults = 0, m_dev = demo_swap \<rparr>"

lemma demo_entry: "user_pte_existing demo_mem 0x1000 0x400000 = Some 0x4000" "rd64 demo_mem 0x4000 = 0x5007"
proof -
  have r: "rd64 demo_mem 0x1000 = 0x2007" "rd64 demo_mem 0x2000 = 0x3007" "rd64 demo_mem 0x3010 = 0x4007"
    by (simp_all add: demo_mem_def rd64_wr64 rd64_wr64_apart apart8I)
  thus "user_pte_existing demo_mem 0x1000 0x400000 = Some 0x4000"
    by (simp add: user_pte_existing_def is_canonical_address_def pt_entry_def pt_index_def Let_def)
  show "rd64 demo_mem 0x4000 = 0x5007" by (simp add: demo_mem_def rd64_wr64 rd64_wr64_apart apart8I)
qed

lemma demo_pager_sel: "m_mem demo_pager = demo_mem" "m_dev demo_pager = demo_swap" "m_pool demo_pager = two_frames"
    "t_cr3 (k_tasks (m_k demo_pager) 1) = 0x1000" "t_slot_gen (k_tasks (m_k demo_pager) 1) = 0"
  by (simp_all add: demo_pager_def demo_mach_def m_pool_def zero_tcb_def)

lemma demo_evict:
  "evict_page mem_dev 1 0x1000 0 0x400000 0x5007 demo_pager = (True, 1, snd (snd (evict_page mem_dev 1 0x1000 0 0x400000 0x5007 demo_pager)))"
  unfolding evict_page_def Let_def demo_pager_sel
  by (subst (1 2) demo_put) (simp add: demo_pager_sel[unfolded One_nat_def] demo_entry)

lemma demo_evicted_pool: "m_pool (snd (snd (evict_page mem_dev 1 0x1000 0 0x400000 0x5007 demo_pager))) = two_frames"
proof -
  have "m_pool (snd (snd (evict_page mem_dev 1 0x1000 0 0x400000 0x5007 demo_pager))) = user_leaf_release 0x5000 two_frames"
    unfolding evict_page_def Let_def demo_pager_sel
    by (subst demo_put) (simp add: demo_pager_sel[unfolded One_nat_def] demo_entry, simp add: m_pool_def set_pool_def demo_pager_def)
  thus ?thesis by (simp add: user_leaf_release_def rust_page_ref_dec_def refc_index_def)
qed

theorem page_out_and_back_witness:
  "\<exists>\<sigma>2. swap_fault_in mem_dev 0x4000 0 0x400000 (snd (snd (evict_page mem_dev 1 0x1000 0 0x400000 0x5007 demo_pager))) = (0, \<sigma>2)
     \<and> get_bytes 0x1000000 4096 (m_mem \<sigma>2) = get_bytes 0x5000 4096 demo_mem"
proof -
  let ?s1 = "snd (snd (evict_page mem_dev 1 0x1000 0 0x400000 0x5007 demo_pager))"
  obtain p1 where al: "alloc_user_physical_page (m_pool ?s1) = (0x1000000, p1)"
    unfolding demo_evicted_pool by (simp add: alloc_user_physical_page_def two_frames_def frame_phys_def Let_def)
  have cl: "clear_of_frame (0x4000 + 8 * 0) (of_nat 0x1000000)" by (rule clear_of_frameI) simp_all
  have "sp_gen (m_dev demo_pager) \<noteq> -1" "sp_slots (m_dev demo_pager) \<le> SWAP_SLOTS_MAX"
    "user_pte_existing (m_mem demo_pager) 0x1000 (of_nat 0x400000) = Some (0x4000 + 8 * 0)"
    using demo_entry(1) by (simp_all add: demo_pager_sel demo_swap_def)
  from page_out_and_back[where v = "0x400000", OF mem_dev_ok this(1,2) demo_evict this(3) al _ cl]
  show ?thesis by (auto simp: demo_pager_sel)
qed

section \<open>What the pager leaves alone\<close>

lemma pool_only_dev [simp]: "pool_only \<sigma> (\<sigma>'\<lparr> m_dev := d \<rparr>) = pool_only \<sigma> \<sigma>'"
  by (simp add: pool_only_def)

lemma evict_page_pool: "pool_only \<sigma> (snd (snd (evict_page bd t cr3 gen va pte \<sigma>)))"
  unfolding evict_page_def Let_def by (auto split: prod.splits option.splits)

lemma evict_victims_pool: "pool_only \<sigma> (snd (evict_victims bd t cr3 gen vs n \<sigma>))"
proof (induction vs arbitrary: n \<sigma>)
  case (Cons v vs)
  obtain va pte where v: "v = (va, pte)" by (cases v)
  obtain c d \<sigma>1 where e: "evict_page bd t cr3 gen va pte \<sigma> = (c, d, \<sigma>1)" by (cases "evict_page bd t cr3 gen va pte \<sigma>")
  have "pool_only \<sigma> \<sigma>1" using evict_page_pool[of \<sigma> bd t cr3 gen va pte] by (simp add: e)
  thus ?case using Cons.IH[of \<sigma>1 "n + d"] by (cases c) (auto simp: v e intro: pool_only_trans)
qed simp

text \<open>The guards of an eviction, and what it does behind them.\<close>

definition may_evict :: "int \<Rightarrow> 'b swap_state mach \<Rightarrow> bool" where
  "may_evict ti \<sigma> \<longleftrightarrow> \<not> (ti \<le> 0 \<or> ti \<ge> int (k_max_tasks (m_k \<sigma>)) \<or> t_cr3 (k_tasks (m_k \<sigma>) (nat ti)) = 0 \<or> swap_task_pinned (nat ti) \<sigma>)"

lemma evict_from_cases:
  fixes \<sigma> :: "'b swap_state mach"
  obtains (refused) "swap_evict_from bd ti w \<sigma> = Some (0, \<sigma>)"
  | (scan) x start w1 where "may_evict ti \<sigma>" "x = k_tasks (m_k \<sigma>) (nat ti)" "start = unat (sp_evict_cursor (m_dev \<sigma>) (nat ti) AND 0x00007FFFFFFFF000)"
    "swap_evict_from bd ti w \<sigma> =
      (case clock_scan (m_pool \<sigma>) (t_image x) (t_cr3 x) start w1 start False [] (m_mem \<sigma>) of None \<Rightarrow> None
       | Some (va, vs, m) \<Rightarrow> Some (evict_victims bd (nat ti) (t_cr3 x) (t_slot_gen x) vs 0
             (\<sigma>\<lparr> m_mem := m, m_dev := (m_dev \<sigma>)\<lparr> sp_evict_cursor := (sp_evict_cursor (m_dev \<sigma>))(nat ti := of_nat va) \<rparr> \<rparr>)))"
proof (cases "may_evict ti \<sigma>")
  case True
  thus thesis using that(2)[OF True refl refl, of "if w > SWAP_EVICT_BATCH then SWAP_EVICT_BATCH else w"]
    by (simp only: swap_evict_from_def Let_def may_evict_def) simp
next
  case False
  thus thesis using that(1) by (simp only: swap_evict_from_def Let_def may_evict_def) simp
qed

lemma evict_from_pool:
  assumes "swap_evict_from bd ti w \<sigma> = Some (n, \<sigma>')"
  shows "pool_only \<sigma> \<sigma>'"
proof (cases rule: evict_from_cases[of bd ti w \<sigma>])
  case refused
  thus ?thesis using assms by simp
next
  case (scan x start w1)
  then obtain va vs m where "evict_victims bd (nat ti) (t_cr3 x) (t_slot_gen x) vs 0
      (\<sigma>\<lparr> m_mem := m, m_dev := (m_dev \<sigma>)\<lparr> sp_evict_cursor := (sp_evict_cursor (m_dev \<sigma>))(nat ti := of_nat va) \<rparr> \<rparr>) = (n, \<sigma>')"
    using assms by (auto split: option.splits)
  from evict_victims_pool[of "\<sigma>\<lparr> m_mem := m, m_dev := (m_dev \<sigma>)\<lparr> sp_evict_cursor := (sp_evict_cursor (m_dev \<sigma>))(nat ti := of_nat va) \<rparr> \<rparr>"
      bd "nat ti" "t_cr3 x" "t_slot_gen x" vs 0, unfolded this]
  show ?thesis by (simp add: pool_only_def)
qed

lemma hold_cleared:
  assumes "\<not> t_pager_hold (k_tasks s t)"
  shows "upd_task t (\<lambda>y. y\<lparr> t_pager_hold := False \<rparr>) (upd_task t (\<lambda>y. y\<lparr> t_pager_hold := True \<rparr>) s) = s"
proof -
  have "(k_tasks s t)\<lparr> t_pager_hold := False \<rparr> = k_tasks s t" using assms by (cases "k_tasks s t") simp
  hence "(k_tasks s)(t := (k_tasks s t)\<lparr> t_pager_hold := False \<rparr>) = k_tasks s" by (rule fun_upd_idem[OF sym])
  thus ?thesis by (cases s) (simp add: upd_task_def)
qed

lemma sched_pager_hold_cases:
  obtains (refused) "sched_pager_hold ti s = (False, s)"
  | (held) "\<not> (ti \<le> 0 \<or> ti \<ge> int (k_max_tasks s))" "\<not> t_pager_hold (k_tasks s (nat ti))"
    "sched_pager_hold ti s = (True, upd_task (nat ti) (\<lambda>y. y\<lparr> t_pager_hold := True \<rparr>) s)"
proof (cases "ti \<le> 0 \<or> ti \<ge> int (k_max_tasks s)")
  case True
  thus thesis using that(1) by (simp only: sched_pager_hold_def if_True)
next
  case r: False
  show thesis
  proof (cases "t_pager_hold (k_tasks s (nat ti))")
    case True
    thus thesis using that(1) r by (simp only: sched_pager_hold_def Let_def) simp
  next
    case False
    note f = sched_pager_hold_def[of ti s, unfolded if_not_P[OF r] Let_def hold_cleared[OF False]]
    show thesis using that f r False by (metis (full_types))
  qed
qed

lemma hold_then_release:
  "sched_pager_hold ti s = (True, k1) \<Longrightarrow> sched_pager_release ti k1 = s"
  "sched_pager_hold ti s = (False, k1) \<Longrightarrow> k1 = s"
proof -
  assume h: "sched_pager_hold ti s = (True, k1)"
  show "sched_pager_release ti k1 = s"
  proof (cases rule: sched_pager_hold_cases[of ti s])
    case held
    hence k: "k1 = upd_task (nat ti) (\<lambda>y. y\<lparr> t_pager_hold := True \<rparr>) s" using h by simp
    have "k_max_tasks k1 = k_max_tasks s" unfolding k by simp
    thus ?thesis using held(1) hold_cleared[OF held(2)] unfolding sched_pager_release_def k by simp
  qed (use h in simp)
next
  assume "sched_pager_hold ti s = (False, k1)"
  thus "k1 = s" by (cases rule: sched_pager_hold_cases[of ti s]) simp_all
qed

lemma release_off_pool: "off_pool (sched_pager_release ti s) = sched_pager_release ti (off_pool s)"
  by (simp add: sched_pager_release_def off_pool_def upd_task_def)

lemma held_evict_pool:
  assumes "sched_pager_hold ti (m_k \<sigma>) = (True, k1)" "swap_evict_from bd ti w (\<sigma>\<lparr> m_k := k1 \<rparr>) = Some (n, \<sigma>2)"
  shows "pool_only \<sigma> (\<sigma>2\<lparr> m_k := sched_pager_release ti (m_k \<sigma>2), m_dev := d \<rparr>)"
proof -
  have "off_pool (m_k \<sigma>2) = off_pool k1" using evict_from_pool[OF assms(2)] by (simp add: pool_only_def)
  hence "off_pool (sched_pager_release ti (m_k \<sigma>2)) = off_pool (m_k \<sigma>)"
    using hold_then_release(1)[OF assms(1)] by (metis release_off_pool)
  thus ?thesis by (simp add: pool_only_def)
qed

text \<open>One step of the round over the tasks.\<close>

lemma idle_walk_cases:
  obtains (stop) "idle_walk bd w (i # is) got tried \<sigma> = Some (got, \<sigma>)"
  | (skip) "idle_walk bd w (i # is) got tried \<sigma> = idle_walk bd w is got tried \<sigma>"
  | (take) t k1 where "sched_pager_hold (int t) (m_k \<sigma>) = (True, k1)"
    "idle_walk bd w (i # is) got tried \<sigma> =
      (case swap_evict_from bd (int t) (w - got) (\<sigma>\<lparr> m_k := k1 \<rparr>) of None \<Rightarrow> None
       | Some (n, \<sigma>2) \<Rightarrow> idle_walk bd w is (got + n) (tried + 1)
           (\<sigma>2\<lparr> m_k := sched_pager_release (int t) (m_k \<sigma>2), m_dev := (m_dev \<sigma>2)\<lparr> sp_idle_cursor := t \<rparr> \<rparr>))"
proof -
  let ?t = "(sp_idle_cursor (m_dev \<sigma>) + i) mod k_max_tasks (m_k \<sigma>)"
  let ?pass = "?t = 0 \<or> ?t = k_cur (m_k \<sigma>) \<or> t_cr3 (k_tasks (m_k \<sigma>) ?t) = 0 \<or> swap_task_pinned ?t \<sigma>"
  obtain c k1 where h: "sched_pager_hold (int ?t) (m_k \<sigma>) = (c, k1)" by (cases "sched_pager_hold (int ?t) (m_k \<sigma>)")
  note step = idle_walk.simps(2)[of bd w i "is" got tried \<sigma>, unfolded Let_def h prod.case]
  show thesis
  proof (cases "got < w \<and> tried < SWAP_IDLE_TRIES")
    case False
    thus thesis using that(1) step by (simp only: not_True_eq_False not_False_eq_True if_True)
  next
    case go: True
    show thesis
    proof (cases ?pass)
      case True
      thus thesis using that(2) step go by (simp only: simp_thms if_True if_False)
    next
      case False
      note s2 = step[unfolded if_not_P[OF False] go[THEN eqTrueI] not_True_eq_False if_False]
      show thesis
      proof (cases c)
        case True
        thus thesis using that(3)[of ?t k1] h s2 by simp
      next
        case False
        hence "k1 = m_k \<sigma>" using h hold_then_release(2)[of "int ?t" "m_k \<sigma>" k1] by simp
        thus thesis using that(2) s2 False by simp
      qed
    qed
  qed
qed

lemma idle_walk_pool: "idle_walk bd w is got tried \<sigma> = Some (n, \<sigma>') \<Longrightarrow> pool_only \<sigma> \<sigma>'"
proof (induction "is" arbitrary: got tried \<sigma>)
  case (Cons i "is")
  show ?case
  proof (cases rule: idle_walk_cases[of bd w i "is" got tried \<sigma>])
    case (take t k1)
    then obtain d \<sigma>2 where e: "swap_evict_from bd (int t) (w - got) (\<sigma>\<lparr> m_k := k1 \<rparr>) = Some (d, \<sigma>2)"
      using Cons.prems by (auto split: option.splits)
    show ?thesis
      using pool_only_trans[OF held_evict_pool[OF take(1) e] Cons.IH] Cons.prems take(2) e by simp
  qed (use Cons in auto)
qed simp

lemma fault_in_pool: "pool_only \<sigma> (snd (swap_fault_in bd ptv i v \<sigma>))"
proof -
  obtain phys p1 where a: "alloc_user_physical_page (m_pool \<sigma>) = (phys, p1)" by (cases "alloc_user_physical_page (m_pool \<sigma>)")
  define \<sigma>1 where "\<sigma>1 = set_pool p1 \<sigma>"
  define slot where "slot = unat (drop_bit 12 (rd64 (m_mem \<sigma>) (ptv + 8 * i) AND PTE_ADDR_MASK))"
  obtain rc page s1 where g: "swap_get bd slot (m_dev \<sigma>1) = (rc, page, s1)" by (cases "swap_get bd slot (m_dev \<sigma>1)")
  have "pool_only \<sigma> \<sigma>1" by (simp add: \<sigma>1_def)
  thus ?thesis unfolding swap_fault_in_def Let_def a prod.case \<sigma>1_def[symmetric] slot_def[symmetric] g
    by simp
qed

text \<open>C18. The pager is confined: taking pages from idle tasks or from the running one, holding
  and releasing those tasks, and bringing pages back change nothing of the kernel's state but
  the page pool, which is what the copies between kernel and user memory and the message calls
  rely on.\<close>

theorem pager_changes_only_the_pool: "swap_frame (swap_dev bd)"
proof -
  have "pool_only \<sigma> (snd (sw_evict_idle (swap_dev bd) n \<sigma>))" for n \<sigma>
    using idle_walk_pool[of bd n "[1..<k_max_tasks (m_k \<sigma>)]" 0 0 \<sigma>]
    by (auto simp: swap_dev_def swap_evict_idle_def split: option.splits)
  moreover have "pool_only \<sigma> (snd (sw_evict_self (swap_dev bd) n \<sigma>))" for n \<sigma>
    using evict_from_pool[of bd "int (k_cur (m_k \<sigma>))" n \<sigma>]
    by (auto simp: swap_dev_def swap_evict_self_def split: option.splits)
  moreover have "pool_only \<sigma> (snd (sw_fault_in (swap_dev bd) pt i v \<sigma>))" for pt i v \<sigma>
    by (simp add: swap_dev_def fault_in_pool)
  ultimately show ?thesis by (simp add: swap_frame_def)
qed

section \<open>The clock comes round\<close>

text \<open>The hand of every task below the last region of the user half, and every image and heap
  below it too: the loader places images at most some 4 TiB up, far below this bound.\<close>

definition hand_limit :: nat where
  "hand_limit = 255 * 2 ^ 39"

definition hands_ok :: "'b swap_state \<Rightarrow> bool" where
  "hands_ok s \<longleftrightarrow> (\<forall>t. unat (sp_evict_cursor s t AND 0x00007FFFFFFFF000) \<le> hand_limit)"

definition windows_ok :: "kstate \<Rightarrow> bool" where
  "windows_ok s \<longleftrightarrow> (\<forall>t. unat (im_end (t_image (k_tasks s t))) \<le> hand_limit \<and> unat (im_heap_end (t_image (k_tasks s t))) \<le> hand_limit)"

lemma clock_entry_level: "clock_entry m cr3 va = Inr k \<Longrightarrow> 12 \<le> k \<and> k \<le> 39"
  by (auto simp: clock_entry_def Let_def split: if_splits)

lemma next_region_limit:
  assumes "va < hand_limit" "k \<le> 39"
  shows "next_region k va \<le> hand_limit"
proof -
  have "hand_limit = 255 * 2 ^ (39 - k) * 2 ^ k" using assms(2) by (simp add: hand_limit_def flip: power_add)
  hence "va div 2 ^ k < 255 * 2 ^ (39 - k)" using assms(1) by (metis less_mult_imp_div_less)
  hence "(va div 2 ^ k + 1) * 2 ^ k \<le> 255 * 2 ^ (39 - k) * 2 ^ k" by (intro mult_le_mono1) simp
  thus ?thesis using \<open>hand_limit = _\<close> by (simp add: next_region_def)
qed

lemma next_region_aligned: "12 \<le> k \<Longrightarrow> 4096 dvd next_region k va"
  using le_imp_power_dvd[of 12 k "2 :: nat"] by (auto simp: next_region_def)

lemma aligned_next: "4096 dvd va \<Longrightarrow> va < hand_limit \<Longrightarrow> va + 4096 \<le> hand_limit"
  by (auto simp: hand_limit_def elim!: dvdE)

lemma visit_window:
  assumes "length (fst (clock_visit p im va slot vs m)) \<noteq> length vs" "va < 2 ^ 47"
    "unat (im_end im) \<le> hand_limit" "unat (im_heap_end im) \<le> hand_limit"
  shows "va < hand_limit"
proof -
  have v: "rust_validate_page_fault (of_nat va) 0 (im_base im) (im_end im) (im_heap_start im) (im_heap_end im)"
    using assms(1) by (auto simp: clock_visit_def Let_def split: if_splits)
  have u: "unat (of_nat va :: u64) = va" using assms(2) by (intro unat_of_nat64) simp
  consider "(of_nat va :: u64) < im_end im" | "(of_nat va :: u64) < im_heap_end im" | "(of_nat va :: u64) < 0x7ff000"
    using v by (auto simp: rust_validate_page_fault_def split: if_splits)
  thus ?thesis using assms(3,4) u by cases (auto simp: word_less_nat_alt hand_limit_def)
qed

lemma scan_returns:
  assumes w: "unat (im_end im) \<le> hand_limit" "unat (im_heap_end im) \<le> hand_limit" "start \<le> hand_limit"
  shows "4096 dvd va0 \<Longrightarrow> (wr0 \<longrightarrow> va0 \<le> hand_limit) \<Longrightarrow> (want \<le> int (length vs) \<longrightarrow> va0 \<le> hand_limit)
    \<Longrightarrow> \<exists>va' vs' m'. clock_scan p im cr3 start want va0 wr0 vs m = Some (va', vs', m') \<and> va' \<le> hand_limit"
proof (induction "if wr0 then hand_limit - va0 else (2 ^ 48 - va0) + hand_limit + 1" arbitrary: va0 wr0 vs m rule: less_induct)
  case less
  define va wr where "va = (if va0 \<ge> 0x800000000000 then 0 else va0)" and "wr = (if va0 \<ge> 0x800000000000 then True else wr0)"
  note step = clock_scan.simps[of p im cr3 start want va0 wr0 vs m, unfolded Let_def, folded va_def wr_def]
  have va: "va < 2 ^ 47" "4096 dvd va" "wr \<longrightarrow> va \<le> hand_limit" using less.prems by (auto simp: va_def wr_def)
  show ?case
  proof (cases "want \<le> int (length vs) \<or> wr \<and> start \<le> va")
    case True
    thus ?thesis using step less.prems(3) va(3) by (cases "want \<le> int (length vs)") auto
  next
    case False
    hence f: "\<not> want \<le> int (length vs)" "\<not> (wr \<and> start \<le> va)" by auto
    note rec = step[unfolded if_not_P[OF f(1)] if_not_P[OF f(2)]]
    have lim: "wr \<longrightarrow> va < hand_limit" using f(2) w(3) by auto
    have dec: "(if wr then hand_limit - va' else (2 ^ 48 - va') + hand_limit + 1)
        < (if wr0 then hand_limit - va0 else (2 ^ 48 - va0) + hand_limit + 1)" if "va < va'" for va'
      using that lim va(1) less.prems(2) by (auto simp: va_def wr_def hand_limit_def split: if_splits)
    show ?thesis
    proof (cases "clock_entry m cr3 va")
      case (Inr k)
      note l = clock_entry_level[OF Inr]
      have "\<exists>va' vs' m'. clock_scan p im cr3 start want (next_region k va) wr vs m = Some (va', vs', m') \<and> va' \<le> hand_limit"
        using lim l False by (intro less.hyps[OF dec[OF next_region_gt]]) (auto intro: next_region_limit next_region_aligned)
      thus ?thesis by (simp only: rec Inr sum.case)
    next
      case (Inl slot)
      let ?v = "clock_visit p im va slot vs m"
      have "va + 4096 \<le> hand_limit" if "want \<le> int (length (fst ?v))"
      proof -
        have "length (fst ?v) \<noteq> length vs" using that False by auto
        from aligned_next[OF va(2) visit_window[OF this va(1) w(1,2)]] show ?thesis .
      qed
      hence "\<exists>va' vs' m'. clock_scan p im cr3 start want (va + 4096) wr (fst ?v) (snd ?v) = Some (va', vs', m') \<and> va' \<le> hand_limit"
        using lim va(2) by (intro less.hyps[OF dec]) (auto intro: aligned_next)
      thus ?thesis by (simp only: rec Inl sum.case)
    qed
  qed
qed

lemma evict_page_hands: "sp_evict_cursor (m_dev (snd (snd (evict_page bd t cr3 gen va pte \<sigma>)))) = sp_evict_cursor (m_dev \<sigma>)"
proof -
  let ?page = "get_bytes (pte AND PTE_ADDR_MASK) 4096 (m_mem \<sigma>)"
  have p: "sp_evict_cursor (snd (swap_put bd ?page (m_dev \<sigma>))) = sp_evict_cursor (m_dev \<sigma>)"
    by (auto simp: swap_put_def seal_and_write_def Let_def split: option.splits if_splits prod.splits)
  have f: "sp_evict_cursor (swap_free i s) = sp_evict_cursor s" for i and s :: "'a swap_state" by (simp add: swap_free_def Let_def)
  obtain r s1 where e: "swap_put bd ?page (m_dev \<sigma>) = (r, s1)" by (cases "swap_put bd ?page (m_dev \<sigma>)")
  show ?thesis using p unfolding evict_page_def Let_def e prod.case by (auto simp: f set_pool_def split: option.splits)
qed

lemma evict_victims_hands: "sp_evict_cursor (m_dev (snd (evict_victims bd t cr3 gen vs n \<sigma>))) = sp_evict_cursor (m_dev \<sigma>)"
proof (induction vs arbitrary: n \<sigma>)
  case (Cons v vs)
  obtain va pte where v: "v = (va, pte)" by (cases v)
  obtain c d \<sigma>1 where e: "evict_page bd t cr3 gen va pte \<sigma> = (c, d, \<sigma>1)" by (cases "evict_page bd t cr3 gen va pte \<sigma>")
  have "sp_evict_cursor (m_dev \<sigma>1) = sp_evict_cursor (m_dev \<sigma>)" using evict_page_hands[of bd t cr3 gen va pte \<sigma>] by (simp add: e)
  thus ?case using Cons.IH[of "n + d" \<sigma>1] by (cases c) (simp_all add: v e)
qed simp

lemma windows_pool_only: "pool_only \<sigma> \<sigma>' \<Longrightarrow> windows_ok (m_k \<sigma>') = windows_ok (m_k \<sigma>)"
  by (simp add: windows_ok_def pool_only_sel)

lemma start_aligned: "4096 dvd unat ((c :: u64) AND 0x00007FFFFFFFF000)"
proof -
  have "(c AND 0x00007FFFFFFFF000) AND 0xFFF = 0" by (simp add: and.assoc)
  thus ?thesis using unat_and_mask[of 12 "c AND 0x00007FFFFFFFF000"] by (simp add: dvd_eq_mod_eq_0)
qed

lemma hand_moved:
  assumes "va \<le> hand_limit"
  shows "unat ((of_nat va :: u64) AND 0x00007FFFFFFFF000) \<le> hand_limit"
proof -
  have "unat (of_nat va :: u64) = va" using assms by (intro unat_of_nat64) (simp add: hand_limit_def)
  moreover have "unat ((of_nat va :: u64) AND 0x00007FFFFFFFF000) \<le> unat (of_nat va :: u64)"
    using word_and_le2[of "of_nat va :: u64" "0x00007FFFFFFFF000"] by (simp add: word_le_nat_alt)
  ultimately show ?thesis using assms by simp
qed

lemma evict_from_returns:
  assumes "hands_ok (m_dev \<sigma>)" "windows_ok (m_k \<sigma>)"
  shows "\<exists>n \<sigma>'. swap_evict_from bd ti w \<sigma> = Some (n, \<sigma>') \<and> hands_ok (m_dev \<sigma>') \<and> windows_ok (m_k \<sigma>')"
proof (cases rule: evict_from_cases[of bd ti w \<sigma>])
  case refused
  thus ?thesis using assms by simp
next
  case (scan x start w1)
  have l: "unat (im_end (t_image x)) \<le> hand_limit" "unat (im_heap_end (t_image x)) \<le> hand_limit" "start \<le> hand_limit" "4096 dvd start"
    using assms start_aligned by (simp_all add: scan(2,3) windows_ok_def hands_ok_def)
  then obtain va vs m where c: "clock_scan (m_pool \<sigma>) (t_image x) (t_cr3 x) start w1 start False [] (m_mem \<sigma>) = Some (va, vs, m)" "va \<le> hand_limit"
    using scan_returns[OF l(1-3) l(4), of False w1 "[]"] by blast
  define \<sigma>1 where "\<sigma>1 = \<sigma>\<lparr> m_mem := m, m_dev := (m_dev \<sigma>)\<lparr> sp_evict_cursor := (sp_evict_cursor (m_dev \<sigma>))(nat ti := of_nat va) \<rparr> \<rparr>"
  have "hands_ok (m_dev \<sigma>1)" using assms(1) hand_moved[OF c(2)] by (simp add: \<sigma>1_def hands_ok_def)
  hence h: "hands_ok (m_dev (snd (evict_victims bd (nat ti) (t_cr3 x) (t_slot_gen x) vs 0 \<sigma>1)))"
    by (simp add: hands_ok_def evict_victims_hands)
  obtain n \<sigma>' where e: "evict_victims bd (nat ti) (t_cr3 x) (t_slot_gen x) vs 0 \<sigma>1 = (n, \<sigma>')"
    by (cases "evict_victims bd (nat ti) (t_cr3 x) (t_slot_gen x) vs 0 \<sigma>1")
  hence r: "swap_evict_from bd ti w \<sigma> = Some (n, \<sigma>')" unfolding scan(4) c(1) by (simp add: \<sigma>1_def)
  show ?thesis using r h e windows_pool_only[OF evict_from_pool[OF r]] assms(2) by simp
qed

lemma held_windows:
  assumes "sched_pager_hold ti s = (True, k1)" "windows_ok s"
  shows "windows_ok k1"
proof (cases rule: sched_pager_hold_cases[of ti s])
  case held
  thus ?thesis using assms by (auto simp: windows_ok_def)
qed (use assms in simp)

lemma idle_walk_returns:
  "hands_ok (m_dev \<sigma>) \<Longrightarrow> windows_ok (m_k \<sigma>) \<Longrightarrow>
    \<exists>n \<sigma>'. idle_walk bd w is got tried \<sigma> = Some (n, \<sigma>') \<and> hands_ok (m_dev \<sigma>') \<and> windows_ok (m_k \<sigma>')"
proof (induction "is" arbitrary: got tried \<sigma>)
  case (Cons i "is")
  show ?case
  proof (cases rule: idle_walk_cases[of bd w i "is" got tried \<sigma>])
    case (take t k1)
    from evict_from_returns[of "\<sigma>\<lparr> m_k := k1 \<rparr>" bd "int t" "w - got"] Cons.prems held_windows[OF take(1)]
    obtain d \<sigma>2 where e: "swap_evict_from bd (int t) (w - got) (\<sigma>\<lparr> m_k := k1 \<rparr>) = Some (d, \<sigma>2)" "hands_ok (m_dev \<sigma>2)" by auto
    let ?\<sigma>3 = "\<sigma>2\<lparr> m_k := sched_pager_release (int t) (m_k \<sigma>2), m_dev := (m_dev \<sigma>2)\<lparr> sp_idle_cursor := t \<rparr> \<rparr>"
    have "hands_ok (m_dev ?\<sigma>3)" using e(2) by (simp add: hands_ok_def)
    moreover have "windows_ok (m_k ?\<sigma>3)"
      using windows_pool_only[OF held_evict_pool[OF take(1) e(1)]] Cons.prems(2) by simp
    ultimately show ?thesis using Cons.IH[of ?\<sigma>3 "got + d" "tried + 1"] take(2) e(1) by simp
  qed (use Cons in auto)
qed simp

text \<open>C19. Eviction always returns: while every clock hand stands below the last 512 GiB of
  the user half and every image and heap ends below it, taking pages from the running task and
  from idle tasks comes to an end, and leaves hands and windows so that the next call does
  too.\<close>

theorem pager_returns:
  assumes "hands_ok (m_dev \<sigma>)" "windows_ok (m_k \<sigma>)"
  shows "(\<exists>n \<sigma>'. swap_evict_self bd w \<sigma> = Some (n, \<sigma>') \<and> hands_ok (m_dev \<sigma>') \<and> windows_ok (m_k \<sigma>'))
    \<and> (\<exists>n \<sigma>'. swap_evict_idle bd w \<sigma> = Some (n, \<sigma>') \<and> hands_ok (m_dev \<sigma>') \<and> windows_ok (m_k \<sigma>'))"
proof
  show "\<exists>n \<sigma>'. swap_evict_self bd w \<sigma> = Some (n, \<sigma>') \<and> hands_ok (m_dev \<sigma>') \<and> windows_ok (m_k \<sigma>')"
    unfolding swap_evict_self_def by (rule evict_from_returns[OF assms])
  from idle_walk_returns[OF assms, of bd w "[1..<k_max_tasks (m_k \<sigma>)]" 0 0]
  obtain n \<sigma>' where r: "idle_walk bd w [1..<k_max_tasks (m_k \<sigma>)] 0 0 \<sigma> = Some (n, \<sigma>')" "hands_ok (m_dev \<sigma>')" "windows_ok (m_k \<sigma>')" by blast
  show "\<exists>n \<sigma>'. swap_evict_idle bd w \<sigma> = Some (n, \<sigma>') \<and> hands_ok (m_dev \<sigma>') \<and> windows_ok (m_k \<sigma>')"
    unfolding swap_evict_idle_def r(1) using r(2,3) by (simp add: hands_ok_def)
qed

theorem pager_returns_witness: "\<exists>n \<sigma>'. swap_evict_self mem_dev 32 demo_pager = Some (n, \<sigma>') \<and> hands_ok (m_dev \<sigma>')"
proof -
  have "hands_ok (m_dev demo_pager)" "windows_ok (m_k demo_pager)"
    by (auto simp: hands_ok_def windows_ok_def demo_pager_def demo_swap_def demo_mach_def zero_tcb_def zero_image_def)
  from pager_returns[OF this, of mem_dev 32] show ?thesis by blast
qed

end
