(* ===== verification/Spec2Isabelle.thy ===== *)
theory Spec2Isabelle
  imports Sched_Pick Ipc_Wait Swap
begin

text \<open>
  \<^bold>\<open>Horus: a verification development of the capability microkernel.\<close>

  Horus is a multiprocessor microkernel in C (\<^verbatim>\<open>src/kernel\<close>, with its types and constants in
  \<^verbatim>\<open>src/include/kernel.h\<close>) over a core in Rust (\<^verbatim>\<open>rust/src\<close>).  Every object a task can reach
  is named by a capability in its capability space; the C side holds the tables and the locks
  and asks the Rust core to derive, narrow and revoke.  Objects are carved out of untyped memory
  and collected when no capability names them.  Tasks exchange messages over endpoints and
  notifications, read and write pipes, are scheduled by contexts that divide each processor's
  time, and have their memory in page tables over one pool of frames, from which the pager takes
  idle pages to a sealed swap store.

  \<^bold>\<open>Theories.\<close>  Each opens with a text on what it models.

  \<^item> \<open>Horus_Prelude\<close>: machine widths, the capability constants, generic lemmas on words, lists
    and searches, and the collections of simplification rules.
  \<^item> \<open>Page_Pool\<close>: RAM regions, placement of the reserves and of the pool's own tables at boot,
    the free stack with its loan bits, and the frame reference counts on the C and the Rust side
    (\<^verbatim>\<open>paging.c\<close>, \<^verbatim>\<open>memory.rs\<close>).
  \<^item> \<open>Cap_Core\<close>, \<open>Cap_Revoke\<close>, \<open>Cap_Reparent\<close>: the capability record, lookups, serials and
    derivations; the revocation sweep over one space and over all; what happens to the children
    of a dying task's capabilities (\<^verbatim>\<open>capability.rs\<close>).  The memory of capabilities is a function
    from addresses, an address being a space and a slot, so aliasing between spaces is explicit.
  \<^item> \<open>Kernel_State\<close>: the shared state as one record \<open>kstate\<close>, its structures in the order of
    \<^verbatim>\<open>kernel.h\<close>.
  \<^item> \<open>Pipe_Pool\<close>: the pool of pipes, their end counts and the ring of bytes (\<^verbatim>\<open>pipe.c\<close>).
  \<^item> \<open>Run_List\<close>, \<open>Sched_Ctx\<close>, \<open>Sched_Pick\<close>: the doubly linked run lists, the scheduling contexts
    with their shares and budgets, and the choice of the next task (\<^verbatim>\<open>scheduler.c\<close>,
    \<^verbatim>\<open>sched.rs\<close>).
  \<^item> \<open>Kobj\<close>: the arena, allocation of typed objects and their collection (\<^verbatim>\<open>untyped.c\<close>).
  \<^item> \<open>Cap_Ops\<close>: the operations of \<^verbatim>\<open>capability.c\<close> over the Rust core: boot, lookup and
    revalidation, installs, derivations, grants, cloning, consumption, revocation and release.
  \<^item> \<open>User_Mem\<close>: the page-table walk, demand faults, copy on write, and the copies between the
    kernel and user memory (\<^verbatim>\<open>paging.c\<close>, \<^verbatim>\<open>lib.rs\<close>).  A machine state \<open>mach\<close> is the kernel state
    with physical memory as a function from addresses to bytes; the swap operations are an
    argument.
  \<^item> \<open>Ipc\<close>, \<open>Ipc_Wait\<close>: every handler of \<^verbatim>\<open>syscall_ipc.c\<close>, and sleeping and waking as a step
    relation \<open>ipc_step\<close> over them.
  \<^item> \<open>Crypto\<close>: SHA-256, HMAC, HKDF, ChaCha20, the generator and encrypt-then-MAC
    (\<^verbatim>\<open>sha256.rs\<close>, \<^verbatim>\<open>rng.rs\<close>, \<^verbatim>\<open>aead.rs\<close>).
  \<^item> \<open>Swap\<close>: the sealed slot store (\<^verbatim>\<open>swap.c\<close>) and the pager (the swap part of \<^verbatim>\<open>paging.c\<close>, the
    pager's hold of \<^verbatim>\<open>scheduler.c\<close>), which are the operations \<open>User_Mem\<close> takes as an argument.

  Definitions carry the names of the C and Rust functions; a helper that is a part of one function
  (a loop, one branch) has a name of its own.  A C error code is an \<open>int\<close>, a pointer that may
  be null an option, a task number an \<open>int\<close> where the code takes one from outside and a \<open>nat\<close>
  once it is in range.  Integers keep their width where wrapping can be seen: serials, objects,
  rights, counts of 16 and 32 bits, page-table entries and addresses are words.

  \<^bold>\<open>What is shown.\<close>

  \<^item> Capabilities: derivations never widen rights; every sequence of capability calls keeps serials
    unique, the derivation order and the quotas; a revocation empties exactly the capability and
    its descendants in every space, lowers every count and tally by what it emptied, and a
    snapshot of a revoked capability never passes again; the death of a task leaves every
    revocation as far-reaching as it was.
  \<^item> Memory: no frame and no byte of the arena is handed out twice, and an object lies in the region it
    was taken from; boot places its reserves
    clear of modules; copies to and from user memory agree with the page tables byte by byte;
    breaking a shared page leaves the other holders alone; the collector frees exactly what is
    neither named by a capability, nor pinned, nor a frame in use.
  \<^item> Scheduling: shares on a processor always sum to the whole; the run lists refine lists; the
    pick is the most urgent task with budget.
  \<^item> Communication: an endpoint is a bounded first-in first-out queue with attested senders; no
    wake-up of the waiter of an endpoint or a notification is lost, though a second sleeper takes the
    place of the first; the blocking receive returns whatever happens beside it; a reply right works
    once and reaches only its caller; a pipe is a byte stream, and its object names one use of its slot.
  \<^item> Swap: a sealed page opens to itself, and only under its tag; a page taken out comes back with its
    bytes and flags; altered, moved and replayed blocks are refused up to a collision of the
    16-byte authentication code; the pager changes only the pool.

  \<^bold>\<open>Interfaces.\<close>  The locales \<open>derivation\<close>, \<open>byte_stream\<close>, \<open>sweepable\<close> and
  \<open>bounded_queue\<close> state what a client relies on of derived capabilities, of a ring buffer, of a
  table of collectable objects and of an endpoint's queue; each is interpreted on the model's
  own operations.  The hypothesis \<open>swap_frame\<close> of the message theorems is what \<open>Swap\<close> proves of
  the pager.  The block device under swap is an argument, with the hypothesis \<open>dev_ok\<close>: a
  block that was written reads back as written, and a write, successful or not, changes no other.

  \<^bold>\<open>Loops.\<close>  Loops are structural recursion or recursion with a measure, with these exceptions.
  The placement of the reserves and the search for the heir of a scheduling context run at most
  as often as the code's own loop counter allows.  The walks round a run list take the number of
  task slots as fuel; a well-formed list is no longer than that, which \<open>run_list_short\<close>
  shows.  The loop of the blocking receive takes fuel, and more than the number of messages
  queued at the start and added while it runs is enough (\<open>blocking_receive_returns\<close>).  The clock of the pager is a partial
  function, since from a hand in the last region of the user half with no table there it would
  go round for ever; \<open>pager_returns\<close> shows that it returns while the hands, images and
  heaps lie below that region.  The loader places images some 4 TiB up at most, and heaps
  start low, so the kernel stays there.

  \<^bold>\<open>Concurrency.\<close>  A section of code under one lock is one step, and so is a call that only holds
  locks one after another, except where the interleaving is the point: blocking is recorded and
  published in two steps; the blocking receive is given what the other processors do each time its
  lock is free, and \<open>recv_loop_steps\<close> shows its rounds as single steps among theirs; and the steps of
  \<open>ipc_step\<close>, among them the locked sections of a send and of a receive with a snapshot taken earlier,
  interleave freely.  A run \<open>ipc_run\<close> of these steps keeps the set of the tasks that were overtaken in their sleep.  Fences, translation
  buffers and the locks themselves are not modelled.  Code that is compiled only for control arms
  and instruments (such as \<^verbatim>\<open>SWAP_SEAL_OFF\<close>) is left out.

  \<^bold>\<open>Not modelled.\<close>  Building, cloning and freeing page-table trees, the image loader and spawning,
  and task creation and teardown: they act on most of the task structure at once, and their
  correctness is about the trees as a whole, for which the models here have only the walk.  The
  register decoding of system calls beside IPC and the file, hardware and mapping calls.
  Drivers, interrupt and descriptor tables, boot and the context switch, which are
  assembly and hardware behaviour.  The encrypted file system, password hashing, the partition
  table and the audit log.  Console output.  User programs.  The manifest lists each of these.
\<close>

end
